(* ===== verification/NP_Prelude.thy ===== *)
theory NP_Prelude
  imports Main "HOL-Library.Word" "HOL-Library.Multiset"
begin

text \<open>
  Shared vocabulary of the development: the machine-integer and byte-string types of the Rust
  sources, results of fallible operations as values of a sum type, little- and big-endian
  conversions (\<open>from_le_bytes\<close>, \<open>to_le_bytes\<close> and their big-endian twins), byte-wise exclusive
  or, in-place element swaps, and the byte transports (\<open>std::io::Read\<close>/\<open>Write\<close>) the framing
  layers run over.  Facts that the component theories use over and over are declared \<open>[simp]\<close> or
  collected in the named collections below.
\<close>

unbundle bit_operations_syntax

named_theorems np_consts "numeric constants of the sources, for evaluation"
named_theorems frame_simps "unfolding equations of the framing layers"
named_theorems len_simps "lengths of the byte strings the transforms produce"

subsection \<open>Types\<close>

type_synonym u8 = "8 word"
type_synonym u16 = "16 word"
type_synonym u32 = "32 word"
type_synonym u64 = "64 word"
type_synonym u128 = "128 word"
type_synonym bytes = "u8 list"

subsection \<open>Words read as naturals\<close>

lemma unat_lt_u8: "unat (w :: u8) < 256"
  using unsigned_less [of w, where ?'a = nat] by simp

lemma unat_lt_u16: "unat (w :: u16) < 65536"
  using unsigned_less [of w, where ?'a = nat] by simp

lemma unat_lt_u32: "unat (w :: u32) < 2 ^ 32"
  using unsigned_less [of w, where ?'a = nat] by simp

lemma unat_lt_u64: "unat (w :: u64) < 2 ^ 64"
  using unsigned_less [of w, where ?'a = nat] by simp

lemma unat_ucast_mod:
  "unat (ucast (w :: 'a::len word) :: 'b::len word) = unat w mod 2 ^ LENGTH('b)"
  by (simp add: unsigned_ucast_eq take_bit_eq_mod)

lemma unat_ucast_up:
  "LENGTH('a) \<le> LENGTH('b) \<Longrightarrow> unat (ucast (w :: 'a::len word) :: 'b::len word) = unat w"
proof -
  assume "LENGTH('a) \<le> LENGTH('b)"
  then have "unat w < 2 ^ LENGTH('b)"
    by (meson less_le_trans one_le_numeral power_increasing unsigned_less)
  then show ?thesis by (simp add: unat_ucast_mod)
qed

lemma unat_add_small:
  "unat a + unat b < 2 ^ LENGTH('a) \<Longrightarrow> unat (a + b :: 'a::len word) = unat a + unat b"
  by (simp add: unat_word_ariths)

lemma unat_mult_small:
  "unat a * unat b < 2 ^ LENGTH('a) \<Longrightarrow> unat (a * b :: 'a::len word) = unat a * unat b"
  by (simp add: unat_word_ariths)

lemma unat_of_nat_small: "n < 2 ^ LENGTH('a) \<Longrightarrow> unat (of_nat n :: 'a::len word) = n"
  by (simp add: unat_of_nat)

subsection \<open>Little- and big-endian readings\<close>

definition to_le :: "nat \<Rightarrow> 'a::len word \<Rightarrow> bytes" where
  "to_le n w = map (\<lambda>i. ucast (drop_bit (8 * i) w)) [0..<n]"

fun from_le :: "bytes \<Rightarrow> 'a::len word" where
  "from_le [] = 0"
| "from_le (b # bs) = ucast b OR push_bit 8 (from_le bs)"

definition to_be :: "nat \<Rightarrow> 'a::len word \<Rightarrow> bytes" where
  "to_be n w = rev (to_le n w)"

definition from_be :: "bytes \<Rightarrow> 'a::len word" where
  "from_be bs = from_le (rev bs)"

lemma length_to_le [simp, len_simps]: "length (to_le n w) = n"
  by (simp add: to_le_def)

lemma length_to_be [simp, len_simps]: "length (to_be n w) = n"
  by (simp add: to_be_def)

lemma bit_to_le_nth:
  "k < n \<Longrightarrow> bit (to_le n w ! k) j \<longleftrightarrow> j < 8 \<and> bit w (8 * k + j)"
  by (auto simp: to_le_def bit_simps dest: bit_imp_le_length)

lemma bit_from_le:
  "bit (from_le bs :: 'a::len word) i \<longleftrightarrow>
     i < LENGTH('a) \<and> i div 8 < length bs \<and> bit (bs ! (i div 8)) (i mod 8)"
proof (induction bs arbitrary: i)
  case Nil
  then show ?case by simp
next
  case (Cons b bs)
  show ?case
  proof (cases "i < 8")
    case True
    then show ?thesis by (auto simp: bit_simps)
  next
    case False
    then have *: "i div 8 = Suc ((i - 8) div 8)" "i mod 8 = (i - 8) mod 8"
      by (auto simp: div_if mod_if)
    have "\<not> bit b i"
      using False bit_imp_le_length [of b i] by auto
    with False show ?thesis
      by (auto simp: bit_simps Cons.IH *)
  qed
qed

lemma from_le_to_le:
  "LENGTH('a) \<le> 8 * n \<Longrightarrow> from_le (to_le n (w :: 'a::len word)) = w"
proof (rule bit_word_eqI)
  fix i assume n: "LENGTH('a) \<le> 8 * n" and i: "i < LENGTH('a)"
  then have "i div 8 < n" by auto
  then show "bit (from_le (to_le n w) :: 'a word) i \<longleftrightarrow> bit w i"
    using i by (simp add: bit_from_le bit_to_le_nth)
qed

lemma to_le_from_le:
  assumes "8 * n \<le> LENGTH('a)" and "length bs = n"
  shows "to_le n (from_le bs :: 'a::len word) = bs"
proof (rule nth_equalityI)
  show "length (to_le n (from_le bs :: 'a word)) = length bs"
    using assms by simp
next
  fix k assume "k < length (to_le n (from_le bs :: 'a word))"
  then have k: "k < n" by simp
  show "to_le n (from_le bs :: 'a word) ! k = bs ! k"
  proof (rule bit_word_eqI)
    fix j assume j: "j < LENGTH(8)"
    then have j8: "j < 8" by simp
    moreover have "8 * k + j < LENGTH('a)"
      using k j8 assms(1) by linarith
    moreover have "(8 * k + j) div 8 = k" "(8 * k + j) mod 8 = j"
      using j8 by auto
    ultimately show "bit (to_le n (from_le bs :: 'a word) ! k) j \<longleftrightarrow> bit (bs ! k) j"
      using k assms(2) by (simp add: bit_to_le_nth bit_from_le)
  qed
qed

lemma from_be_to_be:
  "LENGTH('a) \<le> 8 * n \<Longrightarrow> from_be (to_be n (w :: 'a::len word)) = w"
  by (simp add: from_be_def to_be_def from_le_to_le)

lemma to_be_from_be:
  "8 * n \<le> LENGTH('a) \<Longrightarrow> length bs = n \<Longrightarrow> to_be n (from_be bs :: 'a::len word) = bs"
  by (simp add: from_be_def to_be_def to_le_from_le)

lemma inj_to_be: "LENGTH('a) \<le> 8 * n \<Longrightarrow> to_be n v = to_be n w \<Longrightarrow> v = (w :: 'a::len word)"
  by (metis from_be_to_be)

subsection \<open>Byte-wise exclusive or\<close>

definition xor_bytes :: "bytes \<Rightarrow> bytes \<Rightarrow> bytes" where
  "xor_bytes xs ys = map2 (XOR) xs ys"

lemma length_xor_bytes [simp, len_simps]:
  "length (xor_bytes xs ys) = min (length xs) (length ys)"
  by (simp add: xor_bytes_def)

lemma xor_cancel [simp]: "((x :: 'a::len word) XOR k) XOR k = x"
  by (simp add: xor.assoc)

lemma nth_xor_bytes:
  "i < length xs \<Longrightarrow> i < length ys \<Longrightarrow> xor_bytes xs ys ! i = xs ! i XOR ys ! i"
  by (simp add: xor_bytes_def)

lemma xor_bytes_cancel [simp]:
  "length xs \<le> length ks \<Longrightarrow> xor_bytes (xor_bytes xs ks) ks = xs"
  by (rule nth_equalityI) (auto simp: nth_xor_bytes)

lemma to_le_xor: "to_le n (v XOR w) = xor_bytes (to_le n v) (to_le n w)"
proof (rule nth_equalityI)
  fix k assume "k < length (to_le n (v XOR w))"
  then have k: "k < n" by simp
  show "to_le n (v XOR w) ! k = xor_bytes (to_le n v) (to_le n w) ! k"
    using k by (intro bit_word_eqI) (simp add: nth_xor_bytes bit_to_le_nth bit_simps)
qed simp

subsection \<open>Swapping two elements in place\<close>

definition swap_at :: "nat \<Rightarrow> nat \<Rightarrow> 'a list \<Rightarrow> 'a list" where
  "swap_at i j xs = xs[i := xs ! j, j := xs ! i]"

lemma length_swap_at [simp, len_simps]: "length (swap_at i j xs) = length xs"
  by (simp add: swap_at_def)

lemma swap_at_swap_at [simp]:
  "i < length xs \<Longrightarrow> j < length xs \<Longrightarrow> swap_at i j (swap_at i j xs) = xs"
  by (rule nth_equalityI) (auto simp: swap_at_def nth_list_update)

lemma mset_swap_at [simp]:
  "i < length xs \<Longrightarrow> j < length xs \<Longrightarrow> mset (swap_at i j xs) = mset xs"
  by (simp add: swap_at_def mset_swap)

subsection \<open>Length-preserving byte transforms\<close>

text \<open>
  The contract every in-place obfuscation transform of the sources promises its caller: the
  inverse undoes it in both directions and neither direction changes the length.  \<open>ok\<close> is the
  set of byte strings the transform accepts; it depends on the length only.
\<close>

locale byte_transform =
  fixes enc :: "'k \<Rightarrow> bytes \<Rightarrow> bytes"
    and dec :: "'k \<Rightarrow> bytes \<Rightarrow> bytes"
    and ok :: "nat \<Rightarrow> bool"
  assumes dec_enc: "ok (length xs) \<Longrightarrow> dec k (enc k xs) = xs"
    and enc_dec: "ok (length xs) \<Longrightarrow> enc k (dec k xs) = xs"
    and length_enc: "length (enc k xs) = length xs"
    and length_dec: "length (dec k xs) = length xs"
begin

lemma enc_inj: "ok (length xs) \<Longrightarrow> ok (length ys) \<Longrightarrow> enc k xs = enc k ys \<Longrightarrow> xs = ys"
  by (metis dec_enc)

lemma dec_inj: "ok (length xs) \<Longrightarrow> ok (length ys) \<Longrightarrow> dec k xs = dec k ys \<Longrightarrow> xs = ys"
  by (metis enc_dec)

lemma enc_surj: "ok n \<Longrightarrow> enc k ` {xs. length xs = n} = {ys. length ys = n}"
proof (intro set_eqI iffI)
  fix ys :: bytes assume "ok n" "ys \<in> {ys. length ys = n}"
  then have "ys = enc k (dec k ys)" "dec k ys \<in> {xs. length xs = n}"
    by (auto simp: enc_dec length_dec)
  then show "ys \<in> enc k ` {xs. length xs = n}" by blast
qed (auto simp: length_enc)

lemma enc_eq_iff: "ok (length xs) \<Longrightarrow> enc k xs = ys \<longleftrightarrow> xs = dec k ys \<and> ok (length ys)"
  by (metis dec_enc enc_dec length_dec length_enc)

end

text \<open>Two transforms applied one after the other, undone in the opposite order.\<close>

locale byte_transform_pair =
  fst: byte_transform enc1 dec1 ok + snd: byte_transform enc2 dec2 ok
  for enc1 :: "'k \<Rightarrow> bytes \<Rightarrow> bytes" and dec1 :: "'k \<Rightarrow> bytes \<Rightarrow> bytes"
    and enc2 :: "'k \<Rightarrow> bytes \<Rightarrow> bytes" and dec2 :: "'k \<Rightarrow> bytes \<Rightarrow> bytes"
    and ok :: "nat \<Rightarrow> bool"
begin

lemma seq_dec_enc: "ok (length xs) \<Longrightarrow> dec1 k (dec2 k (enc2 k (enc1 k xs))) = xs"
  by (simp add: fst.dec_enc snd.dec_enc fst.length_enc)

lemma seq_enc_dec: "ok (length xs) \<Longrightarrow> enc2 k (enc1 k (dec1 k (dec2 k xs))) = xs"
  by (simp add: fst.enc_dec snd.enc_dec snd.length_dec)

lemma seq_transform: "byte_transform (\<lambda>k xs. enc2 k (enc1 k xs)) (\<lambda>k xs. dec1 k (dec2 k xs)) ok"
  by unfold_locales
    (simp_all add: seq_dec_enc seq_enc_dec fst.length_enc fst.length_dec snd.length_enc snd.length_dec)

end

subsection \<open>Lists\<close>

lemma append_take_drop_nth:
  "i < length xs \<Longrightarrow> take i xs @ xs ! i # drop (Suc i) xs = xs"
  by (rule id_take_nth_drop [symmetric])

lemma append_shorter:
  "p @ xs = w @ ys \<Longrightarrow> length p < length w \<Longrightarrow> \<exists>q. w = p @ q \<and> q \<noteq> []"
  by (auto simp: append_eq_append_conv2)

lemma length_16_cases:
  assumes "length xs = 16"
  obtains a b c d e f g h i j k l m n p q where
    "xs = [a, b, c, d, e, f, g, h, i, j, k, l, m, n, p, q]"
  using assms by (auto simp: numeral_eq_Suc length_Suc_conv)

end
