(* ===== verification/Simd.thy ===== *)
theory Simd
  imports NP_Prelude
begin

text \<open>
  \<^verbatim>\<open>crates/core/src/crypto/simd.rs\<close>: delta coding of the payload.  The portable scalar loops
  are the reference; the SSE2 and NEON kernels are modelled lane by lane (a vector register is a
  list of sixteen bytes, an intrinsic is its lane-wise meaning) and are shown to compute the
  scalar result on every input.
\<close>

subsection \<open>Scalar reference\<close>

fun enc_loop :: "u8 \<Rightarrow> bytes \<Rightarrow> bytes" where
  "enc_loop prev [] = []"
| "enc_loop prev (cur # bs) = (cur - prev) # enc_loop cur bs"

fun dec_loop :: "u8 \<Rightarrow> bytes \<Rightarrow> bytes" where
  "dec_loop prev [] = []"
| "dec_loop prev (b # bs) = (prev + b) # dec_loop (prev + b) bs"

definition scalar_delta_encode :: "bytes \<Rightarrow> u8 \<Rightarrow> bytes" where
  "scalar_delta_encode data kf8 =
     (case data of [] \<Rightarrow> [] | prev # bs \<Rightarrow> (prev - kf8) # enc_loop prev bs)"

definition scalar_delta_decode :: "bytes \<Rightarrow> u8 \<Rightarrow> bytes" where
  "scalar_delta_decode data kf8 =
     (case data of [] \<Rightarrow> [] | b # bs \<Rightarrow> (b + kf8) # dec_loop (b + kf8) bs)"

subsection \<open>SSE2 kernels\<close>

definition mm_set1 :: "u8 \<Rightarrow> bytes" where
  "mm_set1 x = replicate 16 x"

definition mm_slli :: "bytes \<Rightarrow> nat \<Rightarrow> bytes" where
  "mm_slli v k = replicate k 0 @ take (16 - k) v"

definition mm_and :: "bytes \<Rightarrow> bytes \<Rightarrow> bytes" where
  "mm_and = map2 (AND)"

definition mm_or :: "bytes \<Rightarrow> bytes \<Rightarrow> bytes" where
  "mm_or = map2 (OR)"

definition mm_add :: "bytes \<Rightarrow> bytes \<Rightarrow> bytes" where
  "mm_add = map2 (+)"

definition mm_sub :: "bytes \<Rightarrow> bytes \<Rightarrow> bytes" where
  "mm_sub = map2 (-)"

definition KEEP15 :: bytes where
  "KEEP15 = 0 # replicate 15 (- 1)"

definition LANE0 :: bytes where
  "LANE0 = (- 1) # replicate 15 0"

fun sse2_enc_blocks :: "u8 \<Rightarrow> bytes \<Rightarrow> bytes" where
  "sse2_enc_blocks prev data =
     (if length data < 16 then enc_loop prev data
      else let v = take 16 data;
               shifted = mm_or (mm_and (mm_slli v 1) KEEP15) (mm_and (mm_set1 prev) LANE0)
           in mm_sub v shifted @ sse2_enc_blocks (v ! 15) (drop 16 data))"

fun sse2_dec_blocks :: "u8 \<Rightarrow> bytes \<Rightarrow> bytes" where
  "sse2_dec_blocks carry data =
     (if length data < 16 then dec_loop carry data
      else let v0 = take 16 data;
               v1 = mm_add v0 (mm_and (mm_set1 carry) LANE0);
               v2 = mm_add v1 (mm_slli v1 1);
               v3 = mm_add v2 (mm_slli v2 2);
               v4 = mm_add v3 (mm_slli v3 4);
               v5 = mm_add v4 (mm_slli v4 8)
           in v5 @ sse2_dec_blocks (v5 ! 15) (drop 16 data))"

declare sse2_enc_blocks.simps [simp del] sse2_dec_blocks.simps [simp del]

definition sse2_delta_encode :: "bytes \<Rightarrow> u8 \<Rightarrow> bytes" where
  "sse2_delta_encode data kf8 =
     (case data of [] \<Rightarrow> []
      | orig0 # bs \<Rightarrow>
          (if bs = [] then [orig0 - kf8] else (orig0 - kf8) # sse2_enc_blocks orig0 bs))"

definition sse2_delta_decode :: "bytes \<Rightarrow> u8 \<Rightarrow> bytes" where
  "sse2_delta_decode data kf8 =
     (case data of [] \<Rightarrow> []
      | b # bs \<Rightarrow>
          (let d0 = b + kf8 in if bs = [] then [d0] else d0 # sse2_dec_blocks d0 bs))"

subsection \<open>NEON kernels\<close>

text \<open>\<open>vextq_u8(a, b, n)\<close> takes sixteen lanes of \<open>a\<close> followed by \<open>b\<close>, starting at lane \<open>n\<close>.\<close>

definition vextq :: "bytes \<Rightarrow> bytes \<Rightarrow> nat \<Rightarrow> bytes" where
  "vextq a b n = take 16 (drop n (a @ b))"

definition neon_shl :: "nat \<Rightarrow> bytes \<Rightarrow> bytes" where
  "neon_shl k v = vextq (replicate 16 0) v (16 - k)"

fun neon_enc_blocks :: "u8 \<Rightarrow> bytes \<Rightarrow> bytes" where
  "neon_enc_blocks prev data =
     (if length data < 16 then enc_loop prev data
      else let v = take 16 data;
               shifted = (neon_shl 1 v)[0 := prev]
           in mm_sub v shifted @ neon_enc_blocks (v ! 15) (drop 16 data))"

fun neon_dec_blocks :: "u8 \<Rightarrow> bytes \<Rightarrow> bytes" where
  "neon_dec_blocks carry data =
     (if length data < 16 then dec_loop carry data
      else let v0 = take 16 data;
               v1 = mm_add v0 (mm_and (mm_set1 carry) LANE0);
               v2 = mm_add v1 (neon_shl 1 v1);
               v3 = mm_add v2 (neon_shl 2 v2);
               v4 = mm_add v3 (neon_shl 4 v3);
               v5 = mm_add v4 (neon_shl 8 v4)
           in v5 @ neon_dec_blocks (v5 ! 15) (drop 16 data))"

declare neon_enc_blocks.simps [simp del] neon_dec_blocks.simps [simp del]

definition neon_delta_encode :: "bytes \<Rightarrow> u8 \<Rightarrow> bytes" where
  "neon_delta_encode data kf8 =
     (case data of [] \<Rightarrow> []
      | orig0 # bs \<Rightarrow>
          (if bs = [] then [orig0 - kf8] else (orig0 - kf8) # neon_enc_blocks orig0 bs))"

definition neon_delta_decode :: "bytes \<Rightarrow> u8 \<Rightarrow> bytes" where
  "neon_delta_decode data kf8 =
     (case data of [] \<Rightarrow> []
      | b # bs \<Rightarrow>
          (let d0 = b + kf8 in if bs = [] then [d0] else d0 # neon_dec_blocks d0 bs))"

subsection \<open>Backend selection\<close>

datatype target_arch = X86_64 | Aarch64 | OtherArch

fun simd_delta_encode :: "target_arch \<Rightarrow> bytes \<Rightarrow> u8 \<Rightarrow> bytes" where
  "simd_delta_encode X86_64 data kf8 = sse2_delta_encode data kf8"
| "simd_delta_encode Aarch64 data kf8 = neon_delta_encode data kf8"
| "simd_delta_encode OtherArch data kf8 = scalar_delta_encode data kf8"

fun simd_delta_decode :: "target_arch \<Rightarrow> bytes \<Rightarrow> u8 \<Rightarrow> bytes" where
  "simd_delta_decode X86_64 data kf8 = sse2_delta_decode data kf8"
| "simd_delta_decode Aarch64 data kf8 = neon_delta_decode data kf8"
| "simd_delta_decode OtherArch data kf8 = scalar_delta_decode data kf8"

subsection \<open>The scalar loops are inverse to each other\<close>

lemma length_enc_loop [simp, len_simps]: "length (enc_loop p xs) = length xs"
  by (induction p xs rule: enc_loop.induct) simp_all

lemma length_dec_loop [simp, len_simps]: "length (dec_loop p xs) = length xs"
  by (induction p xs rule: dec_loop.induct) simp_all

lemma dec_enc_loop [simp]: "dec_loop p (enc_loop p xs) = xs"
  by (induction p xs rule: enc_loop.induct) simp_all

lemma enc_dec_loop [simp]: "enc_loop p (dec_loop p xs) = xs"
  by (induction p xs rule: dec_loop.induct) simp_all

lemma enc_loop_append:
  "xs \<noteq> [] \<Longrightarrow> enc_loop p (xs @ ys) = enc_loop p xs @ enc_loop (last xs) ys"
  by (induction p xs rule: enc_loop.induct) auto

lemma dec_loop_append:
  "xs \<noteq> [] \<Longrightarrow> dec_loop p (xs @ ys) = dec_loop p xs @ dec_loop (last (dec_loop p xs)) ys"
proof (induction p xs rule: dec_loop.induct)
  case (2 p b bs)
  then show ?case by (cases bs) auto
qed simp

lemma dec_loop_eq_Nil [simp]: "dec_loop p xs = [] \<longleftrightarrow> xs = []"
  by (cases xs) auto

subsection \<open>One vector block computes sixteen scalar steps\<close>

lemmas lane_defs = mm_set1_def mm_slli_def mm_and_def mm_or_def mm_add_def mm_sub_def
  KEEP15_def LANE0_def vextq_def neon_shl_def

lemma sse2_enc_block:
  assumes "length v = 16"
  shows "mm_sub v (mm_or (mm_and (mm_slli v 1) KEEP15) (mm_and (mm_set1 p) LANE0)) = enc_loop p v"
  using assms by (elim length_16_cases) (simp add: lane_defs numeral_eq_Suc)

lemma neon_enc_block:
  assumes "length v = 16"
  shows "mm_sub v ((neon_shl 1 v)[0 := p]) = enc_loop p v"
  using assms by (elim length_16_cases) (simp add: lane_defs numeral_eq_Suc)

text \<open>The four shift-and-add rounds of the inclusive scan, on either instruction set.\<close>

definition scan_block :: "(nat \<Rightarrow> bytes \<Rightarrow> bytes) \<Rightarrow> u8 \<Rightarrow> bytes \<Rightarrow> bytes" where
  "scan_block shl carry v0 =
     (let v1 = mm_add v0 (mm_and (mm_set1 carry) LANE0);
          v2 = mm_add v1 (shl 1 v1);
          v3 = mm_add v2 (shl 2 v2);
          v4 = mm_add v3 (shl 4 v3)
      in mm_add v4 (shl 8 v4))"

text \<open>Each round doubles the window of input lanes a lane has summed up.\<close>

lemma scan_round:
  fixes u v :: bytes
  assumes "length v = 16" and "k \<le> 16"
    and win: "\<And>i. i < 16 \<Longrightarrow> v ! i = sum ((!) u) {Suc i - k..i}"
    and "i < 16"
  shows "mm_add v (mm_slli v k) ! i = sum ((!) u) {Suc i - 2 * k..i}"
proof (cases "i < k")
  case True
  with assms show ?thesis
    by (simp add: mm_add_def mm_slli_def nth_append)
next
  case False
  then have "{Suc i - 2 * k..i} = {Suc (i - k) - k..i - k} \<union> {Suc i - k..i}"
    and disj: "{Suc (i - k) - k..i - k} \<inter> {Suc i - k..i} = {}" if "0 < k"
    using that by auto
  with False assms win [of "i - k"] win [of i] show ?thesis
    by (cases "k = 0") (simp_all add: mm_add_def mm_slli_def nth_append sum.union_disjoint add.commute)
qed

lemma length_scan_round [simp]:
  "length v = 16 \<Longrightarrow> k \<le> 16 \<Longrightarrow> length (mm_add v (mm_slli v k)) = 16"
  by (simp add: mm_add_def mm_slli_def)

lemma dec_loop_nth: "i < length xs \<Longrightarrow> dec_loop p xs ! i = p + sum ((!) xs) {..i}"
proof (induction p xs arbitrary: i rule: dec_loop.induct)
  case (2 p b bs)
  then show ?case
    by (cases i) (simp_all add: sum.atMost_Suc_shift add.assoc del: sum.atMost_Suc)
qed simp

lemma sse2_dec_block:
  assumes v: "length v = 16"
  shows "scan_block (\<lambda>k v. mm_slli v k) p v = dec_loop p v"
proof -
  define v1 where "v1 = mm_add v (mm_and (mm_set1 p) LANE0)"
  define v2 where "v2 = mm_add v1 (mm_slli v1 1)"
  define v3 where "v3 = mm_add v2 (mm_slli v2 2)"
  define v4 where "v4 = mm_add v3 (mm_slli v3 4)"
  define v5 where "v5 = mm_add v4 (mm_slli v4 8)"
  have v1: "v1 = v[0 := v ! 0 + p]"
    using v by (elim length_16_cases) (simp add: v1_def lane_defs numeral_eq_Suc)
  have len: "length v1 = 16" "length v2 = 16" "length v3 = 16" "length v4 = 16" "length v5 = 16"
    using v by (simp_all add: v1 v2_def v3_def v4_def v5_def)
  have w1: "v1 ! i = sum ((!) v1) {Suc i - 1..i}" if "i < 16" for i by simp
  have w2: "v2 ! i = sum ((!) v1) {Suc i - 2..i}" if "i < 16" for i
    using scan_round [OF len(1) _ w1 that] by (simp add: v2_def)
  have w3: "v3 ! i = sum ((!) v1) {Suc i - 4..i}" if "i < 16" for i
    using scan_round [OF len(2) _ w2 that] by (simp add: v3_def)
  have w4: "v4 ! i = sum ((!) v1) {Suc i - 8..i}" if "i < 16" for i
    using scan_round [OF len(3) _ w3 that] by (simp add: v4_def)
  have w5: "v5 ! i = sum ((!) v1) {..i}" if "i < 16" for i
    using scan_round [OF len(4) _ w4 that] that by (simp add: v5_def atLeast0AtMost)
  have "v5 ! i = dec_loop p v ! i" if i: "i < 16" for i
  proof -
    have "sum ((!) v1) {..i} = v1 ! 0 + sum ((!) v1) ({..i} - {0})"
      by (rule sum.remove) auto
    also have "sum ((!) v1) ({..i} - {0}) = sum ((!) v) ({..i} - {0})"
      by (rule sum.cong) (auto simp: v1)
    also have "v1 ! 0 + \<dots> = p + sum ((!) v) {..i}"
      using sum.remove [of "{..i}" 0 "(!) v"] v by (simp add: v1 ac_simps)
    finally show ?thesis using i v by (simp add: w5 dec_loop_nth)
  qed
  then have "v5 = dec_loop p v"
    using len(5) v by (intro nth_equalityI) auto
  then show ?thesis
    by (simp add: scan_block_def Let_def v1_def v2_def v3_def v4_def v5_def)
qed

lemma neon_shl_slli: "length v = 16 \<Longrightarrow> k \<le> 16 \<Longrightarrow> neon_shl k v = mm_slli v k"
  by (simp add: neon_shl_def vextq_def mm_slli_def)

lemma last_16: "length v = 16 \<Longrightarrow> last v = v ! 15"
  by (subst last_conv_nth) auto

lemma take_16: "\<not> length xs < 16 \<Longrightarrow> length (take 16 xs) = 16 \<and> take 16 xs \<noteq> []"
  by (cases xs) auto

lemma enc_loop_block:
  assumes "\<not> length xs < 16"
  shows "enc_loop p xs = enc_loop p (take 16 xs) @ enc_loop (take 16 xs ! 15) (drop 16 xs)"
  using take_16 [OF assms] enc_loop_append [of "take 16 xs" p "drop 16 xs"]
  by (simp add: last_16)

lemma sse2_enc_blocks_eq: "sse2_enc_blocks p xs = enc_loop p xs"
proof (induction "length xs" arbitrary: p xs rule: less_induct)
  case less
  then show ?case
    by (cases "length xs < 16")
      (simp_all add: sse2_enc_blocks.simps [of p xs] enc_loop_block [of xs p] sse2_enc_block Let_def
        del: One_nat_def)
qed

lemma neon_enc_blocks_eq: "neon_enc_blocks p xs = enc_loop p xs"
proof (induction "length xs" arbitrary: p xs rule: less_induct)
  case less
  then show ?case
    by (cases "length xs < 16")
      (simp_all add: neon_enc_blocks.simps [of p xs] enc_loop_block [of xs p] neon_enc_block Let_def
        del: One_nat_def)
qed

lemma dec_loop_block:
  assumes "\<not> length xs < 16"
  shows "dec_loop p xs = dec_loop p (take 16 xs) @ dec_loop (dec_loop p (take 16 xs) ! 15) (drop 16 xs)"
  using take_16 [OF assms] dec_loop_append [of "take 16 xs" p "drop 16 xs"]
  by (simp add: last_16)

lemma sse2_dec_blocks_step:
  "sse2_dec_blocks p xs =
     (if length xs < 16 then dec_loop p xs
      else let v = dec_loop p (take 16 xs) in v @ sse2_dec_blocks (v ! 15) (drop 16 xs))"
  using sse2_dec_block [of "take 16 xs" p]
  by (simp add: sse2_dec_blocks.simps [of p xs] scan_block_def Let_def)

lemma neon_dec_block:
  assumes "length v = 16"
  shows "scan_block neon_shl p v = dec_loop p v"
proof -
  have "scan_block neon_shl p v = scan_block (\<lambda>k v. mm_slli v k) p v"
    using assms
    by (simp add: scan_block_def Let_def neon_shl_slli mm_add_def mm_and_def mm_set1_def LANE0_def
        mm_slli_def)
  then show ?thesis using assms by (simp add: sse2_dec_block)
qed

lemma neon_dec_blocks_step:
  "neon_dec_blocks p xs =
     (if length xs < 16 then dec_loop p xs
      else let v = dec_loop p (take 16 xs) in v @ neon_dec_blocks (v ! 15) (drop 16 xs))"
  using neon_dec_block [of "take 16 xs" p]
  by (simp add: neon_dec_blocks.simps [of p xs] scan_block_def Let_def)

lemma sse2_dec_blocks_eq: "sse2_dec_blocks p xs = dec_loop p xs"
proof (induction "length xs" arbitrary: p xs rule: less_induct)
  case less
  then show ?case
    by (cases "length xs < 16")
      (simp_all add: sse2_dec_blocks_step [of p xs] dec_loop_block [of xs p] Let_def)
qed

lemma neon_dec_blocks_eq: "neon_dec_blocks p xs = dec_loop p xs"
proof (induction "length xs" arbitrary: p xs rule: less_induct)
  case less
  then show ?case
    by (cases "length xs < 16")
      (simp_all add: neon_dec_blocks_step [of p xs] dec_loop_block [of xs p] Let_def)
qed

subsection \<open>Every backend is the scalar reference\<close>

lemma simd_delta_encode_scalar: "simd_delta_encode a xs k = scalar_delta_encode xs k"
  by (cases a)
    (auto simp: sse2_delta_encode_def neon_delta_encode_def scalar_delta_encode_def
      sse2_enc_blocks_eq neon_enc_blocks_eq split: list.split)

lemma simd_delta_decode_scalar: "simd_delta_decode a xs k = scalar_delta_decode xs k"
  by (cases a)
    (auto simp: sse2_delta_decode_def neon_delta_decode_def scalar_delta_decode_def
      sse2_dec_blocks_eq neon_dec_blocks_eq Let_def split: list.split)

interpretation scalar_delta: byte_transform "\<lambda>k xs. scalar_delta_encode xs k"
  "\<lambda>k xs. scalar_delta_decode xs k" "\<lambda>_. True"
  by unfold_locales (auto simp: scalar_delta_encode_def scalar_delta_decode_def split: list.split)

subsection \<open>Property\<close>

text \<open>
  C25.  The SSE2, NEON and scalar delta coders compute the same function in both directions, on
  inputs of every length and alignment to the vector width, and decoding inverts encoding.
\<close>

theorem simd_delta_backends_agree:
  "simd_delta_encode a xs k = scalar_delta_encode xs k \<and>
   simd_delta_decode a xs k = scalar_delta_decode xs k \<and>
   simd_delta_decode a' (simd_delta_encode a xs k) k = xs"
  using scalar_delta.dec_enc [of xs k]
  by (simp add: simd_delta_encode_scalar simd_delta_decode_scalar del: simd_delta_encode.simps
      simd_delta_decode.simps)

end
