(* ===== verification/Ssea.thy ===== *)
theory Ssea
  imports Simd
begin

text \<open>
  \<^verbatim>\<open>crates/core/src/crypto/ssea.rs\<close>: the obfuscation primitives.  The linear congruential
  generator in its restructured form, Lemire's two-multiply remainder, the key-driven swap chain
  and its inverse, delta coding (\<^verbatim>\<open>simd.rs\<close>) and the evolving exclusive-or mask.  The three
  payload transforms are shown to satisfy the \<open>byte_transform\<close> contract.
\<close>

subsection \<open>The linear congruential generator\<close>

definition LCG_A :: u32 where [np_consts]: "LCG_A = 1103515245"
definition LCG_C :: u32 where [np_consts]: "LCG_C = 12345"
definition LCG_A2 :: u32 where "LCG_A2 = LCG_A * LCG_A"
definition LCG_C2 :: u32 where "LCG_C2 = LCG_C * (LCG_A + 1)"
definition LCG_A3 :: u32 where "LCG_A3 = LCG_A2 * LCG_A"
definition LCG_C3 :: u32 where "LCG_C3 = LCG_C * LCG_A2 + LCG_C * LCG_A + LCG_C"

text \<open>\<open>lcg_next seed\<close> is the pair of the returned value and the advanced seed.\<close>

definition lcg_next :: "u32 \<Rightarrow> u32 \<times> u32" where
  "lcg_next seed =
     (let next1 = seed * LCG_A + LCG_C;
          next2 = seed * LCG_A2 + LCG_C2;
          next3 = seed * LCG_A3 + LCG_C3
      in (push_bit 20 (drop_bit 16 next1 AND 2047) OR
          push_bit 10 (drop_bit 16 next2 AND 1023) OR
          (drop_bit 16 next3 AND 1023), next3))"

definition lcg_range :: "u32 \<Rightarrow> u32 \<Rightarrow> u32 \<Rightarrow> u32 \<times> u32" where
  "lcg_range seed lo hi =
     (let (r, seed') = lcg_next seed in (r mod (hi - lo + 1) + lo, seed'))"

text \<open>The three chained steps of the original formulation (the unit tests' reference).\<close>

definition lcg_next_reference :: "u32 \<Rightarrow> u32 \<times> u32" where
  "lcg_next_reference seed =
     (let n1 = seed * 1103515245 + 12345;
          r1 = (n1 div 65536) mod 2048;
          n2 = n1 * 1103515245 + 12345;
          r2 = push_bit 10 r1 XOR ((n2 div 65536) mod 1024);
          n3 = n2 * 1103515245 + 12345;
          r3 = push_bit 10 r2 XOR ((n3 div 65536) mod 1024)
      in (r3, n3))"

subsection \<open>Remainder by two multiplications\<close>

definition fastmod_magic :: "u32 \<Rightarrow> u64" where
  "fastmod_magic d = (- 1) div ucast d + 1"

definition fast_mod :: "u32 \<Rightarrow> u64 \<Rightarrow> u32 \<Rightarrow> u32" where
  "fast_mod x magic d =
     (let lowbits = magic * ucast x
      in ucast (drop_bit 64 ((ucast lowbits :: u128) * ucast d)))"

subsection \<open>The key-driven swap chain\<close>

definition shuffle_index :: "nat \<Rightarrow> u32 \<Rightarrow> nat \<Rightarrow> nat" where
  "shuffle_index sz key i =
     (let size32 = of_nat sz; magic = fastmod_magic size32
      in unat (fast_mod (of_nat i XOR key) magic size32))"

definition shuffle :: "bytes \<Rightarrow> u32 \<Rightarrow> bytes" where
  "shuffle data key =
     (let sz = length data
      in if sz < 2 then data
         else fold (\<lambda>i d. swap_at i (shuffle_index sz key i) d) [0..<sz] data)"

definition unshuffle :: "bytes \<Rightarrow> u32 \<Rightarrow> bytes" where
  "unshuffle data key =
     (let sz = length data
      in if sz < 2 then data
         else fold (\<lambda>i d. swap_at i (shuffle_index sz key i) d) (rev [0..<sz]) data)"

subsection \<open>Delta coding\<close>

text \<open>
  The x86-64 backend is the deployed one; \<open>simd_delta_encode_scalar\<close> shows that the choice of
  the target does not matter.
\<close>

definition delta_encode :: "bytes \<Rightarrow> u32 \<Rightarrow> bytes" where
  "delta_encode data kf = simd_delta_encode X86_64 data (ucast kf)"

definition delta_decode :: "bytes \<Rightarrow> u32 \<Rightarrow> bytes" where
  "delta_decode data kf = simd_delta_decode X86_64 data (ucast kf)"

subsection \<open>The evolving mask\<close>

fun masked_xor_loop :: "u32 \<Rightarrow> bytes \<Rightarrow> bytes" where
  "masked_xor_loop kf (a # b # c # d # rest) =
     to_le 4 (from_le [a, b, c, d] XOR kf) @ masked_xor_loop (fst (lcg_next kf)) rest"
| "masked_xor_loop kf [] = []"
| "masked_xor_loop kf [a] = [a XOR ucast kf]"
| "masked_xor_loop kf [a, b] = to_le 2 ((from_le [a, b] :: u16) XOR ucast kf)"
| "masked_xor_loop kf [a, b, c] =
     to_le 2 ((from_le [a, b] :: u16) XOR ucast kf) @ [c XOR ucast (fst (lcg_next kf))]"

definition masked_xor_random_next :: "bytes \<Rightarrow> u32 \<Rightarrow> bytes" where
  "masked_xor_random_next data kf = masked_xor_loop (fst (lcg_next kf)) data"

subsection \<open>The restructured generator is the chained one\<close>

lemma lcg_steps:
  fixes s :: u32
  shows "(s * LCG_A + LCG_C) * LCG_A + LCG_C = s * LCG_A2 + LCG_C2"
    and "(s * LCG_A2 + LCG_C2) * LCG_A + LCG_C = s * LCG_A3 + LCG_C3"
  by (simp_all add: LCG_A2_def LCG_C2_def LCG_A3_def LCG_C3_def algebra_simps)

lemma and_mask_bits:
  "(x :: u32) AND 2047 = take_bit 11 x" "(x :: u32) AND 1023 = take_bit 10 x"
  by (simp_all add: take_bit_eq_mask mask_numeral)

lemma div_mod_bits:
  "(x :: u32) div 65536 = drop_bit 16 x"
  "(x :: u32) mod 2048 = take_bit 11 x" "(x :: u32) mod 1024 = take_bit 10 x"
  by (simp_all add: drop_bit_eq_div take_bit_eq_mod)

lemma mix_bits:
  fixes a b c :: u32
  shows "push_bit 20 (take_bit 11 a) OR push_bit 10 (take_bit 10 b) OR take_bit 10 c =
         push_bit 10 (push_bit 10 (take_bit 11 a) XOR take_bit 10 b) XOR take_bit 10 c"
  by (rule bit_word_eqI) (auto simp: bit_simps)

lemma lcg_next_bits:
  "fst (lcg_next s) =
     push_bit 20 (take_bit 11 (drop_bit 16 (s * LCG_A + LCG_C))) OR
     push_bit 10 (take_bit 10 (drop_bit 16 (s * LCG_A2 + LCG_C2))) OR
     take_bit 10 (drop_bit 16 (s * LCG_A3 + LCG_C3))"
  by (simp add: lcg_next_def Let_def and_mask_bits)

lemma lcg_next_eq_reference: "lcg_next s = lcg_next_reference s"
proof -
  have A: "(1103515245 :: u32) = LCG_A" and C: "(12345 :: u32) = LCG_C"
    by (simp_all add: LCG_A_def LCG_C_def)
  define n1 where "n1 = s * LCG_A + LCG_C"
  have n2: "n1 * LCG_A + LCG_C = s * LCG_A2 + LCG_C2"
    and n3: "(s * LCG_A2 + LCG_C2) * LCG_A + LCG_C = s * LCG_A3 + LCG_C3"
    by (simp_all add: lcg_steps n1_def)
  show ?thesis
    unfolding lcg_next_reference_def lcg_next_def Let_def A C
    unfolding n1_def [symmetric] n2 n3 and_mask_bits div_mod_bits
    by (simp only: mix_bits)
qed

lemma lcg_next_31_bits: "unat (fst (lcg_next s)) < 2 ^ 31"
proof -
  have "take_bit 31 (fst (lcg_next s)) = fst (lcg_next s)"
    by (rule bit_word_eqI) (auto simp: lcg_next_bits bit_simps)
  then show ?thesis
    by (metis take_bit_nat_eq_self_iff unsigned_take_bit_eq)
qed

lemma lcg_range_bounds:
  assumes "lo \<le> hi" and "unat hi - unat lo < 2 ^ 32 - 1"
  shows "lo \<le> fst (lcg_range s lo hi) \<and> fst (lcg_range s lo hi) \<le> hi"
proof -
  define m where "m = hi - lo + 1"
  define r where "r = fst (lcg_next s)"
  have d: "unat (hi - lo) = unat hi - unat lo"
    using assms(1) by (simp add: unat_sub)
  with assms(2) have um: "unat m = unat hi - unat lo + 1"
    unfolding m_def by (subst unat_add_small) auto
  then have "unat (r mod m) < unat m"
    by (simp add: unat_mod)
  then have le: "unat (r mod m) \<le> unat hi - unat lo" using um by simp
  moreover have "unat lo \<le> unat hi" using assms(1) by (simp add: word_le_nat_alt)
  ultimately have "unat (r mod m + lo) = unat (r mod m) + unat lo"
    using unat_lt_u32 [of hi] by (intro unat_add_small) simp
  with le \<open>unat lo \<le> unat hi\<close> show ?thesis
    by (simp add: lcg_range_def Let_def split_beta m_def [symmetric] r_def [symmetric] word_le_nat_alt)
qed

subsection \<open>Lemire's remainder is the remainder\<close>

lemma unat_fastmod_magic:
  assumes "2 \<le> unat d"
  shows "unat (fastmod_magic d) = (2 ^ 64 - 1) div unat d + 1"
proof -
  have m: "unat (- 1 :: u64) = 2 ^ 64 - 1"
    by (simp add: unsigned_minus_1_eq_mask mask_eq_exp_minus_1)
  have q: "unat ((- 1 :: u64) div ucast d) = (2 ^ 64 - 1) div unat d"
    by (simp only: unat_div m) (simp add: unat_ucast_up)
  have "(2 ^ 64 - 1) div unat d \<le> (2 ^ 64 - 1) div (2::nat)"
    using assms by (rule div_le_mono2 [rotated]) simp
  then have "(2 ^ 64 - 1) div unat d + 1 < 2 ^ LENGTH(64)" by simp
  then show ?thesis
    unfolding fastmod_magic_def by (subst unat_add_small) (simp_all add: q)
qed

lemma ceil_quotient:
  fixes d N :: nat
  assumes "0 < d" and "0 < N"
  obtains e where "((N - 1) div d + 1) * d = N + e" and "e < d"
proof
  define q where "q = (N - 1) div d"
  define r where "r = (N - 1) mod d"
  have "q * d + r = N - 1" unfolding q_def r_def by simp
  moreover have "r < d" using assms unfolding r_def by simp
  moreover have "(q + 1) * d = q * d + d" by simp
  ultimately have "(q + 1) * d = N + (d - 1 - r)" using assms(2) by linarith
  then show "((N - 1) div d + 1) * d = N + (d - 1 - r)" by (simp add: q_def)
  show "d - 1 - r < d" using assms by simp
qed

lemma lemire_nat:
  fixes x d N M e :: nat
  assumes d: "0 < d" and M: "M * d = N + e" and ex: "e * x < N"
  shows "((M * x) mod N) * d div N = x mod d"
proof -
  define q where "q = x div d"
  define r where "r = x mod d"
  have x: "x = q * d + r" and r: "r < d" using d by (simp_all add: q_def r_def)
  have "M * x * d = (M * d) * x" by (simp add: ac_simps)
  also have "\<dots> = N * x + e * x" using M by (simp add: add_mult_distrib)
  also have "N * x = q * N * d + r * N" by (subst x) (simp add: algebra_simps)
  finally have Mxd: "M * x * d = q * N * d + (r * N + e * x)" by simp
  have "r * N + e * x < r * N + N" using ex by simp
  also have "r * N + N \<le> d * N"
    using r by (metis Suc_leI add.commute mult_Suc mult_le_mono1)
  finally have bound: "r * N + e * x < d * N" .
  have "q * N * d \<le> M * x * d" using Mxd by simp
  then have le: "q * N \<le> M * x" using d by simp
  have sub: "(M * x - q * N) * d = r * N + e * x"
    using Mxd by (simp add: diff_mult_distrib)
  with bound have "(M * x - q * N) * d < N * d" by (simp add: mult.commute)
  then have lt: "M * x - q * N < N" by simp
  have "(M * x) mod N = (M * x - q * N + q * N) mod N" using le by simp
  also have "\<dots> = M * x - q * N" using lt by simp
  finally have "((M * x) mod N) * d = r * N + e * x" using sub by simp
  moreover have "(r * N + e * x) div N = r" using ex by simp
  ultimately show ?thesis by (simp add: r_def)
qed

lemma fast_mod_correct:
  assumes d2: "2 \<le> unat d"
  shows "fast_mod x (fastmod_magic d) d = x mod d"
proof -
  define M where "M = unat (fastmod_magic d)"
  have M: "M = (2 ^ 64 - 1) div unat d + 1"
    using unat_fastmod_magic [OF d2] by (simp add: M_def)
  obtain e where e: "M * unat d = 2 ^ 64 + e" "e < unat d"
    using ceil_quotient [of "unat d" "2 ^ 64"] d2 unfolding M by auto
  have "e * unat x \<le> unat d * unat x" using e(2) by simp
  also have "\<dots> < 2 ^ 32 * 2 ^ 32"
    using unat_lt_u32 [of d] unat_lt_u32 [of x] by (intro mult_strict_mono) auto
  finally have ex: "e * unat x < 2 ^ 64" by simp
  define lb where "lb = fastmod_magic d * ucast x"
  have lb: "unat lb = (M * unat x) mod 2 ^ 64"
    by (simp add: lb_def unat_word_ariths M_def unat_ucast_up)
  have "unat lb * unat d < 2 ^ 64 * 2 ^ 64"
    using unat_lt_u64 [of lb] unat_lt_u32 [of d] by (intro mult_strict_mono) auto
  then have prod: "unat ((ucast lb :: u128) * ucast d) = unat lb * unat d"
    by (subst unat_mult_small) (simp_all add: unat_ucast_up)
  have "unat (drop_bit 64 ((ucast lb :: u128) * ucast d)) = unat x mod unat d"
    using lemire_nat [OF _ e(1) ex] d2
    by (subst unat_drop_bit_eq) (simp add: drop_bit_eq_div prod lb)
  moreover have "unat x mod unat d < 2 ^ 32"
    using unat_lt_u32 [of x] by (meson le_less_trans mod_less_eq_dividend)
  ultimately have "unat (fast_mod x (fastmod_magic d) d) = unat x mod unat d"
    by (simp add: fast_mod_def Let_def lb_def [symmetric] unat_ucast_mod)
  then show ?thesis by (simp add: word_unat_eq_iff unat_mod)
qed

subsection \<open>The swap chain stays in range and is undone by running it backwards\<close>

text \<open>The index the source computes is the plain remainder of \<open>i XOR key\<close>.\<close>

lemma shuffle_index_eq:
  assumes "2 \<le> n" and "n < 2 ^ 32"
  shows "shuffle_index n key i = unat (of_nat i XOR key) mod n"
proof -
  have "unat (of_nat n :: u32) = n" using assms by (simp add: unat_of_nat_small)
  with assms show ?thesis
    by (simp add: shuffle_index_def Let_def fast_mod_correct unat_mod)
qed

lemma shuffle_index_less: "2 \<le> n \<Longrightarrow> n < 2 ^ 32 \<Longrightarrow> shuffle_index n key i < n"
  by (simp add: shuffle_index_eq)

lemma length_fold_swap [simp]:
  "length (fold (\<lambda>i d. swap_at i (f i) d) is xs) = length xs"
  by (induction "is" arbitrary: xs) simp_all

lemma fold_swap_rev:
  assumes "\<And>i. i \<in> set is \<Longrightarrow> i < length xs \<and> f i < length xs"
  shows "fold (\<lambda>i d. swap_at i (f i) d) (rev is) (fold (\<lambda>i d. swap_at i (f i) d) is xs) = xs"
  using assms by (induction "is" arbitrary: xs) simp_all

lemma mset_fold_swap:
  assumes "\<And>i. i \<in> set is \<Longrightarrow> i < length xs \<and> f i < length xs"
  shows "mset (fold (\<lambda>i d. swap_at i (f i) d) is xs) = mset xs"
  using assms by (induction "is" arbitrary: xs) simp_all

lemma length_shuffle [simp, len_simps]: "length (shuffle xs k) = length xs"
  by (simp add: shuffle_def Let_def)

lemma length_unshuffle [simp, len_simps]: "length (unshuffle xs k) = length xs"
  by (simp add: unshuffle_def Let_def)

abbreviation shuffle_ok :: "nat \<Rightarrow> bool" where
  "shuffle_ok n \<equiv> n < 2 ^ 32"

lemma unshuffle_shuffle: "shuffle_ok (length xs) \<Longrightarrow> unshuffle (shuffle xs k) k = xs"
  using fold_swap_rev [of "[0..<length xs]" xs "shuffle_index (length xs) k"]
  by (simp add: shuffle_def unshuffle_def Let_def shuffle_index_less)

lemma shuffle_unshuffle: "shuffle_ok (length xs) \<Longrightarrow> shuffle (unshuffle xs k) k = xs"
  using fold_swap_rev [of "rev [0..<length xs]" xs "shuffle_index (length xs) k"]
  by (simp add: shuffle_def unshuffle_def Let_def shuffle_index_less)

lemma mset_shuffle: "shuffle_ok (length xs) \<Longrightarrow> mset (shuffle xs k) = mset xs"
  using mset_fold_swap [of "[0..<length xs]" xs "shuffle_index (length xs) k"]
  by (simp add: shuffle_def Let_def shuffle_index_less)

interpretation shuf: byte_transform "\<lambda>k xs. shuffle xs k" "\<lambda>k xs. unshuffle xs k" shuffle_ok
  by unfold_locales (simp_all add: unshuffle_shuffle shuffle_unshuffle)

subsection \<open>Delta coding and the mask\<close>

lemma length_delta_encode [simp, len_simps]: "length (delta_encode xs k) = length xs"
  by (simp add: delta_encode_def simd_delta_encode_scalar scalar_delta.length_enc
      del: simd_delta_encode.simps)

lemma length_delta_decode [simp, len_simps]: "length (delta_decode xs k) = length xs"
  by (simp add: delta_decode_def simd_delta_decode_scalar scalar_delta.length_dec
      del: simd_delta_decode.simps)

interpretation delta: byte_transform "\<lambda>k xs. delta_encode xs k" "\<lambda>k xs. delta_decode xs k"
  shuffle_ok
  by unfold_locales
    (simp_all add: delta_encode_def delta_decode_def simd_delta_encode_scalar
      simd_delta_decode_scalar scalar_delta.dec_enc scalar_delta.enc_dec scalar_delta.length_enc
      scalar_delta.length_dec del: simd_delta_encode.simps simd_delta_decode.simps)

lemma to_le_4_cases: "to_le 4 (w :: 'a::len word) =
    [ucast w, ucast (drop_bit 8 w), ucast (drop_bit 16 w), ucast (drop_bit 24 w)]"
  by (simp add: to_le_def numeral_eq_Suc)

lemma to_le_2_cases: "to_le 2 (w :: 'a::len word) = [ucast w, ucast (drop_bit 8 w)]"
  by (simp add: to_le_def numeral_eq_Suc)

lemma length_masked_xor_loop [simp, len_simps]: "length (masked_xor_loop k xs) = length xs"
  by (induction k xs rule: masked_xor_loop.induct) simp_all

lemma masked_word: "masked_xor_loop k (to_le 4 (w :: u32) @ xs) =
    to_le 4 (w XOR k) @ masked_xor_loop (fst (lcg_next k)) xs"
  by (simp add: to_le_4_cases from_le_to_le [of 4 w, unfolded to_le_4_cases, simplified])

lemma masked_half: "masked_xor_loop k (to_le 2 (w :: u16)) = to_le 2 (w XOR ucast k)"
  by (simp add: to_le_2_cases from_le_to_le [of 2 w, unfolded to_le_2_cases, simplified])

lemma masked_half_byte: "masked_xor_loop k (to_le 2 (w :: u16) @ [c]) =
    to_le 2 (w XOR ucast k) @ [c XOR ucast (fst (lcg_next k))]"
  by (simp add: to_le_2_cases from_le_to_le [of 2 w, unfolded to_le_2_cases, simplified])

lemma masked_xor_loop_involution: "masked_xor_loop k (masked_xor_loop k xs) = xs"
proof (induction k xs rule: masked_xor_loop.induct)
  case (1 k a b c d rest)
  then show ?case
    using to_le_from_le [of 4 "[a, b, c, d]", where ?'a = 32] by (simp add: masked_word)
next
  case (4 k a b)
  then show ?case
    using to_le_from_le [of 2 "[a, b]", where ?'a = 16] by (simp add: masked_half)
next
  case (5 k a b c)
  then show ?case
    using to_le_from_le [of 2 "[a, b]", where ?'a = 16] by (simp add: masked_half_byte)
qed simp_all

lemma length_masked_xor_random_next [simp, len_simps]:
  "length (masked_xor_random_next xs k) = length xs"
  by (simp add: masked_xor_random_next_def)

interpretation mask_xor: byte_transform "\<lambda>k xs. masked_xor_random_next xs k"
  "\<lambda>k xs. masked_xor_random_next xs k" shuffle_ok
  by unfold_locales (simp_all add: masked_xor_random_next_def masked_xor_loop_involution)

subsection \<open>Properties\<close>

text \<open>
  The generator with precomputed multi-step constants equals the three chained steps of the
  original formulation, in its output and in the seed it leaves, and the output has 31 bits.
\<close>

theorem lcg_next_is_chained:
  "lcg_next s = lcg_next_reference s \<and> unat (fst (lcg_next s)) < 2 ^ 31"
  using lcg_next_eq_reference [of s] lcg_next_31_bits [of s] by simp

text \<open>
  C27.  The division-free remainder is the remainder, for every 32-bit dividend and every divisor
  from 2 on.
\<close>

theorem fast_mod_exact:
  assumes "2 \<le> unat d"
  shows "fast_mod x (fastmod_magic d) d = x mod d"
  by (rule fast_mod_correct [OF assms])

theorem fast_mod_exact_witness:
  "fast_mod 4294967295 (fastmod_magic 7) 7 = 4294967295 mod 7"
  using fast_mod_exact [of 7 4294967295] by simp

text \<open>
  C26.  The key-driven shuffle is a permutation of its input, and unshuffling with the same key is
  its inverse on both sides.
\<close>

theorem shuffle_is_invertible_permutation:
  assumes "length xs < 2 ^ 32"
  shows "unshuffle (shuffle xs k) k = xs \<and> shuffle (unshuffle xs k) k = xs \<and>
         mset (shuffle xs k) = mset xs"
  using assms shuf.dec_enc shuf.enc_dec mset_shuffle by simp

theorem shuffle_is_invertible_permutation_witness:
  "unshuffle (shuffle [1, 2, 3] 5) 5 = [1, 2, 3] \<and> mset (shuffle [1, 2, 3] 5) = {#1, 2, 3#}"
  using shuffle_is_invertible_permutation [of "[1, 2, 3]" 5] by simp

end
