(* ===== verification/Cipher.thy ===== *)
theory Cipher
  imports NP_Prelude
begin

text \<open>
  \<^verbatim>\<open>crates/core/src/crypto/cipher.rs\<close>: key derivation, per-packet nonces, and the CFB and CTR
  modes written by hand over a cached block cipher.  The primitives of the third-party crates
  (HKDF-SHA256, the AES block functions, the ChaCha20 keystream) are the fields of \<open>crypto_ops\<close>; a
  16-byte block is passed to them as the number its little-endian bytes denote, so that their
  results have the right length by typing.  Strings are \<open>string\<close>s that hold the UTF-8 text of the
  Rust string, read as bytes by \<open>as_bytes\<close>.  The packet sequence and the counter of CTR mode are machine
  words whose additions wrap, which is what the release build runs; a build with overflow checks stops
  at the additions that overflow.
\<close>

subsection \<open>Primitives of the cryptographic crates\<close>

record crypto_ops =
  hkdf_okm :: "bytes \<Rightarrow> bytes \<Rightarrow> bytes \<Rightarrow> nat \<Rightarrow> u8"
  aes128_block :: "bytes \<Rightarrow> u128 \<Rightarrow> u128"
  aes256_block :: "bytes \<Rightarrow> u128 \<Rightarrow> u128"
  chacha20_stream :: "bytes \<Rightarrow> bytes \<Rightarrow> nat \<Rightarrow> u8"

definition as_bytes :: "string \<Rightarrow> bytes" where
  "as_bytes s = map of_char s"

subsection \<open>Methods and roles\<close>

datatype cipher_role = RoleProtocol | RoleTransport

fun role_name :: "cipher_role \<Rightarrow> string" where
  "role_name RoleProtocol = ''protocol''"
| "role_name RoleTransport = ''transport''"

datatype cipher_method = Aes128Cfb | Aes256Cfb | Aes128Ctr | Aes256Ctr | ChaCha20

text \<open>
  \<open>str::trim\<close> removes the characters with the Unicode property White\_Space; a \<open>string\<close> here is the UTF-8
  text of the Rust string, so these are the byte sequences of the 25 such characters.  A trailing
  character is a sequence that ends the text: no encoding is a proper suffix of another character's.
\<close>

definition white_space :: "string list" where
  "white_space = map (map (char_of :: int \<Rightarrow> char))
     ([[9], [10], [11], [12], [13], [0x20], [0xC2, 0x85], [0xC2, 0xA0], [0xE1, 0x9A, 0x80]] @
      map (\<lambda>n. [0xE2, 0x80, n])
        [0x80, 0x81, 0x82, 0x83, 0x84, 0x85, 0x86, 0x87, 0x88, 0x89, 0x8A, 0xA8, 0xA9, 0xAF] @
      [[0xE2, 0x81, 0x9F], [0xE3, 0x80, 0x80]])"

fun strip_one :: "string list \<Rightarrow> string \<Rightarrow> string option" where
  "strip_one [] s = None"
| "strip_one (w # ws) s =
     (if w \<noteq> [] \<and> take (length w) s = w then Some (drop (length w) s) else strip_one ws s)"

lemma strip_one_shorter: "strip_one ws s = Some s' \<Longrightarrow> length s' < length s"
proof (induction ws)
  case (Cons w ws)
  then show ?case
  proof (cases "w \<noteq> [] \<and> take (length w) s = w")
    case True
    then have "length w \<le> length s" by (metis length_take min.cobounded1)
    moreover have "0 < length w" using True by simp
    ultimately have "length s - length w < length s" by linarith
    then show ?thesis using Cons.prems True by auto
  next
    case False
    with Cons show ?thesis by simp
  qed
qed simp

function trim_start :: "string list \<Rightarrow> string \<Rightarrow> string" where
  "trim_start ws s = (case strip_one ws s of None \<Rightarrow> s | Some s' \<Rightarrow> trim_start ws s')"
  by pat_completeness auto
termination by (relation "measure (\<lambda>(ws, s). length s)") (auto dest: strip_one_shorter)

declare trim_start.simps [simp del]

definition trim_str :: "string \<Rightarrow> string" where
  "trim_str s = rev (trim_start (map rev white_space) (rev (trim_start white_space s)))"

definition ascii_lower_char :: "char \<Rightarrow> char" where
  "ascii_lower_char c =
     (let n = of_char c :: nat in if 65 \<le> n \<and> n \<le> 90 then char_of (n + 32) else c)"

definition to_ascii_lowercase :: "string \<Rightarrow> string" where
  "to_ascii_lowercase = map ascii_lower_char"

definition method_from_name :: "string \<Rightarrow> cipher_method option" where
  "method_from_name name =
     (let n = to_ascii_lowercase (trim_str name) in
      if n = ''aes-128-cfb'' then Some Aes128Cfb
      else if n = ''aes-256-cfb'' then Some Aes256Cfb
      else if n = ''aes-128-ctr'' then Some Aes128Ctr
      else if n = ''aes-256-ctr'' then Some Aes256Ctr
      else if n = ''chacha20'' \<or> n = ''chacha20-ietf'' then Some ChaCha20
      else None)"

fun method_name :: "cipher_method \<Rightarrow> string" where
  "method_name Aes128Cfb = ''aes-128-cfb''"
| "method_name Aes256Cfb = ''aes-256-cfb''"
| "method_name Aes128Ctr = ''aes-128-ctr''"
| "method_name Aes256Ctr = ''aes-256-ctr''"
| "method_name ChaCha20 = ''chacha20''"

fun key_len :: "cipher_method \<Rightarrow> nat" where
  "key_len Aes128Cfb = 16"
| "key_len Aes128Ctr = 16"
| "key_len Aes256Cfb = 32"
| "key_len Aes256Ctr = 32"
| "key_len ChaCha20 = 32"

fun iv_len :: "cipher_method \<Rightarrow> nat" where
  "iv_len ChaCha20 = 12"
| "iv_len _ = 16"

subsection \<open>Key derivation\<close>

definition KEY_MAX :: nat where [np_consts]: "KEY_MAX = 32"
definition NONCE_MAX :: nat where [np_consts]: "NONCE_MAX = 16"

definition base32_alphabet :: string where
  "base32_alphabet = ''0123456789abcdefghijklmnopqrstuv''"

text \<open>The digits in the order the loop produces them, least significant first.\<close>

lemma drop_bit_5_less: "v \<noteq> 0 \<Longrightarrow> unat (drop_bit 5 (v :: u128)) < unat v"
proof -
  assume "v \<noteq> 0"
  then have "0 < unat v" by (simp add: unat_gt_0)
  moreover have "unat (drop_bit 5 v) = unat v div 32"
    by (subst unat_drop_bit_eq) (simp add: drop_bit_eq_div)
  ultimately show ?thesis by simp
qed

function base32_digits :: "u128 \<Rightarrow> bytes" where
  "base32_digits v =
     of_char (base32_alphabet ! unat (v AND 31)) #
     (if drop_bit 5 v = 0 then [] else base32_digits (drop_bit 5 v))"
  by pat_completeness auto
termination
proof (relation "measure unat")
  fix v :: u128 assume "drop_bit 5 v \<noteq> 0"
  then have "v \<noteq> 0" by auto
  then show "(drop_bit 5 v, v) \<in> measure unat" by (simp add: drop_bit_5_less)
qed simp

declare base32_digits.simps [simp del]

definition encode_base32 :: "u128 \<Rightarrow> bytes" where
  "encode_base32 v = rev (base32_digits v)"

definition derive_ikm :: "string \<Rightarrow> u128 option \<Rightarrow> bytes" where
  "derive_ikm password ivv =
     as_bytes password @
     (case ivv of
        None \<Rightarrow> []
      | Some v \<Rightarrow> (if 0 < v then as_bytes ''+'' else []) @ encode_base32 v)"

definition derive_salt :: "cipher_role \<Rightarrow> cipher_method \<Rightarrow> bytes" where
  "derive_salt role method = as_bytes (''nextppp/'' @ role_name role @ ''/'' @ method_name method)"

definition derive_material ::
  "crypto_ops \<Rightarrow> cipher_role \<Rightarrow> cipher_method \<Rightarrow> string \<Rightarrow> u128 option \<Rightarrow> bytes \<times> bytes" where
  "derive_material cr role method password ivv =
     (let okm = map (hkdf_okm cr (derive_salt role method) (derive_ikm password ivv)
                       (as_bytes ''nextppp-session-key'')) [0..<KEY_MAX + NONCE_MAX]
      in (take KEY_MAX okm, drop KEY_MAX okm))"

subsection \<open>Block modes\<close>

definition encrypt_block :: "(u128 \<Rightarrow> u128) \<Rightarrow> bytes \<Rightarrow> bytes" where
  "encrypt_block E blk = to_le 16 (E (from_le blk))"

definition xor16_store :: "bytes \<Rightarrow> bytes \<Rightarrow> bytes" where
  "xor16_store chunk ks = to_le 16 ((from_le chunk :: u128) XOR from_le ks)"

definition xor_tail :: "(u128 \<Rightarrow> u128) \<Rightarrow> bytes \<Rightarrow> bytes \<Rightarrow> bytes" where
  "xor_tail E feedback rem =
     (if rem = [] then [] else xor_bytes rem (encrypt_block E feedback))"

function cfb_encrypt :: "(u128 \<Rightarrow> u128) \<Rightarrow> bytes \<Rightarrow> bytes \<Rightarrow> bytes" where
  "cfb_encrypt E fb data =
     (if length data < 16 then xor_tail E fb data
      else let ct = xor16_store (take 16 data) (encrypt_block E fb)
           in ct @ cfb_encrypt E ct (drop 16 data))"
  by pat_completeness auto
termination by (relation "measure (\<lambda>(E, fb, data). length data)") auto

declare cfb_encrypt.simps [simp del]

definition sub_slice :: "nat \<Rightarrow> nat \<Rightarrow> 'a list \<Rightarrow> 'a list" where
  "sub_slice a b xs = take (b - a) (drop a xs)"

text \<open>\<open>data[a..b].copy_from_slice(v)\<close>, for \<open>v\<close> of length \<open>b - a\<close>.\<close>

definition put_slice :: "nat \<Rightarrow> 'a list \<Rightarrow> 'a list \<Rightarrow> 'a list" where
  "put_slice a v xs = take a xs @ v @ drop (a + length v) xs"

definition CFB_BATCH :: nat where [np_consts]: "CFB_BATCH = 8"

function cfb_decrypt_loop ::
  "(u128 \<Rightarrow> u128) \<Rightarrow> nat \<Rightarrow> nat \<Rightarrow> bytes \<Rightarrow> bytes \<Rightarrow> bytes \<times> bytes" where
  "cfb_decrypt_loop E nb i prev data =
     (if i < nb then
        let n = min (nb - i) CFB_BATCH;
            last_ct = sub_slice ((i + n - 1) * 16) ((i + n) * 16) data;
            ks = map (encrypt_block E)
                   (prev # map (\<lambda>k. sub_slice ((i + k - 1) * 16) ((i + k) * 16) data) [1..<n]);
            data' = fold (\<lambda>k d. put_slice ((i + k) * 16)
                             (xor16_store (sub_slice ((i + k) * 16) ((i + k + 1) * 16) d) (ks ! k)) d)
                      [0..<n] data
        in cfb_decrypt_loop E nb (i + n) last_ct data'
      else (prev, data))"
  by pat_completeness auto
termination
  by (relation "measure (\<lambda>(E, nb, i, prev, data). nb - i)") (auto simp: CFB_BATCH_def)

declare cfb_decrypt_loop.simps [simp del]

definition cfb_decrypt :: "(u128 \<Rightarrow> u128) \<Rightarrow> bytes \<Rightarrow> bytes \<Rightarrow> bytes" where
  "cfb_decrypt E iv data =
     (let nb = length data div 16;
          (prev, d) = cfb_decrypt_loop E nb 0 iv data
      in take (nb * 16) d @ xor_tail E prev (drop (nb * 16) d))"

definition cfb_apply :: "(u128 \<Rightarrow> u128) \<Rightarrow> bytes \<Rightarrow> bytes \<Rightarrow> bool \<Rightarrow> bytes" where
  "cfb_apply E iv data encrypting =
     (if encrypting then cfb_encrypt E iv data else cfb_decrypt E iv data)"

definition CTR_BATCH :: nat where [np_consts]: "CTR_BATCH = 8"

function ctr_loop :: "(u128 \<Rightarrow> u128) \<Rightarrow> u128 \<Rightarrow> bytes \<Rightarrow> bytes" where
  "ctr_loop E counter data =
     (if data = [] then []
      else let t = min (length data) (CTR_BATCH * 16);
               n = (t + 15) div 16;
               ks = map (\<lambda>k. encrypt_block E (to_be 16 (counter + of_nat k))) [0..<n]
           in xor_bytes (take t data) (concat ks) @ ctr_loop E (counter + of_nat n) (drop t data))"
  by pat_completeness auto
termination by (relation "measure (\<lambda>(E, counter, data). length data)") (auto simp: CTR_BATCH_def)

declare ctr_loop.simps [simp del]

definition ctr_apply :: "(u128 \<Rightarrow> u128) \<Rightarrow> bytes \<Rightarrow> bytes \<Rightarrow> bytes" where
  "ctr_apply E iv data = ctr_loop E (from_be iv) data"

subsection \<open>The session cipher\<close>

datatype cipher_core = CoreAes128 bytes | CoreAes256 bytes | CoreChaCha bytes

record session_cipher =
  sc_method :: cipher_method
  sc_core :: cipher_core
  sc_base_iv :: bytes
  sc_seq :: u64
  sc_encrypting :: bool

definition cipher_derive ::
  "crypto_ops \<Rightarrow> cipher_method \<Rightarrow> cipher_role \<Rightarrow> string \<Rightarrow> u128 option \<Rightarrow> session_cipher" where
  "cipher_derive cr method role password ivv =
     (let (key, base_iv) = derive_material cr role method password ivv;
          core = (case method of
                    Aes128Cfb \<Rightarrow> CoreAes128 (take 16 key)
                  | Aes128Ctr \<Rightarrow> CoreAes128 (take 16 key)
                  | Aes256Cfb \<Rightarrow> CoreAes256 (take 32 key)
                  | Aes256Ctr \<Rightarrow> CoreAes256 (take 32 key)
                  | ChaCha20 \<Rightarrow> CoreChaCha key)
      in \<lparr>sc_method = method, sc_core = core, sc_base_iv = base_iv, sc_seq = 0,
          sc_encrypting = True\<rparr>)"

definition cipher_new ::
  "crypto_ops \<Rightarrow> cipher_method \<Rightarrow> cipher_role \<Rightarrow> string \<Rightarrow> session_cipher" where
  "cipher_new cr method role password = cipher_derive cr method role password None"

definition for_decryption :: "session_cipher \<Rightarrow> session_cipher" where
  "for_decryption c = c\<lparr>sc_encrypting := False\<rparr>"

definition xor_width :: "cipher_method \<Rightarrow> nat" where
  "xor_width m = (if m = ChaCha20 then 4 else 8)"

definition packet_nonce :: "cipher_method \<Rightarrow> bytes \<Rightarrow> u64 \<Rightarrow> bytes" where
  "packet_nonce method base_iv sq =
     (let w = xor_width method; start = iv_len method - w; sb = to_be 8 sq
      in fold (\<lambda>i nonce. nonce[start + i := nonce ! (start + i) XOR sb ! (8 - w + i)])
           [0..<w] base_iv)"

definition next_nonce :: "session_cipher \<Rightarrow> bytes \<times> session_cipher" where
  "next_nonce c =
     (packet_nonce (sc_method c) (sc_base_iv c) (sc_seq c), c\<lparr>sc_seq := sc_seq c + 1\<rparr>)"

text \<open>The \<open>match\<close> of \<open>SessionCipher::apply\<close>; \<open>None\<close> is its \<open>unreachable!\<close> arm.\<close>

fun cipher_kernel ::
  "crypto_ops \<Rightarrow> cipher_method \<Rightarrow> cipher_core \<Rightarrow> bool \<Rightarrow> bytes \<Rightarrow> bytes \<Rightarrow> bytes option" where
  "cipher_kernel cr Aes128Cfb (CoreAes128 k) e nonce data =
     Some (cfb_apply (aes128_block cr k) nonce data e)"
| "cipher_kernel cr Aes256Cfb (CoreAes256 k) e nonce data =
     Some (cfb_apply (aes256_block cr k) nonce data e)"
| "cipher_kernel cr Aes128Ctr (CoreAes128 k) e nonce data =
     Some (ctr_apply (aes128_block cr k) nonce data)"
| "cipher_kernel cr Aes256Ctr (CoreAes256 k) e nonce data =
     Some (ctr_apply (aes256_block cr k) nonce data)"
| "cipher_kernel cr ChaCha20 (CoreChaCha k) e nonce data =
     Some (xor_bytes data
             (map (chacha20_stream cr (take 32 k) (take 12 nonce)) [0..<length data]))"
| "cipher_kernel cr _ _ e nonce data = None"

definition cipher_apply ::
  "crypto_ops \<Rightarrow> session_cipher \<Rightarrow> bytes \<Rightarrow> bytes \<times> session_cipher" where
  "cipher_apply cr c data =
     (let (nonce, c') = next_nonce c in
      (case cipher_kernel cr (sc_method c) (sc_core c) (sc_encrypting c) nonce data of
         Some d \<Rightarrow> d
       | None \<Rightarrow> data, c'))"

subsection \<open>Reference definitions of the modes\<close>

function cfb_decrypt_ref :: "(u128 \<Rightarrow> u128) \<Rightarrow> bytes \<Rightarrow> bytes \<Rightarrow> bytes" where
  "cfb_decrypt_ref E fb data =
     (if length data < 16 then xor_tail E fb data
      else xor_bytes (take 16 data) (encrypt_block E fb) @
           cfb_decrypt_ref E (take 16 data) (drop 16 data))"
  by pat_completeness auto
termination by (relation "measure (\<lambda>(E, fb, data). length data)") auto

declare cfb_decrypt_ref.simps [simp del]

text \<open>The keystream byte at position \<open>i\<close> of a packet whose first counter block is \<open>counter\<close>.\<close>

definition ctr_keystream :: "(u128 \<Rightarrow> u128) \<Rightarrow> u128 \<Rightarrow> nat \<Rightarrow> u8" where
  "ctr_keystream E counter i =
     encrypt_block E (to_be 16 (counter + of_nat (i div 16))) ! (i mod 16)"

subsection \<open>Lengths and slices\<close>

lemma length_encrypt_block [simp, len_simps]: "length (encrypt_block E b) = 16"
  by (simp add: encrypt_block_def)

lemma length_xor16_store [simp, len_simps]: "length (xor16_store a b) = 16"
  by (simp add: xor16_store_def)

lemma xor16_store_bytes:
  "length a = 16 \<Longrightarrow> length b = 16 \<Longrightarrow> xor16_store a b = xor_bytes a b"
  by (simp add: xor16_store_def to_le_xor to_le_from_le)

lemma xor_bytes_involution [simp]:
  "length a = length b \<Longrightarrow> xor_bytes (xor_bytes a b) b = a"
  by simp

lemma xor_tail_eq: "xor_tail E fb r = xor_bytes r (encrypt_block E fb)"
  by (simp add: xor_tail_def xor_bytes_def)

lemma length_xor_tail [simp, len_simps]: "length r \<le> 16 \<Longrightarrow> length (xor_tail E fb r) = length r"
  by (simp add: xor_tail_eq)

lemma xor_tail_cancel [simp]:
  "length r \<le> 16 \<Longrightarrow> xor_tail E fb (xor_tail E fb r) = r"
  by (simp add: xor_tail_eq)

lemma length_cfb_encrypt [simp, len_simps]: "length (cfb_encrypt E fb data) = length data"
proof (induction E fb data rule: cfb_encrypt.induct)
  case (1 E fb data)
  show ?case
    by (cases "length data < 16")
      (simp_all add: cfb_encrypt.simps [of E fb data] Let_def 1)
qed

lemma length_cfb_decrypt_ref [simp, len_simps]: "length (cfb_decrypt_ref E fb data) = length data"
proof (induction E fb data rule: cfb_decrypt_ref.induct)
  case (1 E fb data)
  show ?case
    by (cases "length data < 16")
      (simp_all add: cfb_decrypt_ref.simps [of E fb data] 1)
qed

subsection \<open>Batched CFB decryption computes the serial mode\<close>

lemma put_slice_append:
  "length pre = a \<Longrightarrow> put_slice a v (pre @ rest) = pre @ v @ drop (length v) rest"
  by (simp add: put_slice_def)

lemma sub_slice_append:
  "length pre = a \<Longrightarrow> sub_slice a b (pre @ rest) = take (b - a) rest"
  by (simp add: sub_slice_def)

text \<open>Block \<open>k\<close> of a byte string, and the feedback block that precedes it.\<close>

definition blk :: "nat \<Rightarrow> bytes \<Rightarrow> bytes" where
  "blk k xs = take 16 (drop (k * 16) xs)"

definition fb_blk :: "bytes \<Rightarrow> bytes \<Rightarrow> nat \<Rightarrow> bytes" where
  "fb_blk prev xs k = (if k = 0 then prev else blk (k - 1) xs)"

lemma length_blk: "(k + 1) * 16 \<le> length xs \<Longrightarrow> length (blk k xs) = 16"
  by (simp add: blk_def)

lemma blk_drop: "blk k (drop (n * 16) xs) = blk (n + k) xs"
  by (simp add: blk_def algebra_simps)

lemma fb_blk_drop:
  "0 < n \<Longrightarrow> fb_blk (fb_blk prev xs n) (drop (n * 16) xs) k = fb_blk prev xs (n + k)"
  by (cases k) (simp_all add: fb_blk_def blk_drop)

lemma length_fb_blk:
  "length prev = 16 \<Longrightarrow> n * 16 \<le> length xs \<Longrightarrow> length (fb_blk prev xs n) = 16"
  by (cases n) (simp_all add: fb_blk_def length_blk)

text \<open>Plaintext block \<open>k\<close> of a CFB ciphertext.\<close>

definition cfb_pt :: "(u128 \<Rightarrow> u128) \<Rightarrow> bytes \<Rightarrow> bytes \<Rightarrow> nat \<Rightarrow> bytes" where
  "cfb_pt E prev xs k = xor_bytes (blk k xs) (encrypt_block E (fb_blk prev xs k))"

lemma length_cfb_pts:
  "m * 16 \<le> length xs \<Longrightarrow> length (concat (map (cfb_pt E prev xs) [0..<m])) = m * 16"
  by (induction m) (simp_all add: cfb_pt_def length_blk)

lemma cfb_pts_add:
  "0 < n \<Longrightarrow> concat (map (cfb_pt E prev xs) [0..<n + m]) =
     concat (map (cfb_pt E prev xs) [0..<n]) @
     concat (map (cfb_pt E (fb_blk prev xs n) (drop (n * 16) xs)) [0..<m])"
  by (induction m) (simp_all add: cfb_pt_def blk_drop fb_blk_drop)

lemma cfb_ref_blocks:
  "m * 16 \<le> length xs \<Longrightarrow>
   cfb_decrypt_ref E prev xs =
     concat (map (cfb_pt E prev xs) [0..<m]) @
     cfb_decrypt_ref E (fb_blk prev xs m) (drop (m * 16) xs)"
proof (induction m)
  case 0
  then show ?case by (simp add: fb_blk_def)
next
  case (Suc m)
  let ?r = "drop (m * 16) xs"
  have len: "\<not> length ?r < 16" using Suc.prems by simp
  have "cfb_decrypt_ref E (fb_blk prev xs m) ?r =
      xor_bytes (blk m xs) (encrypt_block E (fb_blk prev xs m)) @
      cfb_decrypt_ref E (blk m xs) (drop (Suc m * 16) xs)"
    using len by (subst cfb_decrypt_ref.simps) (simp add: blk_def add.commute)
  then show ?case
    using Suc by (simp add: fb_blk_def cfb_pt_def)
qed

lemma batch_writes:
  assumes "length pre = i * 16" and "m * 16 \<le> length rest"
  shows "fold (\<lambda>k d. put_slice ((i + k) * 16)
                (xor16_store (sub_slice ((i + k) * 16) ((i + k + 1) * 16) d) (ks k)) d)
           [0..<m] (pre @ rest) =
         pre @ concat (map (\<lambda>k. xor16_store (blk k rest) (ks k)) [0..<m]) @ drop (m * 16) rest"
  using assms(2)
proof (induction m)
  case 0
  then show ?case by simp
next
  case (Suc m)
  let ?c = "concat (map (\<lambda>k. xor16_store (blk k rest) (ks k)) [0..<m])"
  have lc: "length ?c = m * 16"
    by (induction m) auto
  have lp: "length (pre @ ?c) = (i + m) * 16"
    using lc assms(1) by (simp add: algebra_simps)
  have sl: "sub_slice ((i + m) * 16) ((i + m + 1) * 16) ((pre @ ?c) @ drop (m * 16) rest) = blk m rest"
    by (subst sub_slice_append [OF lp]) (simp add: blk_def)
  have pu: "put_slice ((i + m) * 16) (xor16_store (blk m rest) (ks m))
              ((pre @ ?c) @ drop (m * 16) rest) =
            (pre @ ?c) @ xor16_store (blk m rest) (ks m) @ drop (Suc m * 16) rest"
    by (subst put_slice_append [OF lp]) (simp add: add.commute)
  show ?case
    using Suc sl pu by simp
qed

text \<open>One batch of the loop decrypts its \<open>n\<close> blocks and hands on the batch's last ciphertext.\<close>

lemma cfb_loop_batch:
  assumes i: "i < nb" and pre: "length pre = i * 16" and n: "n = min (nb - i) CFB_BATCH"
    and rest: "n * 16 \<le> length rest"
  shows "cfb_decrypt_loop E nb i prev (pre @ rest) =
    cfb_decrypt_loop E nb (i + n) (fb_blk prev rest n)
      ((pre @ concat (map (cfb_pt E prev rest) [0..<n])) @ drop (n * 16) rest)"
proof -
  have n0: "0 < n" using i by (simp add: n CFB_BATCH_def)
  define ct where "ct = (\<lambda>k. sub_slice ((i + k - 1) * 16) ((i + k) * 16) (pre @ rest))"
  define ks where "ks = map (encrypt_block E) (prev # map ct [1..<n])"
  have sl: "ct k = blk (k - 1) rest" if "0 < k" for k
    using that pre unfolding ct_def by (cases k) (simp_all add: sub_slice_def blk_def add.commute)
  have ksk: "ks ! k = encrypt_block E (fb_blk prev rest k)" if "k < n" for k
    using that by (cases k) (simp_all add: ks_def fb_blk_def sl)
  have last: "sub_slice ((i + n - 1) * 16) ((i + n) * 16) (pre @ rest) = fb_blk prev rest n"
    using sl [OF n0] n0 by (simp add: fb_blk_def ct_def)
  have X: "xor16_store (blk k rest) (ks ! k) = cfb_pt E prev rest k" if "k < n" for k
  proof -
    have "(k + 1) * 16 \<le> length rest"
      using that rest by (simp add: algebra_simps)
    then show ?thesis
      using that by (simp add: ksk xor16_store_bytes length_blk cfb_pt_def del: One_nat_def)
  qed
  have cat: "concat (map (\<lambda>k. xor16_store (blk k rest) (ks ! k)) [0..<n]) =
             concat (map (cfb_pt E prev rest) [0..<n])"
    by (rule arg_cong [where f = concat]) (simp add: X)
  have "fold (\<lambda>k d. put_slice ((i + k) * 16)
                (xor16_store (sub_slice ((i + k) * 16) ((i + k + 1) * 16) d) (ks ! k)) d)
          [0..<n] (pre @ rest) =
        (pre @ concat (map (cfb_pt E prev rest) [0..<n])) @ drop (n * 16) rest"
    unfolding batch_writes [OF pre rest, of "\<lambda>k. ks ! k"] cat by simp
  then show ?thesis
    unfolding cfb_decrypt_loop.simps [of E nb i] Let_def n [symmetric] ct_def [symmetric]
      ks_def [symmetric] last
    using i by (simp only: if_True)
qed

lemma cfb_loop_blocks:
  assumes "length pre = i * 16" and "(nb - i) * 16 \<le> length rest" and "i \<le> nb"
    and "length prev = 16"
  shows "cfb_decrypt_loop E nb i prev (pre @ rest) =
    (fb_blk prev rest (nb - i),
     pre @ concat (map (cfb_pt E prev rest) [0..<nb - i]) @ drop ((nb - i) * 16) rest)"
  using assms
proof (induction "nb - i" arbitrary: i pre rest prev rule: less_induct)
  case less
  show ?case
  proof (cases "i < nb")
    case False
    with less.prems have "i = nb" by simp
    with less.prems show ?thesis
      by (simp add: cfb_decrypt_loop.simps [of E nb nb] fb_blk_def)
  next
    case True
    define n where "n = min (nb - i) CFB_BATCH"
    have n: "0 < n" "n \<le> nb - i" "i + n \<le> nb"
      using True by (auto simp: n_def CFB_BATCH_def)
    have nlen: "n * 16 \<le> length rest"
      using less.prems(2) n(2) by (meson le_trans mult_le_mono1)
    obtain m where m: "nb - i = n + m" "nb - (i + n) = m"
      using n(2) by (metis diff_diff_left le_add_diff_inverse)
    have "cfb_decrypt_loop E nb (i + n) (fb_blk prev rest n)
        ((pre @ concat (map (cfb_pt E prev rest) [0..<n])) @ drop (n * 16) rest) =
      (fb_blk (fb_blk prev rest n) (drop (n * 16) rest) (nb - (i + n)),
       (pre @ concat (map (cfb_pt E prev rest) [0..<n])) @
       concat (map (cfb_pt E (fb_blk prev rest n) (drop (n * 16) rest)) [0..<nb - (i + n)]) @
       drop ((nb - (i + n)) * 16) (drop (n * 16) rest))"
      using less.prems n nlen m
      by (intro less.hyps) (auto simp: length_cfb_pts length_fb_blk algebra_simps)
    then show ?thesis
      unfolding cfb_loop_batch [OF True less.prems(1) n_def nlen] m
      by (simp add: fb_blk_drop [OF n(1)] cfb_pts_add [OF n(1)] add_mult_distrib
          add.commute [of "n * 16"])
  qed
qed

lemma cfb_decrypt_eq_ref:
  assumes "length iv = 16"
  shows "cfb_decrypt E iv data = cfb_decrypt_ref E iv data"
proof -
  let ?nb = "length data div 16"
  have "cfb_decrypt_loop E ?nb 0 iv ([] @ data) =
     (fb_blk iv data (?nb - 0),
      [] @ concat (map (cfb_pt E iv data) [0..<?nb - 0]) @ drop ((?nb - 0) * 16) data)"
    using assms by (intro cfb_loop_blocks) auto
  moreover have len: "?nb * 16 \<le> length data" by simp
  moreover have tail: "length (drop (?nb * 16) data) < 16"
    by (simp add: minus_div_mult_eq_mod)
  moreover have "cfb_decrypt_ref E fb (drop (?nb * 16) data) = xor_tail E fb (drop (?nb * 16) data)"
    for fb
    using tail by (subst cfb_decrypt_ref.simps) simp
  ultimately show ?thesis
    using cfb_ref_blocks [OF len, of E iv] length_cfb_pts [OF len, of E iv]
    by (simp add: cfb_decrypt_def Let_def)
qed

lemma cfb_ref_encrypt:
  "length fb = 16 \<Longrightarrow> cfb_decrypt_ref E fb (cfb_encrypt E fb data) = data"
proof (induction E fb data rule: cfb_encrypt.induct)
  case (1 E fb data)
  show ?case
  proof (cases "length data < 16")
    case True
    then show ?thesis
      by (subst cfb_encrypt.simps, subst cfb_decrypt_ref.simps) simp
  next
    case False
    define ct where "ct = xor16_store (take 16 data) (encrypt_block E fb)"
    have "xor_bytes ct (encrypt_block E fb) = take 16 data"
      using False by (simp add: ct_def xor16_store_bytes)
    moreover have "cfb_decrypt_ref E ct (cfb_encrypt E ct (drop 16 data)) = drop 16 data"
      using 1 False by (simp add: ct_def)
    moreover have "length ct = 16" by (simp add: ct_def)
    ultimately show ?thesis
      using False
      by (subst cfb_encrypt.simps, subst cfb_decrypt_ref.simps)
        (simp add: ct_def [symmetric] Let_def)
  qed
qed

lemma cfb_roundtrip:
  "length iv = 16 \<Longrightarrow> cfb_apply E iv (cfb_apply E iv data True) False = data"
  by (simp add: cfb_apply_def cfb_decrypt_eq_ref cfb_ref_encrypt)

subsection \<open>Batched CTR is a keystream\<close>

lemma length_concat_blocks:
  "(\<And>k. length (f k) = 16) \<Longrightarrow> length (concat (map f [0..<n])) = n * 16"
  by (induction n) simp_all

lemma nth_concat_blocks:
  assumes "\<And>k. length (f k) = 16" and "i < n * 16"
  shows "concat (map f [0..<n]) ! i = f (i div 16) ! (i mod 16)"
  using assms(2)
proof (induction n)
  case (Suc n)
  show ?case
  proof (cases "i < n * 16")
    case True
    then show ?thesis using Suc by (simp add: nth_append length_concat_blocks assms(1))
  next
    case False
    then have d: "i div 16 = n"
      using Suc.prems by (intro div_nat_eqI) auto
    then have "i mod 16 = i - n * 16"
      by (metis minus_div_mult_eq_mod)
    with d show ?thesis using False by (simp add: nth_append length_concat_blocks assms(1))
  qed
qed simp

lemma ctr_loop_keystream:
  "ctr_loop E counter data = xor_bytes data (map (ctr_keystream E counter) [0..<length data])"
proof (induction E counter data rule: ctr_loop.induct)
  case (1 E counter data)
  show ?case
  proof (cases "data = []")
    case True
    then show ?thesis by (simp add: ctr_loop.simps xor_bytes_def)
  next
    case False
    define t where "t = min (length data) (CTR_BATCH * 16)"
    define n where "n = (t + 15) div 16"
    have t: "t \<le> length data" "t \<le> n * 16" by (auto simp: t_def n_def)
    have full: "t < length data \<Longrightarrow> n * 16 = t"
      by (auto simp: t_def n_def CTR_BATCH_def)
    let ?ks = "\<lambda>k. encrypt_block E (to_be 16 (counter + of_nat k))"
    have IH: "ctr_loop E (counter + of_nat n) (drop t data) =
        xor_bytes (drop t data) (map (ctr_keystream E (counter + of_nat n)) [0..<length data - t])"
      using 1 [OF False t_def n_def refl] by simp
    have step: "ctr_loop E counter data =
        xor_bytes (take t data) (concat (map ?ks [0..<n])) @
        xor_bytes (drop t data) (map (ctr_keystream E (counter + of_nat n)) [0..<length data - t])"
      using False IH by (subst ctr_loop.simps) (simp add: Let_def t_def [symmetric] n_def [symmetric])
    have l1: "length (xor_bytes (take t data) (concat (map ?ks [0..<n]))) = t"
      using t by (simp add: length_concat_blocks)
    show ?thesis
    proof (rule nth_equalityI)
      show "length (ctr_loop E counter data) =
          length (xor_bytes data (map (ctr_keystream E counter) [0..<length data]))"
        unfolding step using l1 t by simp
    next
      fix i assume "i < length (ctr_loop E counter data)"
      then have i: "i < length data" unfolding step using l1 t by simp
      show "ctr_loop E counter data ! i =
          xor_bytes data (map (ctr_keystream E counter) [0..<length data]) ! i"
      proof (cases "i < t")
        case True
        then show ?thesis
          unfolding step using i t l1
          by (simp add: nth_append nth_xor_bytes length_concat_blocks nth_concat_blocks
              ctr_keystream_def)
      next
        case False
        with i full have "n * 16 = t" by simp
        moreover from this False obtain j where j: "i = n * 16 + j" by (metis le_Suc_ex not_less)
        moreover have "ctr_keystream E (counter + of_nat n) j = ctr_keystream E counter i"
          by (simp add: ctr_keystream_def j add.assoc)
        ultimately show ?thesis
          unfolding step using i t l1 by (simp add: nth_append nth_xor_bytes)
      qed
    qed
  qed
qed

lemma ctr_roundtrip: "ctr_apply E iv (ctr_apply E iv data) = data"
  by (simp add: ctr_apply_def ctr_loop_keystream)

subsection \<open>Nonces\<close>

lemma length_xor_fold:
  "length (fold (\<lambda>i nc. nc[st + i := nc ! (st + i) XOR f i]) ks nc) = length (nc :: bytes)"
  by (induction ks arbitrary: nc) simp_all

lemma nth_xor_fold:
  "st + w \<le> length nc \<Longrightarrow> j < length nc \<Longrightarrow>
   fold (\<lambda>i nc. nc[st + i := nc ! (st + i) XOR f i]) [0..<w] (nc :: bytes) ! j =
     (if st \<le> j \<and> j < st + w then nc ! j XOR f (j - st) else nc ! j)"
proof (induction w)
  case (Suc w)
  then show ?case
    by (auto simp: nth_list_update length_xor_fold less_Suc_eq)
qed auto

lemma length_packet_nonce [simp, len_simps]: "length (packet_nonce m iv sq) = length iv"
  by (simp add: packet_nonce_def Let_def length_xor_fold)

lemma to_le_ucast_u64: "to_le 16 (ucast (sq :: u64) :: u128) = to_le 8 sq @ replicate 8 0"
proof (rule nth_equalityI)
  fix k assume "k < length (to_le 16 (ucast sq :: u128))"
  then have k: "k < 16" by simp
  show "to_le 16 (ucast sq :: u128) ! k = (to_le 8 sq @ replicate 8 0) ! k"
    using k by (intro bit_word_eqI)
      (auto simp: bit_to_le_nth nth_append bit_simps dest: bit_imp_le_length)
qed simp

lemma packet_nonce_aes:
  assumes "m \<noteq> ChaCha20" and "length iv = 16"
  shows "packet_nonce m iv sq = xor_bytes iv (to_be 16 (ucast sq :: u128))"
proof (rule nth_equalityI)
  fix j assume "j < length (packet_nonce m iv sq)"
  then have j: "j < 16" using assms by simp
  have ivl: "iv_len m = 16" using assms(1) by (cases m) auto
  have z: "to_be 16 (ucast sq :: u128) ! j = (if 8 \<le> j then to_be 8 sq ! (j - 8) else 0)"
    using j by (simp add: to_be_def to_le_ucast_u64 nth_append)
  show "packet_nonce m iv sq ! j = xor_bytes iv (to_be 16 (ucast sq :: u128)) ! j"
    using assms j ivl
    by (simp add: packet_nonce_def Let_def xor_width_def nth_xor_fold nth_xor_bytes z)
qed (use assms in simp)

lemma from_le_xor:
  "length a = length b \<Longrightarrow> (from_le (xor_bytes a b) :: 'a::len word) = from_le a XOR from_le b"
  by (rule bit_word_eqI) (auto simp: bit_from_le bit_simps nth_xor_bytes)

lemma rev_xor_bytes:
  "length a = length b \<Longrightarrow> rev (xor_bytes a b) = xor_bytes (rev a) (rev b)"
  by (simp add: xor_bytes_def zip_rev rev_map)

lemma from_be_xor:
  "length a = length b \<Longrightarrow> (from_be (xor_bytes a b) :: 'a::len word) = from_be a XOR from_be b"
  by (simp add: from_be_def rev_xor_bytes from_le_xor)

lemma ctr_start:
  "m \<noteq> ChaCha20 \<Longrightarrow> length iv = 16 \<Longrightarrow>
   from_be (packet_nonce m iv sq) = (from_be iv :: u128) XOR ucast sq"
  by (simp add: packet_nonce_aes from_be_xor from_be_to_be)

lemma xor_left_inj:
  assumes "a XOR b = a XOR c"
  shows "b = (c :: 'a::len word)"
proof -
  have "a XOR (a XOR b) = a XOR (a XOR c)" using assms by simp
  then show ?thesis by (simp add: xor.assoc [symmetric])
qed

lemma packet_nonce_aes_inj:
  assumes "m \<noteq> ChaCha20" "length iv = 16" "packet_nonce m iv s = packet_nonce m iv s'"
  shows "s = s'"
proof -
  have "(from_be iv :: u128) XOR ucast s = from_be iv XOR ucast s'"
    using assms ctr_start by metis
  then have "(ucast s :: u128) = ucast s'"
    by (rule xor_left_inj)
  then have "unat (ucast s :: u128) = unat (ucast s' :: u128)" by simp
  then show ?thesis by (simp add: unat_ucast_up word_unat_eq_iff)
qed

lemma packet_nonce_chacha:
  assumes "length iv = 16"
  shows "take 12 (packet_nonce ChaCha20 iv sq) =
         take 8 iv @ xor_bytes (sub_slice 8 12 iv) (to_be 4 (ucast sq :: u32))"
proof (rule nth_equalityI)
  fix j assume "j < length (take 12 (packet_nonce ChaCha20 iv sq))"
  then have j: "j < 12" using assms by simp
  have z: "to_be 4 (ucast sq :: u32) ! (j - 8) = to_be 8 sq ! (j - 4)" if "8 \<le> j"
    using j that by (simp add: to_be_def rev_nth)
      (auto simp: bit_eq_iff bit_to_le_nth bit_simps dest: bit_imp_le_length)
  show "take 12 (packet_nonce ChaCha20 iv sq) ! j =
      (take 8 iv @ xor_bytes (sub_slice 8 12 iv) (to_be 4 (ucast sq :: u32))) ! j"
    using assms j z
    by (auto simp: packet_nonce_def Let_def xor_width_def nth_xor_fold nth_xor_bytes nth_append
        sub_slice_def)
qed (use assms in \<open>simp add: sub_slice_def\<close>)

lemma packet_nonce_chacha_inj:
  assumes "length iv = 16"
    and "take 12 (packet_nonce ChaCha20 iv s) = take 12 (packet_nonce ChaCha20 iv s')"
  shows "(ucast s :: u32) = ucast s'"
proof -
  have l: "length (sub_slice 8 12 iv) = 4" using assms by (simp add: sub_slice_def)
  have "xor_bytes (sub_slice 8 12 iv) (to_be 4 (ucast s :: u32)) =
        xor_bytes (sub_slice 8 12 iv) (to_be 4 (ucast s' :: u32))"
    using assms by (simp add: packet_nonce_chacha)
  then have "(from_be (xor_bytes (sub_slice 8 12 iv) (to_be 4 (ucast s :: u32))) :: u32) =
             from_be (xor_bytes (sub_slice 8 12 iv) (to_be 4 (ucast s' :: u32)))"
    by simp
  then have "(from_be (sub_slice 8 12 iv) :: u32) XOR ucast s =
             from_be (sub_slice 8 12 iv) XOR ucast s'"
    using l by (simp add: from_be_xor from_be_to_be)
  then show ?thesis
    by (rule xor_left_inj)
qed

subsection \<open>Key material\<close>

lemma base32_alphabet_distinct:
  "length base32_alphabet = 32 \<and> distinct (map of_char base32_alphabet :: u8 list)"
  by (simp add: base32_alphabet_def)

lemma base32_index_less: "unat ((x :: u128) AND 31) < 32"
proof -
  have "x AND 31 \<le> 31" by (rule word_and_le1)
  then have "unat (x AND 31) \<le> unat (31 :: u128)" unfolding word_le_nat_alt .
  then show ?thesis by simp
qed

lemma base32_digit_inj:
  assumes "(of_char (base32_alphabet ! unat (v AND 31)) :: u8) =
           of_char (base32_alphabet ! unat (w AND 31))"
  shows "(v :: u128) AND 31 = w AND 31"
proof -
  let ?xs = "map of_char base32_alphabet :: u8 list"
  have "?xs ! unat (v AND 31) = ?xs ! unat (w AND 31)"
    using assms base32_alphabet_distinct by (simp add: base32_index_less)
  then have "unat (v AND 31) = unat (w AND 31)"
    using nth_eq_iff_index_eq [of ?xs] base32_alphabet_distinct base32_index_less by force
  then show ?thesis by (simp only: word_unat_eq_iff)
qed

lemma word_split_5: "(v :: u128) AND 31 = w AND 31 \<Longrightarrow> drop_bit 5 v = drop_bit 5 w \<Longrightarrow> v = w"
proof -
  assume "v AND 31 = w AND 31" and d: "drop_bit 5 v = drop_bit 5 w"
  then have "take_bit 5 v = take_bit 5 w" by (simp add: take_bit_eq_mask mask_numeral)
  with d show ?thesis by (metis bits_ident)
qed

lemma base32_digits_inj: "base32_digits v = base32_digits w \<Longrightarrow> v = w"
proof (induction v arbitrary: w rule: base32_digits.induct)
  case (1 v)
  let ?d = "\<lambda>v. if drop_bit 5 v = 0 then [] else base32_digits (drop_bit 5 v)"
  have low: "v AND 31 = w AND 31" and high: "?d v = ?d w"
    using 1(2) base32_digits.simps [of v] base32_digits.simps [of w]
    by (auto dest: base32_digit_inj)
  have ne: "base32_digits x \<noteq> []" for x by (simp add: base32_digits.simps [of x])
  have "drop_bit 5 v = drop_bit 5 w"
    using high 1(1) ne ne [symmetric] by (auto split: if_splits)
  with low show ?case by (rule word_split_5)
qed

lemma base32_digits_no_plus: "(0x2b :: u8) \<notin> set (base32_digits v)"
proof (induction v rule: base32_digits.induct)
  case (1 v)
  have "\<forall>c \<in> set base32_alphabet. (of_char c :: u8) \<noteq> 0x2b"
    by (simp add: base32_alphabet_def)
  moreover have "unat (v AND 31) < length base32_alphabet"
    by (simp add: base32_alphabet_distinct base32_index_less)
  ultimately show ?case
    using 1 by (auto simp: base32_digits.simps [of v])
qed

text \<open>The keying material of one password separates every \<open>ivv\<close>, and the unseasoned case.\<close>

lemma derive_ikm_inj: "derive_ikm pw a = derive_ikm pw b \<Longrightarrow> a = b"
proof -
  assume eq: "derive_ikm pw a = derive_ikm pw b"
  let ?f = "\<lambda>v. (if 0 < v then as_bytes ''+'' else []) @ encode_base32 v"
  have ne: "?f v \<noteq> []" for v
    by (simp add: encode_base32_def base32_digits.simps [of v])
  have plus: "0x2b \<in> set (?f v) \<longleftrightarrow> 0 < v" for v
    using base32_digits_no_plus [of v] by (simp add: encode_base32_def as_bytes_def)
  have "v = w" if "?f v = ?f w" for v w
    using that plus [of v] plus [of w] base32_digits_inj [of v w]
    by (auto simp: encode_base32_def split: if_splits)
  with eq ne show ?thesis
    by (cases a; cases b) (force simp: derive_ikm_def)+
qed

lemma derive_salt_inj: "derive_salt r m = derive_salt r' m' \<Longrightarrow> r = r' \<and> m = m'"
  by (cases r; cases r'; cases m; cases m') (simp_all add: derive_salt_def as_bytes_def)

lemma method_from_name_name: "method_from_name (method_name m) = Some m"
  by (induction m) code_simp+

subsection \<open>Ciphers in step\<close>

definition core_matches :: "cipher_method \<Rightarrow> cipher_core \<Rightarrow> bool" where
  "core_matches m core =
     (case core of
        CoreAes128 k \<Rightarrow> m \<in> {Aes128Cfb, Aes128Ctr} \<and> length k = key_len m
      | CoreAes256 k \<Rightarrow> m \<in> {Aes256Cfb, Aes256Ctr} \<and> length k = key_len m
      | CoreChaCha k \<Rightarrow> m = ChaCha20 \<and> length k = key_len m)"

definition cipher_wf :: "session_cipher \<Rightarrow> bool" where
  "cipher_wf c \<longleftrightarrow> core_matches (sc_method c) (sc_core c) \<and> length (sc_base_iv c) = NONCE_MAX"

text \<open>
  The sender's and the receiver's instance of one direction: the same key material and the same
  number of packets processed, one encrypting and one decrypting.
\<close>

definition cipher_sync :: "session_cipher \<Rightarrow> session_cipher \<Rightarrow> bool" where
  "cipher_sync e d \<longleftrightarrow> cipher_wf e \<and> sc_encrypting e \<and> d = for_decryption e"

lemma length_derive_material:
  "length (fst (derive_material cr r m pw ivv)) = KEY_MAX"
  "length (snd (derive_material cr r m pw ivv)) = NONCE_MAX"
  by (simp_all add: derive_material_def Let_def np_consts)

lemma cipher_derive_wf: "cipher_wf (cipher_derive cr m r pw ivv)"
  using length_derive_material [of cr r m pw ivv]
  by (cases m)
    (simp_all add: cipher_derive_def Let_def cipher_wf_def core_matches_def split_beta np_consts)

lemma cipher_derive_sync:
  "cipher_sync (cipher_derive cr m r pw ivv) (for_decryption (cipher_derive cr m r pw ivv))"
  using cipher_derive_wf [of cr m r pw ivv]
  by (simp add: cipher_sync_def) (simp add: cipher_derive_def Let_def split_beta)

lemma core_matches_cases:
  assumes "core_matches m core"
  obtains k where "m = Aes128Cfb" "core = CoreAes128 k"
  | k where "m = Aes256Cfb" "core = CoreAes256 k"
  | k where "m = Aes128Ctr" "core = CoreAes128 k"
  | k where "m = Aes256Ctr" "core = CoreAes256 k"
  | k where "m = ChaCha20" "core = CoreChaCha k"
  using assms by (cases core) (auto simp: core_matches_def)

lemma cipher_kernel_defined:
  "core_matches m core \<Longrightarrow> \<exists>d. cipher_kernel cr m core e nonce data = Some d"
  by (erule core_matches_cases) auto

lemma length_cipher_kernel:
  "length nonce = 16 \<Longrightarrow> cipher_kernel cr m core e nonce data = Some d \<Longrightarrow> length d = length data"
  by (cases "(m, core)" rule: prod.exhaust, cases m; cases core)
    (auto simp: cfb_apply_def cfb_decrypt_eq_ref ctr_apply_def ctr_loop_keystream)

lemma cipher_kernel_roundtrip:
  "length nonce = 16 \<Longrightarrow> cipher_kernel cr m core True nonce data = Some d \<Longrightarrow>
   cipher_kernel cr m core False nonce d = Some data"
  by (cases m; cases core) (auto simp: cfb_roundtrip ctr_roundtrip)

lemma cipher_apply_length: "cipher_wf c \<Longrightarrow> length (fst (cipher_apply cr c data)) = length data"
  using cipher_kernel_defined [of "sc_method c" "sc_core c" cr "sc_encrypting c"]
  by (auto simp: cipher_apply_def next_nonce_def cipher_wf_def np_consts
      split: option.split dest!: length_cipher_kernel [rotated])

lemma cipher_apply_state: "snd (cipher_apply cr c data) = c\<lparr>sc_seq := sc_seq c + 1\<rparr>"
  by (simp add: cipher_apply_def next_nonce_def)

lemma cipher_apply_sync:
  assumes "cipher_sync e d" and "cipher_apply cr e data = (ct, e')"
  shows "\<exists>d'. cipher_apply cr d ct = (data, d') \<and> cipher_sync e' d'"
proof -
  let ?n = "packet_nonce (sc_method e) (sc_base_iv e) (sc_seq e)"
  have wf: "cipher_wf e" and enc: "sc_encrypting e" and d: "d = e\<lparr>sc_encrypting := False\<rparr>"
    using assms(1) by (simp_all add: cipher_sync_def for_decryption_def)
  obtain x where x: "cipher_kernel cr (sc_method e) (sc_core e) True ?n data = Some x"
    using cipher_kernel_defined wf unfolding cipher_wf_def by blast
  have ln: "length ?n = 16" using wf by (simp add: cipher_wf_def np_consts)
  have "ct = x" "e' = e\<lparr>sc_seq := sc_seq e + 1\<rparr>"
    using assms(2) x enc by (auto simp: cipher_apply_def next_nonce_def)
  moreover have "cipher_kernel cr (sc_method e) (sc_core e) False ?n x = Some data"
    by (rule cipher_kernel_roundtrip [OF ln x])
  ultimately show ?thesis
    using wf enc d by (simp add: cipher_apply_def next_nonce_def cipher_sync_def cipher_wf_def
        for_decryption_def)
qed

subsection \<open>CTR packets and their keystream blocks\<close>

lemma blk_ctr_apply:
  assumes "(i + 1) * 16 \<le> length data"
  shows "blk i (ctr_apply E iv data) =
         xor_bytes (blk i data) (encrypt_block E (to_be 16 (from_be iv + of_nat i :: u128)))"
proof (rule nth_equalityI)
  have l: "length (ctr_apply E iv data) = length data"
    by (simp add: ctr_apply_def ctr_loop_keystream)
  show "length (blk i (ctr_apply E iv data)) =
      length (xor_bytes (blk i data) (encrypt_block E (to_be 16 (from_be iv + of_nat i :: u128))))"
    using assms l by (simp add: length_blk)
  fix j assume "j < length (blk i (ctr_apply E iv data))"
  then have j: "j < 16" using assms l by (simp add: length_blk)
  then have "i * 16 + j < length data" using assms by (simp add: algebra_simps)
  then show "blk i (ctr_apply E iv data) ! j =
      xor_bytes (blk i data) (encrypt_block E (to_be 16 (from_be iv + of_nat i :: u128))) ! j"
    using j assms
    by (simp add: blk_def ctr_apply_def ctr_loop_keystream nth_xor_bytes ctr_keystream_def)
qed

lemma xor_bytes_common_pad:
  assumes "length a = length k" "length b = length k"
  shows "xor_bytes (xor_bytes a k) (xor_bytes b k) = xor_bytes a b"
  using assms
  by (intro nth_equalityI) (simp_all add: nth_xor_bytes xor.assoc xor.left_commute xor.commute)

lemma succ_seq_xor: "even (sq :: u64) \<Longrightarrow> sq + 1 = sq XOR 1"
  by (simp add: xor_one_eq)

lemma ucast_xor_one: "ucast (sq XOR 1 :: u64) = (ucast sq XOR 1 :: u128)"
  by (rule bit_word_eqI) (auto simp: bit_simps)

lemma ctr_neighbour_counters:
  assumes "even sq" and "m \<noteq> ChaCha20" and "length iv = 16"
  defines "a \<equiv> (from_be (packet_nonce m iv sq) :: u128)"
    and "b \<equiv> from_be (packet_nonce m iv (sq + 1))"
  shows "\<exists>i j. i < 2 \<and> j < 2 \<and> a + of_nat i = b + of_nat j"
proof -
  have "b = a XOR 1"
    unfolding a_def b_def
    by (simp only: ctr_start [OF assms(2,3)] succ_seq_xor [OF assms(1)] ucast_xor_one xor.assoc)
  then have "b = a + 1 \<or> a = b + 1" by (cases "even a") (simp_all add: xor_one_eq)
  then consider "b = a + 1" | "a = b + 1" by blast
  then show ?thesis
  proof cases
    case 1
    then show ?thesis by (intro exI [of _ 1] exI [of _ 0]) simp
  next
    case 2
    then show ?thesis by (intro exI [of _ 0] exI [of _ 1]) simp
  qed
qed

subsection \<open>Properties\<close>

text \<open>A concrete set of primitives, for the closed examples.\<close>

definition demo_crypto :: crypto_ops where
  "demo_crypto =
     \<lparr>hkdf_okm = (\<lambda>salt ikm info i. of_nat (i + length salt + length ikm)),
      aes128_block = (\<lambda>k b. b * 5 + from_le k),
      aes256_block = (\<lambda>k b. b * 3 + from_le k),
      chacha20_stream = (\<lambda>k n i. of_nat (i + length n))\<rparr>"

text \<open>
  C23.  CFB decryption in batches of eight blocks, working in place, equals the serial mode, and it
  inverts CFB encryption, for every block cipher, every IV and every length.
\<close>

theorem cfb_batched_is_serial:
  assumes "length iv = 16"
  shows "cfb_decrypt E iv data = cfb_decrypt_ref E iv data \<and>
         cfb_decrypt E iv (cfb_encrypt E iv data) = data"
  using cfb_decrypt_eq_ref [OF assms] cfb_ref_encrypt [OF assms] by simp

theorem cfb_batched_is_serial_witness:
  "cfb_decrypt (\<lambda>x. x + 1) (replicate 16 7) (cfb_encrypt (\<lambda>x. x + 1) (replicate 16 7) [1, 2, 3]) =
   [1, 2, 3]"
  using cfb_batched_is_serial [of "replicate 16 7" "\<lambda>x. x + 1" "[1, 2, 3]"] by simp

text \<open>
  C24.  CTR in batches of eight blocks is the exclusive or with the keystream whose block \<open>j\<close> is the
  encryption of the big-endian counter \<open>iv + j\<close>, the last block cut to the data.
\<close>

theorem ctr_batched_is_keystream:
  "ctr_apply E iv data = xor_bytes data (map (ctr_keystream E (from_be iv)) [0..<length data])"
  by (simp add: ctr_apply_def ctr_loop_keystream)

text \<open>
  C35.  Packet nonces: with an AES method two packets have the same nonce only if they have the same
  64-bit sequence number; with ChaCha20 exactly if the low 32 bits of the numbers agree.
\<close>

theorem packet_nonces_distinct:
  assumes "length iv = NONCE_MAX"
  shows "(m \<noteq> ChaCha20 \<longrightarrow> (packet_nonce m iv s = packet_nonce m iv s' \<longleftrightarrow> s = s')) \<and>
         (take 12 (packet_nonce ChaCha20 iv s) = take 12 (packet_nonce ChaCha20 iv s') \<longleftrightarrow>
          (ucast s :: u32) = ucast s')"
  using assms packet_nonce_aes_inj [of m iv s s'] packet_nonce_chacha_inj [of iv s s']
  by (auto simp: np_consts packet_nonce_chacha)

theorem packet_nonces_distinct_witness:
  "packet_nonce Aes256Ctr (replicate 16 0) 1 \<noteq> packet_nonce Aes256Ctr (replicate 16 0) 2 \<and>
   take 12 (packet_nonce ChaCha20 (replicate 16 0) 1) =
   take 12 (packet_nonce ChaCha20 (replicate 16 0) 0x100000001)"
  using packet_nonces_distinct [of "replicate 16 0" Aes256Ctr 1 2]
    packet_nonces_distinct [of "replicate 16 0" Aes256Ctr 1 "0x100000001"]
  by (simp add: np_consts)

text \<open>
  C21.  Two instances in step stay in step: what the encrypting one produces, the decrypting one
  turns back into the data with its next nonce, and neither changes the length.
\<close>

theorem session_cipher_roundtrip:
  assumes "cipher_sync e d"
  shows "\<exists>d'. cipher_apply cr d (fst (cipher_apply cr e data)) = (data, d') \<and>
              cipher_sync (snd (cipher_apply cr e data)) d' \<and>
              length (fst (cipher_apply cr e data)) = length data"
  using cipher_apply_sync [OF assms, of cr data "fst (cipher_apply cr e data)"
      "snd (cipher_apply cr e data)"] cipher_apply_length [of e cr data] assms
  by (auto simp: cipher_sync_def)

theorem session_cipher_roundtrip_witness:
  "\<exists>d'. cipher_apply demo_crypto (for_decryption (cipher_new demo_crypto Aes128Cfb RoleProtocol ''pw''))
          (fst (cipher_apply demo_crypto (cipher_new demo_crypto Aes128Cfb RoleProtocol ''pw'') [1, 2])) =
        ([1, 2], d')"
  using session_cipher_roundtrip [OF cipher_derive_sync, of demo_crypto demo_crypto Aes128Cfb
      RoleProtocol "''pw''" None "[1, 2]"]
  by (auto simp: cipher_new_def)

text \<open>
  C22.  The \<open>unreachable!\<close> arm of \<open>SessionCipher::apply\<close> is unreachable: derivation pairs every method
  with its own core and a full-width IV, and applying the cipher keeps that.
\<close>

theorem cipher_never_panics:
  "cipher_wf (cipher_derive cr m role pw ivv) \<and>
   (cipher_wf c \<longrightarrow>
      cipher_kernel cr (sc_method c) (sc_core c) (sc_encrypting c) (fst (next_nonce c)) data \<noteq> None \<and>
      cipher_wf (snd (cipher_apply cr c data)))"
  using cipher_derive_wf [of cr m role pw ivv]
    cipher_kernel_defined [of "sc_method c" "sc_core c" cr "sc_encrypting c" "fst (next_nonce c)" data]
  by (auto simp: cipher_apply_state cipher_wf_def)

theorem cipher_never_panics_witness:
  "cipher_kernel demo_crypto ChaCha20
     (sc_core (cipher_derive demo_crypto ChaCha20 RoleTransport ''k'' None)) True
     (fst (next_nonce (cipher_derive demo_crypto ChaCha20 RoleTransport ''k'' None))) [9] \<noteq> None"
  using cipher_never_panics [of demo_crypto ChaCha20 RoleTransport "''k''" None
      "cipher_derive demo_crypto ChaCha20 RoleTransport ''k'' None" "[9]"]
  by (simp add: cipher_derive_def Let_def split_beta)

text \<open>
  Domain separation of the key derivation: under one password the keying material determines
  the seasoning \<open>ivv\<close> (including its absence), and the salt determines role and method.
\<close>

theorem key_derivation_separates:
  "(derive_ikm pw a = derive_ikm pw b \<longleftrightarrow> a = b) \<and>
   (derive_salt r m = derive_salt r' m' \<longleftrightarrow> r = r' \<and> m = m')"
  using derive_ikm_inj [of pw a b] derive_salt_inj [of r m r' m'] by auto

text \<open>
  C36.  The block counter of CTR mode starts at the packet nonce and advances in the same low bytes
  that the packet sequence is mixed into.  A packet with an even sequence number and the packet after
  it, both of at least two blocks, therefore share a keystream block under either CTR method: the
  exclusive or of one ciphertext block of each is the exclusive or of their plaintext blocks,
  whatever the key.
\<close>

theorem ctr_even_packet_shares_keystream:
  assumes "cipher_wf c" and "sc_method c = Aes128Ctr \<or> sc_method c = Aes256Ctr" and "even (sc_seq c)"
    and "cipher_apply cr c p = (ct1, c1)" and "cipher_apply cr c1 q = (ct2, c2)"
    and "32 \<le> length p" and "32 \<le> length q"
  shows "\<exists>i j. i < 2 \<and> j < 2 \<and> xor_bytes (blk i ct1) (blk j ct2) = xor_bytes (blk i p) (blk j q)"
proof -
  let ?m = "sc_method c"
  let ?n1 = "packet_nonce ?m (sc_base_iv c) (sc_seq c)"
  let ?n2 = "packet_nonce ?m (sc_base_iv c) (sc_seq c + 1)"
  obtain E where ct: "ct1 = ctr_apply E ?n1 p" "ct2 = ctr_apply E ?n2 q"
  proof (cases "?m = Aes128Ctr")
    case True
    then obtain k where "sc_core c = CoreAes128 k"
      using assms(1) by (auto simp: cipher_wf_def elim: core_matches_cases)
    with assms(4,5) True that [of "aes128_block cr k"] show ?thesis
      by (auto simp: cipher_apply_def next_nonce_def)
  next
    case False
    then obtain k where "sc_core c = CoreAes256 k"
      using assms(1,2) by (auto simp: cipher_wf_def elim: core_matches_cases)
    with assms(2,4,5) False that [of "aes256_block cr k"] show ?thesis
      by (auto simp: cipher_apply_def next_nonce_def)
  qed
  obtain i j where ij: "i < 2" "j < 2"
    and eq: "(from_be ?n1 :: u128) + of_nat i = from_be ?n2 + of_nat j"
    using ctr_neighbour_counters [OF assms(3), of ?m "sc_base_iv c"] assms(1,2)
    by (auto simp: cipher_wf_def np_consts)
  have len: "(i + 1) * 16 \<le> length p" "(j + 1) * 16 \<le> length q"
    using ij assms(6,7) by auto
  have "xor_bytes (blk i ct1) (blk j ct2) = xor_bytes (blk i p) (blk j q)"
    unfolding ct blk_ctr_apply [OF len(1)] blk_ctr_apply [OF len(2)] eq
    using len by (intro xor_bytes_common_pad) (simp_all add: length_blk)
  with ij show ?thesis by blast
qed

theorem ctr_even_packet_shares_keystream_witness:
  "\<exists>i j. i < 2 \<and> j < 2 \<and>
     xor_bytes
       (blk i (fst (cipher_apply demo_crypto (cipher_new demo_crypto Aes256Ctr RoleTransport ''k'')
          (replicate 32 1))))
       (blk j (fst (cipher_apply demo_crypto
          (snd (cipher_apply demo_crypto (cipher_new demo_crypto Aes256Ctr RoleTransport ''k'')
             (replicate 32 1))) (replicate 32 2)))) =
     xor_bytes (blk i (replicate 32 1)) (blk j (replicate 32 2))"
proof -
  let ?c = "cipher_new demo_crypto Aes256Ctr RoleTransport ''k''"
  have "cipher_wf ?c" "sc_method ?c = Aes256Ctr" "even (sc_seq ?c)"
    by (simp_all add: cipher_new_def cipher_derive_wf)
      (simp_all add: cipher_derive_def Let_def split_beta)
  then show ?thesis
    using ctr_even_packet_shares_keystream [of ?c demo_crypto "replicate 32 1" _ _
        "replicate 32 2", OF _ _ _ prod.collapse [symmetric] prod.collapse [symmetric]]
    by simp
qed

end
