(* ===== verification/Core_Base.thy ===== *)
theory Core_Base
  imports Cipher
begin

text \<open>
  The vocabulary of \<^verbatim>\<open>crates/core/src/\<close>: its constants (\<^verbatim>\<open>lib.rs\<close>), its error type
  (\<^verbatim>\<open>error.rs\<close>), the obfuscation key with its validation (\<^verbatim>\<open>config.rs\<close>), the random
  generator every sender draws from (a parameter, see \<open>rng_ops\<close>) and the blocking byte transport of
  \<open>std::io\<close> the streaming paths read and write.

  A fallible operation returns \<open>core_error + 'a\<close>, \<open>Inl\<close> being the error; one that changes state
  returns the pair of its result and the state it leaves behind, so that what a failing call did to
  the state is visible.
\<close>

subsection \<open>Constants\<close>

definition PPP_BUFFER_SIZE :: nat where [np_consts]: "PPP_BUFFER_SIZE = 65536"
definition BASE94_MAX_FRAME :: nat where "BASE94_MAX_FRAME = PPP_BUFFER_SIZE * 2 + 64"
definition MOD_MIN :: u32 where "MOD_MIN = 64 * 64 * 64"
definition MOD_MAX :: u32 where "MOD_MAX = 94 * 94 * 94"

lemma BASE94_MAX_FRAME_val [np_consts]: "BASE94_MAX_FRAME = 131136"
  by (simp add: BASE94_MAX_FRAME_def PPP_BUFFER_SIZE_def)

lemma MOD_MIN_val [np_consts]: "MOD_MIN = 262144"
  by (simp add: MOD_MIN_def)

lemma MOD_MAX_val [np_consts]: "MOD_MAX = 830584"
  by (simp add: MOD_MAX_def)

subsection \<open>Errors\<close>

text \<open>The \<open>std::io::ErrorKind\<close>s the sources name, and any other.\<close>

datatype error_kind =
  NotFound | ConnectionRefused | ConnectionReset | ConnectionAborted | AddrNotAvailable
| BrokenPipe | WouldBlock | InvalidData | TimedOut | WriteZero | Interrupted | UnexpectedEof
| OtherKind

text \<open>An \<open>io::Error\<close> is represented by its kind: equality of errors looks at nothing else.\<close>

datatype core_error =
  Io error_kind
| InvalidFrame
| InvalidBase94
| ChecksumMismatch
| InvalidSessionId
| HandshakeFailed string
| FlagsMismatch
| RoleRefused
| FrameTooLarge nat
| ZeroLength
| InvalidConfig string

type_synonym 'a core_result = "core_error + 'a"

fun is_eof :: "core_error \<Rightarrow> bool" where
  "is_eof (Io k) \<longleftrightarrow> k = UnexpectedEof"
| "is_eof _ \<longleftrightarrow> False"

text \<open>The decoder of the base94 crate returns an error without detail (\<open>None\<close>).\<close>

definition from_decode_error :: "'a option \<Rightarrow> 'a core_result" where
  "from_decode_error r = (case r of None \<Rightarrow> Inl InvalidBase94 | Some x \<Rightarrow> Inr x)"

subsection \<open>The obfuscation key\<close>

definition MAX_NOP_EXPONENT :: u8 where [np_consts]: "MAX_NOP_EXPONENT = 20"

record obfuscation_key =
  ok_kf :: u32
  ok_kl :: u8
  ok_kh :: u8
  ok_kx :: u32
  ok_protocol :: cipher_method
  ok_protocol_key :: string
  ok_transport :: cipher_method
  ok_transport_key :: string
  ok_masked :: bool
  ok_plaintext :: bool
  ok_delta_encode :: bool
  ok_shuffle_data :: bool

definition default_key :: obfuscation_key where
  "default_key =
     \<lparr>ok_kf = 154543927, ok_kl = 10, ok_kh = 12, ok_kx = 128,
      ok_protocol = Aes128Cfb, ok_protocol_key = ''nextppp'',
      ok_transport = Aes256Ctr, ok_transport_key = ''nextppp'',
      ok_masked = True, ok_plaintext = False, ok_delta_encode = True, ok_shuffle_data = True\<rparr>"

definition validate :: "obfuscation_key \<Rightarrow> unit core_result" where
  "validate key =
     (if ok_kl key > MAX_NOP_EXPONENT \<or> ok_kh key > MAX_NOP_EXPONENT
      then Inl (InvalidConfig ''kl/kh exceed MAX_NOP_EXPONENT'')
      else if ok_protocol_key key = [] \<or> ok_transport_key key = []
      then Inl (InvalidConfig ''cipher password is empty'')
      else Inr ())"

lemma validate_Inr:
  "validate key = Inr u \<longleftrightarrow>
     ok_kl key \<le> 20 \<and> ok_kh key \<le> 20 \<and> ok_protocol_key key \<noteq> [] \<and> ok_transport_key key \<noteq> []"
  by (auto simp: validate_def np_consts)

subsection \<open>The random generator\<close>

text \<open>
  The generator is third-party code with a hidden state \<open>'r\<close>.  \<open>rng_ok\<close> is what the callers rely on:
  \<open>random_range(lo..=hi)\<close> stays within its inclusive bounds.
\<close>

record 'r rng_ops =
  rng_range :: "nat \<Rightarrow> nat \<Rightarrow> 'r \<Rightarrow> nat \<times> 'r"
  rng_u64 :: "'r \<Rightarrow> u64 \<times> 'r"
  rng_u128 :: "'r \<Rightarrow> u128 \<times> 'r"

definition rng_ok :: "'r rng_ops \<Rightarrow> bool" where
  "rng_ok R \<longleftrightarrow>
     (\<forall>lo hi r. lo \<le> hi \<longrightarrow> lo \<le> fst (rng_range R lo hi r) \<and> fst (rng_range R lo hi r) \<le> hi)"

definition rand_u8 :: "'r rng_ops \<Rightarrow> nat \<Rightarrow> nat \<Rightarrow> 'r \<Rightarrow> u8 \<times> 'r" where
  "rand_u8 R lo hi r = (let (n, r') = rng_range R lo hi r in (of_nat n, r'))"

lemma rng_rangeD:
  assumes "rng_ok R" "rng_range R lo hi r = (n, r')" "lo \<le> hi"
  shows "lo \<le> n" "n \<le> hi"
  using assms unfolding rng_ok_def by (metis fst_conv)+

lemma rand_u8_bounds:
  assumes "rng_ok R" "rand_u8 R lo hi r = (b, r')" "lo \<le> hi" "hi < 256"
  shows "lo \<le> unat b" "unat b \<le> hi"
proof -
  obtain n where n: "rng_range R lo hi r = (n, r')" "b = of_nat n"
    using assms(2) by (auto simp: rand_u8_def Let_def split: prod.splits)
  have "lo \<le> n" "n \<le> hi" using rng_rangeD [OF assms(1) n(1) assms(3)] by auto
  moreover have "unat b = n"
    unfolding n(2) using \<open>n \<le> hi\<close> assms(4) by (intro unat_of_nat_small) simp
  ultimately show "lo \<le> unat b" "unat b \<le> hi" by simp_all
qed

text \<open>A concrete generator: a counter folded into the requested range.\<close>

definition counter_rng :: "nat rng_ops" where
  "counter_rng =
     \<lparr>rng_range = (\<lambda>lo hi s. (lo + s mod (hi - lo + 1), Suc s)),
      rng_u64 = (\<lambda>s. (of_nat (7 * s + 1), Suc s)),
      rng_u128 = (\<lambda>s. (of_nat (11 * s + 5), Suc s))\<rparr>"

lemma counter_rng_ok: "rng_ok counter_rng"
proof -
  have "lo + s mod (hi - lo + 1) \<le> hi" if "lo \<le> hi" for lo hi s :: nat
  proof -
    have "s mod (hi - lo + 1) < hi - lo + 1" by simp
    with that show ?thesis by linarith
  qed
  then show ?thesis by (simp add: rng_ok_def counter_rng_def)
qed

subsection \<open>Blocking transports\<close>

text \<open>
  What a connection will deliver and has accepted.  \<open>tr_in\<close> holds the bytes still to be read, after
  which a read fails with \<open>tr_in_fail\<close> or, when that is \<open>None\<close>, reports the end of the stream;
  \<open>tr_out\<close> holds the bytes written, and \<open>tr_out_room\<close>, when set, how many more bytes are accepted
  before writes fail with the given kind.
\<close>

record transport =
  tr_in :: bytes
  tr_in_fail :: "error_kind option"
  tr_out :: bytes
  tr_out_room :: "(nat \<times> error_kind) option"

definition eof_kind :: "transport \<Rightarrow> error_kind" where
  "eof_kind t = (case tr_in_fail t of None \<Rightarrow> UnexpectedEof | Some k \<Rightarrow> k)"

definition read_exact :: "nat \<Rightarrow> transport \<Rightarrow> bytes core_result \<times> transport" where
  "read_exact n t =
     (if n \<le> length (tr_in t)
      then (Inr (take n (tr_in t)), t\<lparr>tr_in := drop n (tr_in t)\<rparr>)
      else (Inl (Io (eof_kind t)), t\<lparr>tr_in := []\<rparr>))"

text \<open>\<open>take(n).read_to_end(..)\<close>: a short read at the end of the stream is not an error.\<close>

definition read_upto :: "nat \<Rightarrow> transport \<Rightarrow> bytes core_result \<times> transport" where
  "read_upto n t =
     (if n \<le> length (tr_in t)
      then (Inr (take n (tr_in t)), t\<lparr>tr_in := drop n (tr_in t)\<rparr>)
      else case tr_in_fail t of
        None \<Rightarrow> (Inr (tr_in t), t\<lparr>tr_in := []\<rparr>)
      | Some k \<Rightarrow> (Inl (Io k), t\<lparr>tr_in := []\<rparr>))"

definition write_all :: "bytes \<Rightarrow> transport \<Rightarrow> unit core_result \<times> transport" where
  "write_all bs t =
     (case tr_out_room t of
        None \<Rightarrow> (Inr (), t\<lparr>tr_out := tr_out t @ bs\<rparr>)
      | Some (room, k) \<Rightarrow>
          if length bs \<le> room
          then (Inr (), t\<lparr>tr_out := tr_out t @ bs, tr_out_room := Some (room - length bs, k)\<rparr>)
          else (Inl (Io k), t\<lparr>tr_out := tr_out t @ take room bs, tr_out_room := Some (0, k)\<rparr>))"

lemma read_exact_append:
  "length xs = n \<Longrightarrow> tr_in t = xs @ ys \<Longrightarrow> read_exact n t = (Inr xs, t\<lparr>tr_in := ys\<rparr>)"
  by (simp add: read_exact_def)

lemma read_upto_append:
  "length xs = n \<Longrightarrow> tr_in t = xs @ ys \<Longrightarrow> read_upto n t = (Inr xs, t\<lparr>tr_in := ys\<rparr>)"
  by (simp add: read_upto_def)

end
