(* ===== verification/Binary_Frame.thy ===== *)
theory Binary_Frame
  imports Ssea Core_Base
begin

text \<open>
  \<^verbatim>\<open>crates/core/src/frame/binary.rs\<close>: the three-byte encrypted header and the payload
  transform chain (mask, shuffle, delta) that every packet goes through.  The chain is an instance
  of the \<open>byte_transform_pair\<close> interface applied twice; the header round trip holds for two
  protocol ciphers in step.
\<close>

definition HEADER_SIZE :: nat where [np_consts]: "HEADER_SIZE = 3"

record payload_flags =
  pf_masked :: bool
  pf_shuffle :: bool
  pf_delta :: bool

definition FLAGS_NONE :: payload_flags where
  "FLAGS_NONE = \<lparr>pf_masked = False, pf_shuffle = False, pf_delta = False\<rparr>"

definition FLAGS_SAFEST :: payload_flags where
  "FLAGS_SAFEST = \<lparr>pf_masked = True, pf_shuffle = True, pf_delta = True\<rparr>"

text \<open>An optional protocol cipher applied to the two length bytes.\<close>

definition opt_apply ::
  "crypto_ops \<Rightarrow> session_cipher option \<Rightarrow> bytes \<Rightarrow> bytes \<times> session_cipher option" where
  "opt_apply cr protocol bs =
     (case protocol of
        None \<Rightarrow> (bs, None)
      | Some c \<Rightarrow> let (d, c') = cipher_apply cr c bs in (d, Some c'))"

definition header_encrypt ::
  "crypto_ops \<Rightarrow> 'r rng_ops \<Rightarrow> 'r \<Rightarrow> u32 \<Rightarrow> session_cipher option \<Rightarrow> nat \<Rightarrow>
   (bytes \<times> u32) core_result \<times> 'r \<times> session_cipher option" where
  "header_encrypt cr R rng kf protocol payload_len =
     (if payload_len = 0 \<or> payload_len > PPP_BUFFER_SIZE
      then (Inl (FrameTooLarge payload_len), rng, protocol)
      else
        let adjusted = payload_len - 1;
            (seed, rng') = rand_u8 R 1 0xff rng;
            len_bytes = [of_nat (adjusted div 256), of_nat (adjusted mod 256)];
            header_kf = kf XOR ucast seed;
            (enc, protocol') = opt_apply cr protocol len_bytes;
            masked = map (\<lambda>b. b XOR ucast header_kf) enc;
            arr = delta_encode (seed # shuffle masked header_kf) kf
        in (Inr (arr, header_kf), rng', protocol'))"

definition header_decrypt ::
  "crypto_ops \<Rightarrow> u32 \<Rightarrow> session_cipher option \<Rightarrow> bytes \<Rightarrow>
   (nat \<times> u32) core_result \<times> session_cipher option" where
  "header_decrypt cr kf protocol header =
     (let arr = delta_decode header kf;
          header_kf = kf XOR ucast (arr ! 0);
          lb = unshuffle (drop 1 arr) header_kf;
          masked = map (\<lambda>b. b XOR ucast header_kf) lb;
          (dec, protocol') = opt_apply cr protocol masked;
          len = unat (push_bit 8 (ucast (dec ! 0)) OR ucast (dec ! 1) :: u16) + 1
      in (Inr (len, header_kf), protocol'))"

definition payload_obfuscate :: "bytes \<Rightarrow> payload_flags \<Rightarrow> u32 \<Rightarrow> u32 \<Rightarrow> bytes" where
  "payload_obfuscate data flags header_kf kf =
     (let d1 = (if pf_masked flags then masked_xor_random_next data header_kf else data);
          d2 = (if pf_shuffle flags then shuffle d1 header_kf else d1)
      in if pf_delta flags then delta_encode d2 kf else d2)"

definition payload_deobfuscate :: "bytes \<Rightarrow> payload_flags \<Rightarrow> u32 \<Rightarrow> u32 \<Rightarrow> bytes" where
  "payload_deobfuscate data flags header_kf kf =
     (let d1 = (if pf_delta flags then delta_decode data kf else data);
          d2 = (if pf_shuffle flags then unshuffle d1 header_kf else d1)
      in if pf_masked flags then masked_xor_random_next d2 header_kf else d2)"

subsection \<open>The payload chain as composed transforms\<close>

text \<open>The stages, keyed by the flags, the per-packet \<open>header_kf\<close> and the configured \<open>kf\<close>.\<close>

type_synonym stage_key = "payload_flags \<times> u32 \<times> u32"

definition mask_stage :: "stage_key \<Rightarrow> bytes \<Rightarrow> bytes" where
  "mask_stage = (\<lambda>(fl, hk, kf) xs. if pf_masked fl then masked_xor_random_next xs hk else xs)"

definition shuffle_stage :: "stage_key \<Rightarrow> bytes \<Rightarrow> bytes" where
  "shuffle_stage = (\<lambda>(fl, hk, kf) xs. if pf_shuffle fl then shuffle xs hk else xs)"

definition unshuffle_stage :: "stage_key \<Rightarrow> bytes \<Rightarrow> bytes" where
  "unshuffle_stage = (\<lambda>(fl, hk, kf) xs. if pf_shuffle fl then unshuffle xs hk else xs)"

definition delta_stage :: "stage_key \<Rightarrow> bytes \<Rightarrow> bytes" where
  "delta_stage = (\<lambda>(fl, hk, kf) xs. if pf_delta fl then delta_encode xs kf else xs)"

definition undelta_stage :: "stage_key \<Rightarrow> bytes \<Rightarrow> bytes" where
  "undelta_stage = (\<lambda>(fl, hk, kf) xs. if pf_delta fl then delta_decode xs kf else xs)"

interpretation mask_shuffle:
  byte_transform_pair mask_stage mask_stage shuffle_stage unshuffle_stage shuffle_ok
  by unfold_locales
    (auto simp: mask_stage_def shuffle_stage_def unshuffle_stage_def split_beta
      mask_xor.dec_enc shuf.dec_enc shuf.enc_dec)

interpretation chain:
  byte_transform_pair
    "\<lambda>k xs. shuffle_stage k (mask_stage k xs)" "\<lambda>k xs. mask_stage k (unshuffle_stage k xs)"
    delta_stage undelta_stage shuffle_ok
  by (intro byte_transform_pair.intro mask_shuffle.seq_transform)
    (unfold_locales, auto simp: delta_stage_def undelta_stage_def split_beta delta.dec_enc
      delta.enc_dec)

lemma payload_obfuscate_stages:
  "payload_obfuscate data fl hk kf =
     delta_stage (fl, hk, kf) (shuffle_stage (fl, hk, kf) (mask_stage (fl, hk, kf) data))"
  "payload_deobfuscate data fl hk kf =
     mask_stage (fl, hk, kf) (unshuffle_stage (fl, hk, kf) (undelta_stage (fl, hk, kf) data))"
  by (simp_all add: payload_obfuscate_def payload_deobfuscate_def Let_def mask_stage_def
      shuffle_stage_def unshuffle_stage_def delta_stage_def undelta_stage_def)

interpretation payload: byte_transform
  "\<lambda>(fl, hk, kf) xs. payload_obfuscate xs fl hk kf"
  "\<lambda>(fl, hk, kf) xs. payload_deobfuscate xs fl hk kf" shuffle_ok
  using chain.seq_transform
  by (simp add: payload_obfuscate_stages case_prod_unfold)

lemma length_payload_obfuscate [simp, len_simps]:
  "length (payload_obfuscate xs fl hk kf) = length xs"
  using payload.length_enc [of "(fl, hk, kf)" xs] by simp

lemma length_payload_deobfuscate [simp, len_simps]:
  "length (payload_deobfuscate xs fl hk kf) = length xs"
  using payload.length_dec [of "(fl, hk, kf)" xs] by simp

lemma payload_roundtrip:
  "length xs < 2 ^ 32 \<Longrightarrow> payload_deobfuscate (payload_obfuscate xs fl hk kf) fl hk kf = xs"
  using payload.dec_enc [of xs "(fl, hk, kf)"] by simp

subsection \<open>The header round trip\<close>

definition opt_sync :: "session_cipher option \<Rightarrow> session_cipher option \<Rightarrow> bool" where
  "opt_sync e d \<longleftrightarrow>
     (case (e, d) of
        (None, None) \<Rightarrow> True
      | (Some e', Some d') \<Rightarrow> cipher_sync e' d'
      | _ \<Rightarrow> False)"

lemma opt_sync_simps [simp]:
  "opt_sync None None" "opt_sync (Some e) (Some d) \<longleftrightarrow> cipher_sync e d"
  "\<not> opt_sync None (Some d)" "\<not> opt_sync (Some e) None"
  by (simp_all add: opt_sync_def)

lemma opt_apply_sync:
  assumes "opt_sync e d" and "opt_apply cr e bs = (ct, e')"
  shows "\<exists>d'. opt_apply cr d ct = (bs, d') \<and> opt_sync e' d' \<and> length ct = length bs"
proof (cases e)
  case None
  with assms show ?thesis by (cases d) (auto simp: opt_apply_def)
next
  case (Some e1)
  with assms obtain d1 where d: "d = Some d1" "cipher_sync e1 d1" by (cases d) auto
  obtain e1' where ap: "cipher_apply cr e1 bs = (ct, e1')" "e' = Some e1'"
    using assms(2) Some by (auto simp: opt_apply_def Let_def split: prod.splits)
  have "length ct = length bs"
    using cipher_apply_length [of e1 cr bs] ap(1) d(2) by (simp add: cipher_sync_def)
  with cipher_apply_sync [OF d(2) ap(1)] show ?thesis
    using d(1) ap(2) by (auto simp: opt_apply_def)
qed

lemma map_xor_cancel [simp]: "map (\<lambda>b. b XOR k) (map (\<lambda>b. b XOR k) xs) = (xs :: bytes)"
  by (simp add: comp_def)

lemma unat_len_bytes:
  assumes "n < 65536"
  shows "unat (push_bit 8 (ucast (of_nat (n div 256) :: u8)) OR
               ucast (of_nat (n mod 256) :: u8) :: u16) = n"
proof -
  let ?a = "of_nat (n div 256) :: u8" and ?b = "of_nat (n mod 256) :: u8"
  have ab: "unat ?a = n div 256" "unat ?b = n mod 256"
    using assms by (simp_all add: unat_of_nat_small)
  have dis: "(push_bit 8 (ucast ?a) :: u16) AND ucast ?b = 0"
    by (rule bit_word_eqI) (auto simp: bit_simps dest: bit_imp_le_length)
  have "(push_bit 8 (ucast ?a) OR ucast ?b :: u16) = of_nat (256 * unat ?a + unat ?b)"
    using disjunctive_add_eq_or [OF dis] by (simp add: push_bit_eq_mult unsigned_ucast_eq mult.commute)
  also have "\<dots> = of_nat n"
    unfolding ab by simp
  finally show ?thesis using assms by (simp add: unat_of_nat_small)
qed

lemma header_roundtrip_lemma:
  assumes sync: "opt_sync e d"
    and enc: "header_encrypt cr R rng kf e n = (Inr (hdr, hk), rng', e')"
  shows "\<exists>d'. header_decrypt cr kf d hdr = (Inr (n, hk), d') \<and> opt_sync e' d' \<and>
              length hdr = HEADER_SIZE \<and> 0 < n \<and> n \<le> PPP_BUFFER_SIZE"
proof -
  have n: "0 < n" "n \<le> 65536"
    using enc by (auto simp: header_encrypt_def np_consts split: if_splits)
  obtain sd where rnd: "rand_u8 R 1 0xff rng = (sd, rng')"
    and hk: "hk = kf XOR ucast sd"
    using enc n
    by (auto simp: header_encrypt_def Let_def np_consts split: if_splits prod.splits)
  let ?lb = "[of_nat ((n - 1) div 256), of_nat ((n - 1) mod 256)] :: bytes"
  obtain ct where op: "opt_apply cr e ?lb = (ct, e')"
    and hdr: "hdr = delta_encode (sd # shuffle (map (\<lambda>b. b XOR ucast hk) ct) hk) kf"
    using enc n rnd
    by (auto simp: header_encrypt_def Let_def np_consts hk split: if_splits prod.splits)
  obtain d' where d': "opt_apply cr d ct = (?lb, d')" "opt_sync e' d'" and len: "length ct = 2"
    using opt_apply_sync [OF sync op] by auto
  have "delta_decode hdr kf = sd # shuffle (map (\<lambda>b. b XOR ucast hk) ct) hk"
    unfolding hdr using len by (intro delta.dec_enc) simp
  moreover have "unshuffle (shuffle (map (\<lambda>b. b XOR ucast hk) ct) hk) hk = map (\<lambda>b. b XOR ucast hk) ct"
    using len by (intro unshuffle_shuffle) simp
  ultimately have "header_decrypt cr kf d hdr = (Inr (n, hk), d')"
    using d'(1) n unat_len_bytes [of "n - 1"]
    by (simp add: header_decrypt_def Let_def hk [symmetric] comp_def)
  then show ?thesis
    using d'(2) n len by (simp add: hdr np_consts)
qed

lemma header_decrypt_total:
  "\<exists>n hk p'. header_decrypt cr kf p h = (Inr (n, hk), p') \<and> 0 < n \<and> n \<le> PPP_BUFFER_SIZE"
proof -
  have "unat (w :: u16) + 1 \<le> 65536" for w using unat_lt_u16 [of w] by simp
  then show ?thesis
    by (auto simp: header_decrypt_def Let_def np_consts split: prod.splits)
qed

end
