(* ===== verification/Checksum.thy ===== *)
theory Checksum
  imports NP_Prelude
begin

text \<open>
  \<^verbatim>\<open>crates/core/src/frame/checksum.rs\<close>: the Internet checksum of RFC 1071.  The sum is kept in
  32 bits as in the source; the carry-folding loop is a recursion whose termination is proved, and
  the result is characterised as the one's complement of the sum of the 16-bit words modulo 65535.
\<close>

fun chksum_words :: "u32 \<Rightarrow> bytes \<Rightarrow> u32" where
  "chksum_words sm (a # b # rest) = chksum_words (sm + ucast (from_be [a, b] :: u16)) rest"
| "chksum_words sm [b] = sm + push_bit 8 (ucast b)"
| "chksum_words sm [] = sm"

lemma low_half: "(s :: u32) AND 0xffff = take_bit 16 s"
  by (simp add: take_bit_eq_mask mask_numeral)

lemma unat_high_half: "unat (drop_bit 16 (s :: u32)) = unat s div 65536"
  by (subst unat_drop_bit_eq) (simp add: drop_bit_eq_div)

lemma fold_carry_less:
  fixes s :: u32
  assumes "drop_bit 16 s \<noteq> 0"
  shows "unat ((s AND 0xffff) + drop_bit 16 s) = unat s mod 65536 + unat s div 65536"
    and "unat s mod 65536 + unat s div 65536 < unat s"
proof -
  have lo: "unat (s AND 0xffff) = unat s mod 65536"
    unfolding low_half by (subst unsigned_take_bit_eq) (simp add: take_bit_eq_mod)
  have hi: "unat (drop_bit 16 s) = unat s div 65536"
    by (rule unat_high_half)
  have "unat s mod 65536 + unat s div 65536 < 2 ^ LENGTH(32)"
    using unat_lt_u32 [of s] by simp
  then show "unat ((s AND 0xffff) + drop_bit 16 s) = unat s mod 65536 + unat s div 65536"
    by (subst unat_add_small) (simp_all add: lo hi)
  have "unat s div 65536 \<noteq> 0"
    using assms hi by (metis unat_0_iff)
  then show "unat s mod 65536 + unat s div 65536 < unat s"
    using div_mult_mod_eq [of "unat s" 65536] by linarith
qed

function fold_carry :: "u32 \<Rightarrow> u32" where
  "fold_carry sm =
     (if drop_bit 16 sm \<noteq> 0 then fold_carry ((sm AND 0xffff) + drop_bit 16 sm) else sm)"
  by pat_completeness auto
termination
  by (relation "measure unat") (simp_all add: fold_carry_less del: unat_arith_simps)

declare fold_carry.simps [simp del]

definition inet_chksum :: "bytes \<Rightarrow> u16" where
  "inet_chksum data = NOT (ucast (fold_carry (chksum_words 0 data)))"

subsection \<open>The specification: a sum of big-endian words modulo 65535\<close>

fun be_word_sum :: "bytes \<Rightarrow> nat" where
  "be_word_sum (a # b # rest) = 256 * unat a + unat b + be_word_sum rest"
| "be_word_sum [b] = 256 * unat b"
| "be_word_sum [] = 0"

lemma fold_carry_spec:
  "unat (fold_carry s) < 65536 \<and> unat (fold_carry s) mod 65535 = unat s mod 65535 \<and>
   (fold_carry s = 0 \<longleftrightarrow> s = 0)"
proof (induction s rule: fold_carry.induct)
  case (1 s)
  show ?case
  proof (cases "drop_bit 16 s = 0")
    case True
    then have "unat s div 65536 = 0"
      unfolding unat_high_half [symmetric] by simp
    then have "unat s < 65536" by (simp add: div_eq_0_iff)
    with True show ?thesis by (simp add: fold_carry.simps)
  next
    case False
    let ?t = "(s AND 0xffff) + drop_bit 16 s"
    have t: "unat ?t = unat s mod 65536 + unat s div 65536"
      by (rule fold_carry_less(1) [OF False])
    have "unat s = unat s div 65536 * 65535 + unat ?t"
      using div_mult_mod_eq [of "unat s" 65536] by (simp add: t)
    then have "unat s mod 65535 = unat ?t mod 65535"
      by (metis mod_mult_self3)
    moreover have "s \<noteq> 0" "?t \<noteq> 0"
    proof -
      show "s \<noteq> 0" using False by auto
      then have "0 < unat s" by (simp add: unat_gt_0)
      then have "0 < unat ?t" unfolding t by (metis add_gr_0 div_mult_mod_eq mult_is_0 neq0_conv)
      then show "?t \<noteq> 0" by auto
    qed
    ultimately show ?thesis
      using 1 False by (simp add: fold_carry.simps [of s])
  qed
qed

lemma unat_be_pair: "unat (ucast (from_be [a, b] :: u16) :: u32) = 256 * unat a + unat b"
proof -
  have "(from_be [a, b] :: u16) = of_nat (256 * unat a + unat b)"
  proof -
    have dis: "(ucast b :: u16) AND push_bit 8 (ucast a) = 0"
      by (rule bit_word_eqI) (auto simp: bit_simps dest: bit_imp_le_length)
    have "(from_be [a, b] :: u16) = ucast b + push_bit 8 (ucast a)"
      using disjunctive_add_eq_or [OF dis] by (simp add: from_be_def)
    also have "\<dots> = of_nat (unat b) + 256 * of_nat (unat a)"
      by (simp add: push_bit_eq_mult unsigned_ucast_eq)
    finally show ?thesis by simp
  qed
  moreover have "unat (of_nat (256 * unat a + unat b) :: u16) = 256 * unat a + unat b"
    using unat_lt_u8 [of a] unat_lt_u8 [of b] by (intro unat_of_nat_small) simp
  ultimately have "unat (from_be [a, b] :: u16) = 256 * unat a + unat b"
    by (simp only:)
  moreover have "unat (ucast (from_be [a, b] :: u16) :: u32) = unat (from_be [a, b] :: u16)"
    by (rule unat_ucast_up) simp
  ultimately show ?thesis by (simp only:)
qed

lemma unat_push_8: "unat (push_bit 8 (ucast (b :: u8)) :: u32) = 256 * unat b"
proof -
  have "(push_bit 8 (ucast b) :: u32) = ucast b * 256"
    by (simp add: push_bit_eq_mult)
  moreover have "unat (ucast b :: u32) = unat b"
    by (rule unat_ucast_up) simp
  ultimately show ?thesis
    using unat_lt_u8 [of b] by (simp add: unat_word_ariths)
qed

lemma be_word_sum_bound: "be_word_sum xs \<le> 65535 * length xs"
proof (induction xs rule: be_word_sum.induct)
  case (1 a b rest)
  then show ?case using unat_lt_u8 [of a] unat_lt_u8 [of b] by simp
next
  case (2 b)
  then show ?case using unat_lt_u8 [of b] by simp
qed simp

lemma chksum_words_sum:
  "unat s + be_word_sum xs < 2 ^ 32 \<Longrightarrow> unat (chksum_words s xs) = unat s + be_word_sum xs"
proof (induction s xs rule: chksum_words.induct)
  case (1 s a b rest)
  then have "unat (s + ucast (from_be [a, b] :: u16)) = unat s + (256 * unat a + unat b)"
    by (subst unat_add_small) (simp_all add: unat_be_pair)
  with 1 show ?case by simp
next
  case (2 s b)
  then show ?case by (simp, subst unat_add_small) (simp_all add: unat_push_8)
qed simp

text \<open>
  On every input short enough not to overflow the 32-bit sum (the frame headers have four bytes)
  the complement of the checksum is the one's-complement sum of the big-endian words.
\<close>

lemma inet_chksum_spec:
  assumes "length xs \<le> 65536"
  shows "unat (NOT (inet_chksum xs)) mod 65535 = be_word_sum xs mod 65535"
    and "NOT (inet_chksum xs) = 0 \<longleftrightarrow> be_word_sum xs = 0"
proof -
  have "be_word_sum xs < 2 ^ 32"
    using be_word_sum_bound [of xs] assms by (simp add: less_le_trans)
  then have s: "unat (chksum_words 0 xs) = be_word_sum xs"
    using chksum_words_sum [of 0 xs] by simp
  have fc: "unat (ucast (fold_carry (chksum_words 0 xs)) :: u16) = unat (fold_carry (chksum_words 0 xs))"
    using fold_carry_spec [of "chksum_words 0 xs"] by (simp add: unat_ucast_mod)
  then show "unat (NOT (inet_chksum xs)) mod 65535 = be_word_sum xs mod 65535"
    using fold_carry_spec [of "chksum_words 0 xs"] s by (simp add: inet_chksum_def)
  show "NOT (inet_chksum xs) = 0 \<longleftrightarrow> be_word_sum xs = 0"
    using fold_carry_spec [of "chksum_words 0 xs"] s fc
    by (simp add: inet_chksum_def) (metis unat_0_iff)
qed

subsection \<open>Property\<close>

text \<open>
  The checksum is the one's complement of the one's-complement sum of the big-endian 16-bit
  words: its complement is congruent to that sum modulo 65535, and is zero only for the zero sum.
\<close>

theorem checksum_is_ones_complement_sum:
  assumes "length xs \<le> 65536"
  shows "unat (NOT (inet_chksum xs)) mod 65535 = be_word_sum xs mod 65535 \<and>
         (NOT (inet_chksum xs) = 0 \<longleftrightarrow> be_word_sum xs = 0)"
  using inet_chksum_spec [OF assms] by simp

theorem checksum_is_ones_complement_sum_witness:
  "unat (NOT (inet_chksum [0x45, 0x00, 0x1c])) mod 65535 = (0x4500 + 0x1c00) mod 65535"
  using checksum_is_ones_complement_sum [of "[0x45, 0x00, 0x1c]"] by simp

end
