(* ===== verification/Base94_Frame.thy ===== *)
theory Base94_Frame
  imports Binary_Frame Checksum
begin

text \<open>
  \<^verbatim>\<open>crates/core/src/frame/base94.rs\<close>: the printable envelope.  The base94 coder itself is the
  third-party crate \<^verbatim>\<open>base94_simd\<close>; it is the parameter \<open>base94_ops\<close>, and \<open>base94_ok\<close> states what
  the framing relies on.  The first frame of a direction has a seven-byte header with a checksum,
  every later one a four-byte header; the framer's two flags are its state.
\<close>

subsection \<open>The base94 coder\<close>

record base94_ops =
  b94_encoded_len :: "bytes \<Rightarrow> u32 \<Rightarrow> nat"
  b94_encode :: "bytes \<Rightarrow> u32 \<Rightarrow> nat \<Rightarrow> bytes"
  b94_decode :: "bytes \<Rightarrow> u32 \<Rightarrow> bytes option"
  b94_decimal_encode :: "u64 \<Rightarrow> bytes"
  b94_decimal_decode :: "bytes \<Rightarrow> u64 option"

definition printable :: "u8 \<Rightarrow> bool" where
  "printable b \<longleftrightarrow> 0x20 \<le> b \<and> b \<le> 0x7e"

text \<open>The payload coder: an exact length, at most two symbols a byte, and decoding inverts it.\<close>

definition b94_payload_ok :: "base94_ops \<Rightarrow> bool" where
  "b94_payload_ok B \<longleftrightarrow>
     (\<forall>d kf. let e = b94_encode B d kf (b94_encoded_len B d kf)
             in length e = b94_encoded_len B d kf \<and> length d \<le> length e \<and>
                length e \<le> 2 * length d \<and> list_all printable e \<and> b94_decode B e kf = Some d)"

text \<open>
  The decimal coder: a number below \<open>94 ^ 3\<close> takes one to three printable digits, three digits
  never start with the zero digit \<open>0x20\<close>, and leading zero digits do not change the value.
\<close>

definition b94_decimal_ok :: "base94_ops \<Rightarrow> bool" where
  "b94_decimal_ok B \<longleftrightarrow>
     (\<forall>n. unat n < 94 ^ 3 \<longrightarrow>
        (let ds = b94_decimal_encode B n
         in 1 \<le> length ds \<and> length ds \<le> 3 \<and> list_all printable ds \<and>
            (length ds = 3 \<longrightarrow> hd ds \<noteq> 0x20) \<and>
            b94_decimal_decode B (replicate (3 - length ds) 0x20 @ ds) = Some n))"

definition base94_ok :: "base94_ops \<Rightarrow> bool" where
  "base94_ok B \<longleftrightarrow> b94_payload_ok B \<and> b94_decimal_ok B"

subsection \<open>The framer\<close>

definition HEADER_SIMPLE :: nat where [np_consts]: "HEADER_SIMPLE = 4"
definition HEADER_EXTENDED :: nat where [np_consts]: "HEADER_EXTENDED = 7"

record framer =
  fr_kf :: u32
  fr_mod :: u32
  fr_kf_mod :: u32
  fr_tx_first :: bool
  fr_rx_first :: bool

text \<open>The truncated remainder of Rust's signed integers.\<close>

definition rust_rem :: "int \<Rightarrow> int \<Rightarrow> int" where
  "rust_rem a b = sgn a * (\<bar>a\<bar> mod \<bar>b\<bar>)"

definition framer_new :: "u32 \<Rightarrow> framer" where
  "framer_new kf =
     (let modulus = fst (lcg_range kf MOD_MIN MOD_MAX);
          kf_mod = of_int \<bar>rust_rem (sint kf) (sint modulus)\<bar>
      in \<lparr>fr_kf = kf, fr_mod = modulus, fr_kf_mod = kf_mod, fr_tx_first = True, fr_rx_first = True\<rparr>)"

definition header_parity ::
  "'r rng_ops \<Rightarrow> 'r \<Rightarrow> u8 \<Rightarrow> bytes \<Rightarrow> bytes \<times> 'r" where
  "header_parity R rng k h =
     (if h ! 1 = 0x20 then
        let k' = (if k AND 1 \<noteq> 0 then k + 1 else k);
            (filler, rng') = rand_u8 R 0x20 0x7e rng
        in (h[1 := filler, 0 := k'], rng')
      else if k AND 1 = 0 then
        let k' = k + 1; k'' = (if k' > 0x7e then 0x21 else k')
        in (h[0 := k''], rng)
      else (h[0 := k], rng))"

definition encode_header ::
  "base94_ops \<Rightarrow> 'r rng_ops \<Rightarrow> framer \<Rightarrow> 'r \<Rightarrow> nat \<Rightarrow> (bytes \<times> nat) core_result \<times> 'r \<times> framer" where
  "encode_header B R fr rng len =
     (let n = (of_nat len + fr_kf_mod fr) mod fr_mod fr;
          digits = b94_decimal_encode B (ucast n);
          dl = length digits
      in
        if dl = 0 \<or> dl \<ge> HEADER_SIMPLE then (Inl InvalidFrame, rng, fr)
        else
          let h0 = put_slice (HEADER_SIMPLE - dl) digits (replicate HEADER_EXTENDED 0x20);
              (k, rng1) = rand_u8 R 0x20 0x7e rng;
              (h1, rng2) = header_parity R rng1 k h0;
              h2 = swap_at 2 3 h1
          in
            if fr_tx_first fr then
              let chk = ucast (inet_chksum (take HEADER_SIMPLE h2)) XOR of_nat len;
                  cn = (chk + fr_kf_mod fr) mod fr_mod fr;
                  cdigits = b94_decimal_encode B (ucast cn);
                  cl = length cdigits
              in
                if cl = 0 \<or> cl > HEADER_EXTENDED - HEADER_SIMPLE
                then (Inl InvalidFrame, rng2, fr)
                else
                  let h3 = put_slice (HEADER_EXTENDED - cl) cdigits h2;
                      h4 = take HEADER_SIMPLE h3 @ shuffle (drop HEADER_SIMPLE h3) (fr_kf fr)
                  in (Inr (h4, HEADER_EXTENDED), rng2, fr\<lparr>fr_tx_first := False\<rparr>)
            else (Inr (h2, HEADER_SIMPLE), rng2, fr))"

definition encode_frame ::
  "base94_ops \<Rightarrow> 'r rng_ops \<Rightarrow> framer \<Rightarrow> 'r \<Rightarrow> bytes \<Rightarrow> bytes \<Rightarrow>
   unit core_result \<times> 'r \<times> framer \<times> bytes" where
  "encode_frame B R fr rng out binary =
     (if binary = [] then (Inl ZeroLength, rng, fr, out)
      else
        let encoded_len = b94_encoded_len B binary (fr_kf fr)
        in
          if encoded_len > BASE94_MAX_FRAME
          then (Inl (FrameTooLarge encoded_len), rng, fr, out)
          else case encode_header B R fr rng encoded_len of
            (Inl e, rng', fr') \<Rightarrow> (Inl e, rng', fr', out)
          | (Inr (header, hlen), rng', fr') \<Rightarrow>
              (Inr (), rng', fr',
               out @ take hlen header @ b94_encode B binary (fr_kf fr) encoded_len))"

definition restore_header :: "bytes \<Rightarrow> bytes" where
  "restore_header h =
     (let h1 = (if h ! 0 AND 1 = 0 then h[1 := 0x20] else h)
      in swap_at 2 3 (h1[0 := 0x20]))"

definition decode_length :: "base94_ops \<Rightarrow> framer \<Rightarrow> bytes \<Rightarrow> u32 core_result" where
  "decode_length B fr digits =
     (case from_decode_error (b94_decimal_decode B digits) of
        Inl e \<Rightarrow> Inl e
      | Inr n \<Rightarrow> Inr (ucast ((n + ucast (fr_mod fr - fr_kf_mod fr)) mod ucast (fr_mod fr))))"

definition decode_header_extended :: "base94_ops \<Rightarrow> framer \<Rightarrow> bytes \<Rightarrow> nat core_result" where
  "decode_header_extended B fr h =
     (let chk = ucast (inet_chksum (take HEADER_SIMPLE h));
          h1 = restore_header (take HEADER_SIMPLE h)
      in case decode_length B fr (drop 1 h1) of
        Inl e \<Rightarrow> Inl e
      | Inr payload_length \<Rightarrow>
          if payload_length < 1 then Inl InvalidFrame
          else case decode_length B fr (unshuffle (drop HEADER_SIMPLE h) (fr_kf fr)) of
            Inl e \<Rightarrow> Inl e
          | Inr n \<Rightarrow>
              if n \<noteq> chk XOR payload_length then Inl ChecksumMismatch
              else Inr (unat payload_length))"

definition decode_header_simple :: "base94_ops \<Rightarrow> framer \<Rightarrow> bytes \<Rightarrow> nat core_result" where
  "decode_header_simple B fr h =
     (case decode_length B fr (drop 1 (restore_header h)) of
        Inl e \<Rightarrow> Inl e
      | Inr len \<Rightarrow> if len < 1 then Inl InvalidFrame else Inr (unat len))"

definition check_bound :: "nat \<Rightarrow> unit core_result" where
  "check_bound len = (if len > BASE94_MAX_FRAME then Inl (FrameTooLarge len) else Inr ())"

text \<open>
  The header of the next frame and its body length, as \<open>peek_frame_len\<close>, \<open>read_frame_into\<close> and
  \<open>decode_packet_into\<close> all begin: extended or simple by the first-frame flag, then bounded.
\<close>

definition rx_header_len :: "framer \<Rightarrow> nat" where
  "rx_header_len fr = (if fr_rx_first fr then HEADER_EXTENDED else HEADER_SIMPLE)"

definition decode_header :: "base94_ops \<Rightarrow> framer \<Rightarrow> bytes \<Rightarrow> nat core_result" where
  "decode_header B fr header =
     (case (if fr_rx_first fr then decode_header_extended B fr header
            else decode_header_simple B fr header) of
        Inl e \<Rightarrow> Inl e
      | Inr len \<Rightarrow> (case check_bound len of Inl e \<Rightarrow> Inl e | Inr _ \<Rightarrow> Inr len))"

definition peek_frame_len :: "base94_ops \<Rightarrow> framer \<Rightarrow> bytes \<Rightarrow> nat option core_result" where
  "peek_frame_len B fr buf =
     (if length buf < rx_header_len fr then Inr None
      else case decode_header B fr (take (rx_header_len fr) buf) of
        Inl e \<Rightarrow> Inl e
      | Inr len \<Rightarrow> Inr (Some (rx_header_len fr + len)))"

text \<open>The returned bytes are the caller's \<open>out\<close> buffer after a successful call.\<close>

definition read_frame_into ::
  "base94_ops \<Rightarrow> framer \<Rightarrow> transport \<Rightarrow> bytes core_result \<times> framer \<times> transport" where
  "read_frame_into B fr io =
     (case read_exact (rx_header_len fr) io of
        (Inl e, io1) \<Rightarrow> (Inl e, fr, io1)
      | (Inr header, io1) \<Rightarrow>
          (case decode_header B fr header of
             Inl e \<Rightarrow> (Inl e, fr, io1)
           | Inr len \<Rightarrow>
               (case read_upto len io1 of
                  (Inl e, io2) \<Rightarrow> (Inl e, fr, io2)
                | (Inr scratch, io2) \<Rightarrow>
                    if length scratch \<noteq> len then (Inl (Io UnexpectedEof), fr, io2)
                    else (case from_decode_error (b94_decode B scratch (fr_kf fr)) of
                            Inl e \<Rightarrow> (Inl e, fr, io2)
                          | Inr out \<Rightarrow> (Inr out, fr\<lparr>fr_rx_first := False\<rparr>, io2)))))"

definition decode_packet_into :: "base94_ops \<Rightarrow> framer \<Rightarrow> bytes \<Rightarrow> bytes core_result \<times> framer" where
  "decode_packet_into B fr packet =
     (if length packet < rx_header_len fr then (Inl InvalidFrame, fr)
      else case decode_header B fr (take (rx_header_len fr) packet) of
        Inl e \<Rightarrow> (Inl e, fr)
      | Inr len \<Rightarrow>
          if len + rx_header_len fr \<noteq> length packet then (Inl InvalidFrame, fr)
          else (case from_decode_error (b94_decode B (drop (rx_header_len fr) packet) (fr_kf fr)) of
                  Inl e \<Rightarrow> (Inl e, fr)
                | Inr out \<Rightarrow> (Inr out, fr\<lparr>fr_rx_first := False\<rparr>)))"

subsection \<open>The length modulus\<close>

definition framer_wf :: "framer \<Rightarrow> bool" where
  "framer_wf fr \<longleftrightarrow>
     unat MOD_MIN \<le> unat (fr_mod fr) \<and> unat (fr_mod fr) \<le> unat MOD_MAX \<and>
     unat (fr_kf_mod fr) < unat (fr_mod fr)"

lemma abs_rust_rem:
  assumes "0 < b"
  shows "\<bar>rust_rem a b\<bar> < b"
proof -
  have "0 \<le> \<bar>a\<bar> mod b" "\<bar>a\<bar> mod b < b" using assms by simp_all
  then have "\<bar>\<bar>a\<bar> mod b\<bar> < b" by linarith
  then show ?thesis using assms by (simp add: rust_rem_def abs_mult abs_sgn_eq)
qed

lemma framer_new_wf: "framer_wf (framer_new kf)"
proof -
  let ?m = "fst (lcg_range kf MOD_MIN MOD_MAX)"
  have m: "unat MOD_MIN \<le> unat ?m" "unat ?m \<le> unat MOD_MAX"
    using lcg_range_bounds [of MOD_MIN MOD_MAX kf]
    by (simp_all add: np_consts word_le_nat_alt)
  then have b: "262144 \<le> unat ?m" "unat ?m \<le> 830584" by (simp_all add: np_consts)
  have "int (unat ?m) \<le> 830584" "262144 \<le> int (unat ?m)" using b by linarith+
  then have "sint ?m = int (unat ?m)" "0 < int (unat ?m)"
    by (simp_all add: sint_uint signed_take_bit_int_eq_self_iff)
  then have lt: "\<bar>rust_rem (sint kf) (sint ?m)\<bar> < int (unat ?m)"
    using abs_rust_rem by metis
  define x where "x = \<bar>rust_rem (sint kf) (sint ?m)\<bar>"
  have x: "0 \<le> x" "x < 830584" "nat x < unat ?m"
  proof -
    show "0 \<le> x" by (simp add: x_def)
    then show "x < 830584" "nat x < unat ?m"
      using lt b unfolding x_def [symmetric] by linarith+
  qed
  have "unat (of_nat (nat x) :: u32) = nat x"
    using x by (intro unat_of_nat_small) simp
  then have "unat (of_int x :: u32) = nat x"
    using x(1) by simp
  then have "unat (of_int \<bar>rust_rem (sint kf) (sint ?m)\<bar> :: u32) < unat ?m"
    using x(3) by (simp add: x_def)
  with m show ?thesis
    by (simp add: framer_wf_def framer_new_def Let_def)
qed

text \<open>Subtracting \<open>kf_mod\<close> modulo \<open>mod\<close> undoes adding it.\<close>

lemma unobfuscate_length:
  fixes a m k :: nat
  assumes "a < m" "k < m"
  shows "((a + k) mod m + (m - k)) mod m = a"
proof -
  have "((a + k) mod m + (m - k)) mod m = (a + k + (m - k)) mod m"
    by (simp add: mod_add_left_eq)
  also have "a + k + (m - k) = a + m" using assms by simp
  finally show ?thesis using assms by simp
qed

lemma framer_wfD:
  assumes "framer_wf fr"
  shows "262144 \<le> unat (fr_mod fr)" "unat (fr_mod fr) \<le> 830584"
    "unat (fr_kf_mod fr) < unat (fr_mod fr)"
  using assms by (simp_all add: framer_wf_def np_consts)

lemma obfuscated_field:
  assumes wf: "framer_wf fr" and w: "unat w < 262144"
  defines "n \<equiv> (w + fr_kf_mod fr) mod fr_mod fr"
  shows "unat (ucast n :: u64) = (unat w + unat (fr_kf_mod fr)) mod unat (fr_mod fr)"
    and "unat (ucast n :: u64) < 94 ^ 3"
proof -
  note b = framer_wfD [OF wf]
  have "unat (w + fr_kf_mod fr) = unat w + unat (fr_kf_mod fr)"
    using b w by (intro unat_add_small) simp
  then have "unat n = (unat w + unat (fr_kf_mod fr)) mod unat (fr_mod fr)"
    by (simp add: n_def unat_mod)
  then show eq: "unat (ucast n :: u64) = (unat w + unat (fr_kf_mod fr)) mod unat (fr_mod fr)"
    by (simp add: unat_ucast_up)
  have "(unat w + unat (fr_kf_mod fr)) mod unat (fr_mod fr) < unat (fr_mod fr)"
    using b by (intro mod_less_divisor) linarith
  with b(2) show "unat (ucast n :: u64) < 94 ^ 3"
    unfolding eq by simp
qed

lemma decode_length_field:
  assumes wf: "framer_wf fr" and w: "unat w < 262144"
    and dec: "b94_decimal_decode B ds = Some (ucast ((w + fr_kf_mod fr) mod fr_mod fr))"
  shows "decode_length B fr ds = Inr w"
proof -
  note b = framer_wfD [OF wf]
  let ?n = "ucast ((w + fr_kf_mod fr) mod fr_mod fr) :: u64"
  let ?s = "?n + ucast (fr_mod fr - fr_kf_mod fr)"
  have sub: "unat (ucast (fr_mod fr - fr_kf_mod fr) :: u64) =
             unat (fr_mod fr) - unat (fr_kf_mod fr)"
    using b(3) by (simp add: unat_ucast_up unat_sub word_le_nat_alt)
  have "unat ?s = unat ?n + (unat (fr_mod fr) - unat (fr_kf_mod fr))"
    using obfuscated_field(2) [OF wf w] b sub by (subst unat_add_small) simp_all
  then have "unat (?s mod ucast (fr_mod fr)) = unat w"
    using obfuscated_field(1) [OF wf w] unobfuscate_length [of "unat w" "unat (fr_mod fr)"] b w
    by (simp add: unat_mod unat_ucast_up)
  then have "unat (ucast (?s mod ucast (fr_mod fr)) :: u32) = unat w"
    using unat_lt_u32 [of w] by (simp add: unat_ucast_mod)
  then have "ucast (?s mod ucast (fr_mod fr)) = w"
    by (simp only: word_unat_eq_iff)
  then show ?thesis
    by (simp add: decode_length_def dec from_decode_error_def)
qed

subsection \<open>The parity trick\<close>

lemma and_one_iff: "(k :: u8) AND 1 = 0 \<longleftrightarrow> even k"
  by (simp add: and_one_eq even_iff_mod_2_eq_zero)

lemma printable_unat: "printable b \<longleftrightarrow> 32 \<le> unat b \<and> unat b \<le> 126"
  by (simp add: printable_def word_le_nat_alt)

lemma printable_succ_odd:
  assumes "printable k" "odd k"
  shows "printable (k + 1)"
proof -
  have "odd (unat k)"
    using assms(2) by (simp add: bit_0 [symmetric] bit_unsigned_iff del: bit_0)
  then have "unat k \<noteq> 126" by (metis even_numeral)
  moreover have "unat (k + 1) = unat k + 1"
    using assms(1) by (subst unat_add_small) (simp_all add: printable_unat)
  ultimately show ?thesis using assms(1) by (simp add: printable_unat)
qed

lemma list_all_update: "list_all P xs \<Longrightarrow> P b \<Longrightarrow> list_all P (xs[i := b])"
  using set_update_subset_insert [of xs i b] by (auto simp: list_all_iff)

text \<open>
  A header before the digit swap: the first byte is even exactly when the digit slot was blank,
  every byte is printable and the last two digits are untouched.
\<close>

lemma header_parity_spec:
  assumes rng: "rng_ok R" and k: "printable k" and par: "header_parity R rng k h = (h', rng')"
    and len: "2 \<le> length h" and pr: "list_all printable h"
  shows "length h' = length h \<and> (even (h' ! 0) \<longleftrightarrow> h ! 1 = 0x20) \<and>
         (h ! 1 \<noteq> 0x20 \<longrightarrow> h' ! 1 = h ! 1) \<and> drop 2 h' = drop 2 h \<and> list_all printable h'"
proof -
  have ne: "h \<noteq> []" using len by auto
  note upd = list_all_update [OF pr] and upd2 = list_all_update [OF list_all_update [OF pr]]
  show ?thesis
  proof (cases "h ! 1 = 0x20")
    case True
    obtain f where f: "rand_u8 R 0x20 0x7e rng = (f, rng')"
      and h': "h' = h[1 := f, 0 := if k AND 1 \<noteq> 0 then k + 1 else k]"
      using par True by (auto simp: header_parity_def Let_def split: prod.splits if_splits)
    have "printable f" using rand_u8_bounds [OF rng f] by (simp add: printable_unat)
    moreover have "printable (if k AND 1 \<noteq> 0 then k + 1 else k)"
      using k printable_succ_odd by (simp add: and_one_iff)
    ultimately show ?thesis
      using True len ne upd2 by (simp add: h' and_one_iff)
  next
    case False
    define k2 where "k2 = (if k AND 1 = 0 then (if k + 1 > 0x7e then 0x21 else k + 1) else k)"
    have h': "h' = h[0 := k2]"
      using par False by (auto simp: header_parity_def Let_def k2_def split: if_splits)
    have "odd k2" by (simp add: k2_def and_one_iff)
    moreover have "printable k2"
    proof (cases "k = 0x7e")
      case True then show ?thesis by (simp add: k2_def and_one_iff printable_def)
    next
      case False
      then have "unat k \<noteq> 126" by (auto simp: word_unat_eq_iff)
      then have "unat (k + 1) = unat k + 1" "unat k < 126"
        using k by (simp_all add: printable_unat unat_add_small)
      then show ?thesis
        using k by (simp add: k2_def printable_unat word_less_nat_alt)
    qed
    ultimately show ?thesis
      using False len ne upd by (simp add: h')
  qed
qed

subsection \<open>Header round trip\<close>

lemma b94_decimalD:
  assumes "base94_ok B" "unat n < 94 ^ 3" "ds = b94_decimal_encode B n"
  shows "1 \<le> length ds" "length ds \<le> 3" "list_all printable ds"
    "length ds = 3 \<Longrightarrow> hd ds \<noteq> 0x20"
    "b94_decimal_decode B (replicate (3 - length ds) 0x20 @ ds) = Some n"
  using assms by (auto simp: base94_ok_def b94_decimal_ok_def Let_def)

lemma list_3_cases:
  assumes "length xs = 3" obtains a b c where "xs = [a, b, c]"
  using assms by (auto simp: numeral_eq_Suc length_Suc_conv)

text \<open>The digits right-aligned in their three slots, padded with the zero digit.\<close>

lemma pad_digits:
  assumes "base94_ok B" "unat n < 94 ^ 3"
  obtains a b c where
    "list_all printable [a, b, c]" "b94_decimal_decode B [a, b, c] = Some n"
    "\<And>pre post. put_slice (length pre + 3 - length (b94_decimal_encode B n))
        (b94_decimal_encode B n) (pre @ [0x20, 0x20, 0x20] @ post) = pre @ [a, b, c] @ post"
proof -
  let ?ds = "b94_decimal_encode B n"
  note D = b94_decimalD [OF assms refl]
  let ?p = "replicate (3 - length ?ds) 0x20 @ ?ds"
  have "length ?p = 3" using D(2) by simp
  then obtain a b c where p: "?p = [a, b, c]" by (rule list_3_cases)
  have put: "put_slice (length pre + 3 - length ?ds) ?ds (pre @ [0x20, 0x20, 0x20] @ post) =
      pre @ [a, b, c] @ post" for pre post
  proof -
    have r3: "[0x20, 0x20, 0x20] = replicate 3 (0x20 :: u8)" by (simp add: numeral_3_eq_3)
    have "length pre + 3 - length ?ds = length pre + (3 - length ?ds)" using D(2) by simp
    then have "put_slice (length pre + 3 - length ?ds) ?ds (pre @ [0x20, 0x20, 0x20] @ post) =
        pre @ ?p @ post"
      unfolding r3 using D(1,2) by (simp add: put_slice_def)
    then show ?thesis by (simp only: p)
  qed
  have "list_all printable ?p" using D(3) by (auto simp: list_all_iff printable_def)
  moreover have "b94_decimal_decode B ?p = Some n" by (rule D(5))
  ultimately show ?thesis using that p put by metis
qed

lemma decimal_length_checks:
  assumes "base94_ok B" "unat n < 94 ^ 3"
  shows "b94_decimal_encode B n \<noteq> []" "\<not> HEADER_SIMPLE \<le> length (b94_decimal_encode B n)"
    "\<not> HEADER_EXTENDED - HEADER_SIMPLE < length (b94_decimal_encode B n)"
  using b94_decimalD(1,2) [OF assms refl] by (auto simp: np_consts)

text \<open>Whatever the parity step did to the first two bytes, restoring yields the digits again.\<close>

lemma restore_swapped:
  assumes "length h = 4" "even (h ! 0) \<longleftrightarrow> a = 0x20" "a \<noteq> 0x20 \<longrightarrow> h ! 1 = a" "drop 2 h = [b, c]"
  shows "restore_header (swap_at 2 3 h) = [0x20, a, b, c]"
proof -
  obtain p q where h: "h = [p, q, b, c]"
    using assms(1,4) by (auto simp: numeral_eq_Suc length_Suc_conv)
  then show ?thesis
    using assms by (auto simp: restore_header_def Let_def swap_at_def and_one_iff)
qed

text \<open>
  The four-byte header both forms begin with: printable, and restored to the digits of \<open>len\<close>.
\<close>

lemma header_front:
  assumes B: "base94_ok B" and R: "rng_ok R" and wf: "framer_wf fr" and len: "len < 262144"
    and k: "rand_u8 R 0x20 0x7e rng = (k, rng1)"
    and par: "header_parity R rng1 k
      (put_slice (HEADER_SIMPLE - length (b94_decimal_encode B n)) (b94_decimal_encode B n)
        (replicate HEADER_EXTENDED 0x20)) = (h, rng2)"
    and n: "n = ucast ((of_nat len + fr_kf_mod fr) mod fr_mod fr)"
  shows "\<exists>g. swap_at 2 3 h = g @ [0x20, 0x20, 0x20] \<and> length g = 4 \<and> list_all printable g \<and>
             decode_length B fr (drop 1 (restore_header g)) = Inr (of_nat len)"
proof -
  have ul: "unat (of_nat len :: u32) = len" using len by (intro unat_of_nat_small) simp
  have n94: "unat n < 94 ^ 3"
    unfolding n using obfuscated_field(2) [OF wf] ul len by simp
  obtain a b c where pr: "list_all printable [a, b, c]"
    and dec: "b94_decimal_decode B [a, b, c] = Some n"
    and put: "\<And>pre post. put_slice (length pre + 3 - length (b94_decimal_encode B n))
        (b94_decimal_encode B n) (pre @ [0x20, 0x20, 0x20] @ post) = pre @ [a, b, c] @ post"
    using pad_digits [OF B n94] by metis
  have h0: "put_slice (HEADER_SIMPLE - length (b94_decimal_encode B n)) (b94_decimal_encode B n)
        (replicate HEADER_EXTENDED 0x20) = [0x20, a, b, c, 0x20, 0x20, 0x20]"
    using put [of "[0x20]" "[0x20, 0x20, 0x20]"] by (simp add: np_consts numeral_eq_Suc)
  have pk: "printable k" using rand_u8_bounds [OF R k] by (simp add: printable_unat)
  have p0: "list_all printable [0x20, a, b, c, 0x20, 0x20, 0x20]"
    using pr by (simp add: printable_def [of "0x20"])
  have spec: "length h = 7" "even (h ! 0) \<longleftrightarrow> a = 0x20" "a \<noteq> 0x20 \<longrightarrow> h ! 1 = a"
    "drop 2 h = [b, c, 0x20, 0x20, 0x20]" "list_all printable h"
    using header_parity_spec [OF R pk par [unfolded h0] _ p0] by simp_all
  then obtain p q where h: "h = [p, q, b, c, 0x20, 0x20, 0x20]"
    by (auto simp: numeral_eq_Suc length_Suc_conv)
  let ?g = "swap_at 2 3 [p, q, b, c]"
  have "restore_header ?g = [0x20, a, b, c]"
    using spec h by (intro restore_swapped) auto
  moreover have "decode_length B fr [a, b, c] = Inr (of_nat len)"
    using ul len dec n by (intro decode_length_field [OF wf]) simp_all
  moreover have "swap_at 2 3 h = ?g @ [0x20, 0x20, 0x20]"
    by (simp add: h swap_at_def)
  moreover have "list_all printable ?g"
    using spec(5) by (simp add: h swap_at_def)
  ultimately show ?thesis by (intro exI [of _ ?g]) simp
qed

text \<open>The sender's and the receiver's framer of one direction.\<close>

definition framer_sync :: "framer \<Rightarrow> framer \<Rightarrow> bool" where
  "framer_sync tx rx \<longleftrightarrow>
     framer_wf tx \<and> fr_kf rx = fr_kf tx \<and> fr_mod rx = fr_mod tx \<and> fr_kf_mod rx = fr_kf_mod tx \<and>
     fr_rx_first rx = fr_tx_first tx"

lemma decode_length_sync: "framer_sync tx rx \<Longrightarrow> decode_length B rx ds = decode_length B tx ds"
  by (simp add: framer_sync_def decode_length_def split: sum.split)

lemma framer_new_sync: "framer_sync (framer_new kf) (framer_new kf)"
  by (simp add: framer_sync_def framer_new_wf) (simp add: framer_new_def Let_def)

lemma checksum_field_small:
  assumes "len < 262144"
  shows "unat (ucast (c :: u16) XOR of_nat len :: u32) < 262144"
proof -
  have "take_bit 18 (ucast c :: u32) = ucast c"
    by (rule bit_word_eqI) (auto simp: bit_simps dest: bit_imp_le_length)
  moreover have "take_bit 18 (of_nat len :: u32) = of_nat len"
    unfolding take_bit_of_nat using assms by (simp add: take_bit_nat_eq_self)
  ultimately have "take_bit 18 (ucast c XOR of_nat len :: u32) = ucast c XOR of_nat len"
    by (simp add: take_bit_xor)
  then have "take_bit 18 (unat (ucast c XOR of_nat len :: u32)) = unat (ucast c XOR of_nat len :: u32)"
    by (metis unsigned_take_bit_eq)
  then show ?thesis by (simp add: take_bit_nat_eq_self_iff)
qed

lemma encode_header_ok:
  assumes B: "base94_ok B" and R: "rng_ok R" and sync: "framer_sync fr rx"
    and len: "0 < len" "len \<le> BASE94_MAX_FRAME"
  shows "\<exists>h hlen rng'. encode_header B R fr rng len =
      (Inr (h, hlen), rng', fr\<lparr>fr_tx_first := False\<rparr>) \<and>
      hlen = (if fr_tx_first fr then HEADER_EXTENDED else HEADER_SIMPLE) \<and>
      length (take hlen h) = hlen \<and> list_all printable (take hlen h) \<and>
      decode_header B rx (take hlen h) = Inr len"
proof -
  have wf: "framer_wf fr" using sync by (simp add: framer_sync_def)
  have l18: "len < 262144" using len by (simp add: np_consts)
  have ul: "unat (of_nat len :: u32) = len" using l18 by (intro unat_of_nat_small) simp
  have nz: "\<not> (of_nat len :: u32) < 1"
    using len(1) ul by (simp add: word_less_nat_alt)
  define n where "n = (ucast ((of_nat len + fr_kf_mod fr) mod fr_mod fr) :: u64)"
  have n94: "unat n < 94 ^ 3"
    unfolding n_def using obfuscated_field(2) [OF wf] ul l18 by simp
  obtain k rng1 where k: "rand_u8 R 0x20 0x7e rng = (k, rng1)" by fastforce
  obtain h1 rng2 where par: "header_parity R rng1 k
      (put_slice (HEADER_SIMPLE - length (b94_decimal_encode B n)) (b94_decimal_encode B n)
        (replicate HEADER_EXTENDED 0x20)) = (h1, rng2)" by fastforce
  obtain g where g: "swap_at 2 3 h1 = g @ [0x20, 0x20, 0x20]" "length g = 4" "list_all printable g"
    "decode_length B rx (drop 1 (restore_header g)) = Inr (of_nat len)"
    using header_front [OF B R wf l18 k par n_def] decode_length_sync [OF sync] by auto
  have bound: "check_bound len = Inr ()" using len by (simp add: check_bound_def)
  show ?thesis
  proof (cases "fr_tx_first fr")
    case False
    then show ?thesis
      using g nz ul k par n94 decimal_length_checks [OF B n94] sync bound
      by (simp add: encode_header_def n_def [symmetric] Let_def decode_header_def framer_sync_def
          decode_header_simple_def np_consts)
  next
    case True
    define chk where "chk = (ucast (inet_chksum g) XOR of_nat len :: u32)"
    have chk18: "unat chk < 262144" unfolding chk_def by (rule checksum_field_small [OF l18])
    define cn where "cn = (ucast ((chk + fr_kf_mod fr) mod fr_mod fr) :: u64)"
    have cn94: "unat cn < 94 ^ 3"
      unfolding cn_def using obfuscated_field(2) [OF wf chk18] .
    obtain a b c where pr: "list_all printable [a, b, c]"
      and dec: "b94_decimal_decode B [a, b, c] = Some cn"
      and put: "\<And>pre post. put_slice (length pre + 3 - length (b94_decimal_encode B cn))
        (b94_decimal_encode B cn) (pre @ [0x20, 0x20, 0x20] @ post) = pre @ [a, b, c] @ post"
      using pad_digits [OF B cn94] by metis
    have put': "put_slice (HEADER_EXTENDED - length (b94_decimal_encode B cn))
        (b94_decimal_encode B cn) (g @ [0x20, 0x20, 0x20]) = g @ [a, b, c]"
      using put [of g "[]"] g(2) by (simp add: np_consts)
    define h where "h = g @ shuffle [a, b, c] (fr_kf fr)"
    have enc: "encode_header B R fr rng len =
        (Inr (h, HEADER_EXTENDED), rng2, fr\<lparr>fr_tx_first := False\<rparr>)"
      using True g(1,2) k par decimal_length_checks [OF B n94] decimal_length_checks [OF B cn94] put'
      by (simp add: encode_header_def n_def [symmetric] Let_def chk_def [symmetric] h_def
          HEADER_SIMPLE_def cn_def [symmetric] HEADER_EXTENDED_def)
    have "decode_length B rx [a, b, c] = Inr chk"
      unfolding decode_length_sync [OF sync]
      by (rule decode_length_field [OF wf chk18 dec [unfolded cn_def]])
    moreover have "unshuffle (shuffle [a, b, c] (fr_kf fr)) (fr_kf fr) = [a, b, c]"
      by (rule unshuffle_shuffle) simp
    ultimately have "decode_header B rx h = Inr len"
      using True sync g nz ul bound
      by (simp add: h_def decode_header_def decode_header_extended_def framer_sync_def Let_def
          HEADER_SIMPLE_def chk_def)
    moreover have "set (shuffle [a, b, c] (fr_kf fr)) = set [a, b, c]"
      using mset_shuffle [of "[a, b, c]" "fr_kf fr"] by (intro mset_eq_setD) simp
    then have "list_all printable h"
      using pr g(3) by (simp add: h_def list_all_iff)
    ultimately show ?thesis
      using enc True g(2) by (simp add: h_def np_consts)
  qed
qed

subsection \<open>Frame round trip\<close>

text \<open>
  A wire frame that the receiver \<open>rx\<close> accepts as the packet \<open>bin\<close>.  Every way to receive a frame
  (the blocking reader, the in-memory decoder and the peek of the incremental decoder) is
  determined by it.
\<close>

definition frame_for :: "base94_ops \<Rightarrow> framer \<Rightarrow> bytes \<Rightarrow> bytes \<Rightarrow> bool" where
  "frame_for B rx frame bin \<longleftrightarrow>
     (\<exists>h body. frame = h @ body \<and> length h = rx_header_len rx \<and>
        decode_header B rx h = Inr (length body) \<and> b94_decode B body (fr_kf rx) = Some bin)"

lemma frame_for_decode_packet:
  "frame_for B rx frame bin \<Longrightarrow>
   decode_packet_into B rx frame = (Inr bin, rx\<lparr>fr_rx_first := False\<rparr>)"
  by (auto simp: frame_for_def decode_packet_into_def from_decode_error_def)

lemma frame_for_read_frame:
  "frame_for B rx frame bin \<Longrightarrow> tr_in io = frame @ rest \<Longrightarrow>
   read_frame_into B rx io = (Inr bin, rx\<lparr>fr_rx_first := False\<rparr>, io\<lparr>tr_in := rest\<rparr>)"
  by (auto simp: frame_for_def read_frame_into_def from_decode_error_def read_exact_append
      read_upto_append)

lemma frame_for_peek:
  "frame_for B rx frame bin \<Longrightarrow> peek_frame_len B rx (frame @ rest) = Inr (Some (length frame))"
  by (auto simp: frame_for_def peek_frame_len_def)

text \<open>A proper prefix of a frame is never mistaken for a complete one, nor for a broken one.\<close>

lemma frame_for_peek_prefix:
  assumes "frame_for B rx frame bin" "i < length frame"
  shows "peek_frame_len B rx (take i frame) = Inr None \<or>
         peek_frame_len B rx (take i frame) = Inr (Some (length frame))"
proof -
  obtain h body where f: "frame = h @ body" "length h = rx_header_len rx"
    "decode_header B rx h = Inr (length body)"
    using assms(1) by (auto simp: frame_for_def)
  show ?thesis
  proof (cases "i < rx_header_len rx")
    case True
    then show ?thesis using assms(2) by (simp add: peek_frame_len_def min_def)
  next
    case False
    then have "take (rx_header_len rx) (take i frame) = h"
      using f by (simp add: min_def take_append)
    with False show ?thesis
      using f assms(2) by (simp add: peek_frame_len_def min_def)
  qed
qed

lemma b94_payloadD:
  assumes "base94_ok B"
  shows "length (b94_encode B d kf (b94_encoded_len B d kf)) = b94_encoded_len B d kf \<and>
    length d \<le> b94_encoded_len B d kf \<and> b94_encoded_len B d kf \<le> 2 * length d \<and>
    list_all printable (b94_encode B d kf (b94_encoded_len B d kf)) \<and>
    b94_decode B (b94_encode B d kf (b94_encoded_len B d kf)) kf = Some d"
proof -
  have "b94_payload_ok B" using assms by (simp add: base94_ok_def)
  then show ?thesis unfolding b94_payload_ok_def Let_def by (metis (no_types))
qed

lemma encode_frame_ok:
  assumes B: "base94_ok B" and R: "rng_ok R" and sync: "framer_sync fr rx"
    and bin: "bin \<noteq> []" "2 * length bin \<le> BASE94_MAX_FRAME"
  shows "\<exists>frame rng'. encode_frame B R fr rng out bin =
      (Inr (), rng', fr\<lparr>fr_tx_first := False\<rparr>, out @ frame) \<and>
      frame_for B rx frame bin \<and> list_all printable frame \<and>
      length frame \<le> HEADER_EXTENDED + 2 * length bin"
proof -
  let ?len = "b94_encoded_len B bin (fr_kf fr)"
  let ?body = "b94_encode B bin (fr_kf fr) ?len"
  have P: "length ?body = ?len" "length bin \<le> ?len" "?len \<le> 2 * length bin"
    "list_all printable ?body" "b94_decode B ?body (fr_kf fr) = Some bin"
    using b94_payloadD [OF B, of bin "fr_kf fr"] by simp_all
  have len: "0 < ?len" "?len \<le> BASE94_MAX_FRAME"
    using P(2,3) bin by (auto simp: less_le_trans [of 0 "length bin"])
  obtain h hlen rng' where enc: "encode_header B R fr rng ?len =
      (Inr (h, hlen), rng', fr\<lparr>fr_tx_first := False\<rparr>)"
    and hl: "hlen = (if fr_tx_first fr then HEADER_EXTENDED else HEADER_SIMPLE)"
    and h: "length (take hlen h) = hlen" "list_all printable (take hlen h)"
    "decode_header B rx (take hlen h) = Inr ?len"
    using encode_header_ok [OF B R sync len] by blast
  have "frame_for B rx (take hlen h @ ?body) bin"
    unfolding frame_for_def
    using P h hl sync by (intro exI conjI) (auto simp: framer_sync_def rx_header_len_def)
  moreover have "encode_frame B R fr rng out bin =
      (Inr (), rng', fr\<lparr>fr_tx_first := False\<rparr>, out @ take hlen h @ ?body)"
    using bin(1) len enc by (simp add: encode_frame_def Let_def)
  ultimately show ?thesis
    using P h hl by (intro exI [of _ "take hlen h @ ?body"] exI [of _ rng'])
      (auto simp: np_consts)
qed

lemma framer_sync_advance:
  "framer_sync fr rx \<Longrightarrow> framer_sync (fr\<lparr>fr_tx_first := False\<rparr>) (rx\<lparr>fr_rx_first := False\<rparr>)"
  by (auto simp: framer_sync_def framer_wf_def)

text \<open>A failed receive never advances the first-frame flag.\<close>

lemma decode_packet_error_keeps_framer:
  "decode_packet_into B rx p = (Inl e, rx') \<Longrightarrow> rx' = rx"
  by (auto simp: decode_packet_into_def split: if_splits sum.splits)

lemma read_frame_error_keeps_framer:
  "read_frame_into B rx io = (Inl e, rx', io') \<Longrightarrow> rx' = rx"
  by (auto simp: read_frame_into_def split: if_splits sum.splits prod.splits)

end
