(* ===== verification/Handshake.thy ===== *)
theory Handshake
  imports Core_Base
begin

text \<open>
  \<^verbatim>\<open>crates/core/src/handshake.rs\<close>: the session-role tag, the flag canary, the length of the noise
  prelude, and the session-id packets with their exclusive-or layer, padding and decimal body.
\<close>

subsection \<open>Roles and the canary\<close>

definition CANARY_MAGIC :: u64 where "CANARY_MAGIC = 0xc0dec0dec0de"
definition CANARY_MAGIC_MASK :: u64 where "CANARY_MAGIC_MASK = 0x0000ffffffffffff"
definition ROLE_MAGIC :: u64 where "ROLE_MAGIC = 0xfeedc0de5eed"
definition ROLE_MAGIC_MASK :: u64 where "ROLE_MAGIC_MASK = 0x0000ffffffffffff"
definition ROLE_BOND_LINK :: u64 where "ROLE_BOND_LINK = push_bit 48 1"

datatype session_role = MuxTunnel | BondLink

definition role_tag :: "session_role \<Rightarrow> u64" where
  "role_tag role = ROLE_MAGIC OR (case role of MuxTunnel \<Rightarrow> 0 | BondLink \<Rightarrow> ROLE_BOND_LINK)"

definition role_from_ivv :: "u128 \<Rightarrow> session_role" where
  "role_from_ivv ivv =
     (let high = ucast (drop_bit 64 ivv) :: u64
      in if high AND ROLE_MAGIC_MASK = ROLE_MAGIC \<and> high AND ROLE_BOND_LINK \<noteq> 0
         then BondLink else MuxTunnel)"

datatype session_packet = Dummy | Session u128

definition flag_canary :: "obfuscation_key \<Rightarrow> u64" where
  "flag_canary key =
     (let flags = of_bool (ok_masked key) OR
                  push_bit 1 (of_bool (ok_plaintext key)) OR
                  push_bit 2 (of_bool (ok_delta_encode key)) OR
                  push_bit 3 (of_bool (ok_shuffle_data key))
      in CANARY_MAGIC OR push_bit 48 flags OR push_bit 52 (ucast (ok_kf key AND 0x0fff)))"

subsection \<open>The noise prelude\<close>

text \<open>\<open>1u32 << n\<close> of a release build: the shift distance is taken modulo the width.\<close>

definition shl32 :: "u8 \<Rightarrow> u32" where
  "shl32 n = push_bit (unat n mod 32) 1"

definition nop_rounds :: "'r rng_ops \<Rightarrow> 'r \<Rightarrow> obfuscation_key \<Rightarrow> nat \<times> 'r" where
  "nop_rounds R rng key =
     (let kl = shl32 (ok_kl key); kh = shl32 (ok_kh key);
          (lo, hi) = (if kl > kh then (kh, kl) else (kl, kh));
          (rounds, rng') = (if lo = hi then (unat lo, rng) else rng_range R (unat lo) (unat hi) rng)
      in ((rounds + (175 * 8 - 1)) div (175 * 8), rng'))"

definition max_nop_packets :: "obfuscation_key \<Rightarrow> nat" where
  "max_nop_packets key = unat (shl32 (max (ok_kl key) (ok_kh key)))"

subsection \<open>Session-id packets\<close>

fun decimal_digits :: "nat \<Rightarrow> nat list" where
  "decimal_digits n = (if n < 10 then [n] else decimal_digits (n div 10) @ [n mod 10])"

declare decimal_digits.simps [simp del]

definition append_decimal :: "bytes \<Rightarrow> u128 \<Rightarrow> bytes" where
  "append_decimal out v = out @ map (\<lambda>d. of_nat (0x30 + d)) (decimal_digits (unat v))"

fun rand_bytes :: "'r rng_ops \<Rightarrow> nat \<Rightarrow> nat \<Rightarrow> nat \<Rightarrow> 'r \<Rightarrow> bytes \<times> 'r" where
  "rand_bytes R lo hi 0 rng = ([], rng)"
| "rand_bytes R lo hi (Suc n) rng =
     (let (b, rng1) = rand_u8 R lo hi rng; (bs, rng2) = rand_bytes R lo hi n rng1
      in (b # bs, rng2))"

text \<open>The four rounds, each with the running key \<open>kf ^ kfs[0..=i]\<close>.\<close>

fun xor_rounds :: "u32 \<Rightarrow> bytes \<Rightarrow> bytes \<Rightarrow> bytes" where
  "xor_rounds kf [] body = body"
| "xor_rounds kf (k # ks) body =
     (let kf' = kf XOR ucast k in xor_rounds kf' ks (map (\<lambda>b. b XOR ucast kf') body))"

definition pack_padding ::
  "'r rng_ops \<Rightarrow> 'r \<Rightarrow> obfuscation_key \<Rightarrow> bytes \<Rightarrow> bytes \<times> 'r" where
  "pack_padding R rng key body =
     (let mx = unat (ok_kx key mod 0x100)
      in
        if mx > 0 then
          let (p1, rng1) = rand_bytes R 0x20 0x7e mx rng;
              body1 = body @ p1 @ [0x2f];
              mn = length body1 + 4;
              effective_max = max mx mn;
              (loops, rng2) = rng_range R 1 (effective_max * 4) rng1;
              (p2, rng3) = rand_bytes R 0x20 0x7e loops rng2
          in (body1 @ p2, rng3)
        else (body, rng))"

definition pack_session_id ::
  "'r rng_ops \<Rightarrow> 'r \<Rightarrow> obfuscation_key \<Rightarrow> u128 \<Rightarrow> bytes \<times> 'r" where
  "pack_session_id R rng key sid =
     (let real = (sid \<noteq> 0);
          (k0, rng0) = (if real then rand_u8 R 0x00 0x7f rng else rand_u8 R 0x80 0xff rng);
          (k1, rng1) = rand_u8 R 0x01 0xff rng0;
          (k2, rng2) = rand_u8 R 0x01 0xff rng1;
          (k3, rng3) = rand_u8 R 0x01 0xff rng2;
          kfs = [k0, k1, k2, k3];
          (body0, rng4) =
            (if real then (append_decimal [] sid, rng3)
             else let (v, rng') = rng_u128 R rng3
                  in (append_decimal [] (if v = 0 then 1 else v), rng'));
          (sep, rng5) = rand_u8 R 0x20 0x2f rng4;
          (body, rng6) = pack_padding R rng5 key (body0 @ [sep])
      in (kfs @ xor_rounds (ok_kf key) kfs body, rng6))"

definition is_ascii_digit :: "u8 \<Rightarrow> bool" where
  "is_ascii_digit b \<longleftrightarrow> 0x30 \<le> b \<and> b \<le> 0x39"

text \<open>The parsing loop: the accumulated id and the number of digits, both checked.\<close>

fun parse_id :: "nat \<Rightarrow> nat \<Rightarrow> bytes \<Rightarrow> (nat \<times> nat) core_result" where
  "parse_id sid digits [] = Inr (sid, digits)"
| "parse_id sid digits (b # bs) =
     (if \<not> is_ascii_digit b then Inr (sid, digits)
      else if sid * 10 \<ge> 2 ^ 128 then Inl InvalidSessionId
      else if sid * 10 + unat (b - 0x30) \<ge> 2 ^ 128 then Inl InvalidSessionId
      else parse_id (sid * 10 + unat (b - 0x30)) (digits + 1) bs)"

definition unpack_session_id :: "obfuscation_key \<Rightarrow> bytes \<Rightarrow> session_packet core_result" where
  "unpack_session_id key packet =
     (if length packet < 4 then Inl InvalidFrame
      else if packet ! 0 AND 0x80 \<noteq> 0 then Inr Dummy
      else
        let kfs = take 4 packet; body = drop 4 packet
        in
          if body = [] then Inl InvalidFrame
          else case parse_id 0 0 (xor_rounds (ok_kf key) kfs body) of
            Inl e \<Rightarrow> Inl e
          | Inr (sid, digits) \<Rightarrow>
              if digits = 0 then Inl InvalidSessionId else Inr (Session (of_nat sid)))"

subsection \<open>Facts about roles and the canary\<close>

lemma role_tag_vals: "role_tag MuxTunnel = 0xfeedc0de5eed" "role_tag BondLink = 0x1feedc0de5eed"
  by (simp_all add: role_tag_def ROLE_MAGIC_def ROLE_BOND_LINK_def)

lemma high_word: "ucast (drop_bit 64 (push_bit 64 (ucast (h :: u64)) OR ucast (l :: u64) :: u128)) = h"
  by (rule bit_word_eqI) (auto simp: bit_simps dest: bit_imp_le_length)

lemma role_from_tagged_ivv:
  "role_from_ivv (push_bit 64 (ucast (role_tag role)) OR ucast (nonce :: u64)) = role"
  unfolding role_from_ivv_def high_word
  by (cases role)
    (simp_all add: role_tag_vals ROLE_MAGIC_MASK_def ROLE_MAGIC_def ROLE_BOND_LINK_def)

lemma tagged_ivv_nonzero: "push_bit 64 (ucast (role_tag role)) OR ucast (nonce :: u64) \<noteq> (0 :: u128)"
proof
  assume "push_bit 64 (ucast (role_tag role)) OR ucast nonce = (0 :: u128)"
  then have "role_tag role = 0" using high_word [of "role_tag role" nonce] by simp
  then show False by (cases role) (simp_all add: role_tag_vals)
qed

text \<open>The sixteen bits above the magic: the four switches and the low twelve bits of \<open>kf\<close>.\<close>

definition canary_switches :: "obfuscation_key \<Rightarrow> u64" where
  "canary_switches key =
     of_bool (ok_masked key) OR push_bit 1 (of_bool (ok_plaintext key)) OR
     push_bit 2 (of_bool (ok_delta_encode key)) OR push_bit 3 (of_bool (ok_shuffle_data key))"

definition canary_kf :: "obfuscation_key \<Rightarrow> u64" where
  "canary_kf key = ucast (ok_kf key AND 0x0fff)"

lemma flag_canary_fields:
  "flag_canary key = CANARY_MAGIC OR push_bit 48 (canary_switches key) OR push_bit 52 (canary_kf key)"
  by (simp add: flag_canary_def canary_switches_def canary_kf_def Let_def)

lemma canary_kf_12: "canary_kf key = take_bit 12 (ucast (ok_kf key))"
proof -
  have "(ok_kf key AND 0x0fff) = take_bit 12 (ok_kf key)" by (simp add: take_bit_eq_mask mask_numeral)
  then show ?thesis
    unfolding canary_kf_def by (simp only:) (rule bit_word_eqI, auto simp: bit_simps)
qed

lemma canary_switches_4: "take_bit 4 (canary_switches key) = canary_switches key"
  unfolding canary_switches_def
  by (cases "ok_masked key"; cases "ok_plaintext key"; cases "ok_delta_encode key";
      cases "ok_shuffle_data key") simp_all

lemma canary_switches_eq:
  "canary_switches k1 = canary_switches k2 \<longleftrightarrow>
     ok_masked k1 = ok_masked k2 \<and> ok_plaintext k1 = ok_plaintext k2 \<and>
     ok_delta_encode k1 = ok_delta_encode k2 \<and> ok_shuffle_data k1 = ok_shuffle_data k2"
  unfolding canary_switches_def
  by (cases "ok_masked k1"; cases "ok_plaintext k1"; cases "ok_delta_encode k1";
      cases "ok_shuffle_data k1"; cases "ok_masked k2"; cases "ok_plaintext k2";
      cases "ok_delta_encode k2"; cases "ok_shuffle_data k2") simp_all

lemma flag_canary_magic: "flag_canary key AND CANARY_MAGIC_MASK = CANARY_MAGIC"
proof -
  have m: "CANARY_MAGIC_MASK = mask 48" by (simp add: CANARY_MAGIC_MASK_def mask_numeral)
  have "take_bit 48 CANARY_MAGIC = CANARY_MAGIC" by (simp add: CANARY_MAGIC_def)
  moreover have "take_bit 48 (push_bit 48 f) = 0" "take_bit 48 (push_bit 52 f) = 0" for f :: u64
    by (rule bit_word_eqI; auto simp: bit_simps)+
  ultimately show ?thesis
    unfolding m flag_canary_fields by (simp only: take_bit_eq_mask [symmetric] take_bit_or) simp
qed

lemma flag_canary_high:
  "drop_bit 48 (flag_canary key) = canary_switches key OR push_bit 4 (canary_kf key)"
proof -
  have "drop_bit 48 CANARY_MAGIC = 0" by (simp add: CANARY_MAGIC_def)
  moreover have "drop_bit 48 (push_bit 48 f) = take_bit 16 f" for f :: u64
    by (rule bit_word_eqI) (auto simp: bit_simps)
  moreover have "drop_bit 48 (push_bit 52 (take_bit 12 f)) = push_bit 4 (take_bit 12 f)" for f :: u64
    by (rule bit_word_eqI) (auto simp: bit_simps)
  moreover have "take_bit 16 (canary_switches key) = canary_switches key"
    by (subst (1 2) canary_switches_4 [symmetric]) (simp only: take_bit_take_bit, simp)
  ultimately show ?thesis
    unfolding flag_canary_fields canary_kf_12 by (simp only: drop_bit_or) simp
qed

lemma flag_canary_eq_iff:
  "flag_canary k1 = flag_canary k2 \<longleftrightarrow>
     canary_switches k1 = canary_switches k2 \<and> canary_kf k1 = canary_kf k2"
proof
  assume eq: "flag_canary k1 = flag_canary k2"
  have lo: "take_bit 4 (canary_switches k OR push_bit 4 (canary_kf k)) = canary_switches k" for k
  proof -
    have "take_bit 4 (push_bit 4 f) = 0" for f :: u64
      by (rule bit_word_eqI) (auto simp: bit_simps)
    then show ?thesis by (simp only: take_bit_or canary_switches_4) simp
  qed
  have hi: "drop_bit 4 (canary_switches k OR push_bit 4 (canary_kf k)) = canary_kf k" for k
  proof -
    have "drop_bit 4 (take_bit 4 f) = 0" for f :: u64
      by (rule bit_word_eqI) (auto simp: bit_simps)
    from this [of "canary_switches k"] have "drop_bit 4 (canary_switches k) = 0"
      by (simp only: canary_switches_4)
    moreover have "drop_bit 4 (push_bit 4 (take_bit 12 f)) = take_bit 12 f" for f :: u64
      by (rule bit_word_eqI) (auto simp: bit_simps)
    ultimately show ?thesis
      unfolding canary_kf_12 drop_bit_or by simp
  qed
  show "canary_switches k1 = canary_switches k2 \<and> canary_kf k1 = canary_kf k2"
    using eq lo hi flag_canary_high by metis
qed (simp add: flag_canary_fields)

subsection \<open>The noise prelude is bounded\<close>

lemma unat_shl32: "unat n \<le> 20 \<Longrightarrow> unat (shl32 n) = 2 ^ unat n"
proof -
  assume n: "unat n \<le> 20"
  then have "(2::nat) ^ unat n \<le> 2 ^ 20" by (intro power_increasing) simp_all
  then have "(2::nat) ^ unat n < 2 ^ 32" by simp
  moreover have "shl32 n = of_nat (2 ^ unat n)"
    using n by (simp add: shl32_def push_bit_eq_mult)
  ultimately show ?thesis by (simp only:) (rule unat_of_nat_small, simp)
qed

lemma shl32_mono: "unat a \<le> 20 \<Longrightarrow> unat b \<le> 20 \<Longrightarrow> a \<le> b \<Longrightarrow> unat (shl32 a) \<le> unat (shl32 b)"
  by (simp add: unat_shl32 word_le_nat_alt power_increasing)

lemma nop_rounds_bounds:
  assumes R: "rng_ok R" and v: "validate key = Inr u" and n: "nop_rounds R rng key = (n, rng')"
  shows "1 \<le> n \<and> n \<le> 749 \<and> n \<le> max_nop_packets key"
proof -
  have kl: "unat (ok_kl key) \<le> 20" and kh: "unat (ok_kh key) \<le> 20"
    using v by (simp_all add: validate_Inr word_le_nat_alt)
  define lo where "lo = min (unat (shl32 (ok_kl key))) (unat (shl32 (ok_kh key)))"
  define hi where "hi = max (unat (shl32 (ok_kl key))) (unat (shl32 (ok_kh key)))"
  have "\<exists>r. n = (r + 1399) div 1400 \<and> lo \<le> r \<and> r \<le> hi"
  proof (cases "shl32 (ok_kl key) = shl32 (ok_kh key)")
    case True
    then show ?thesis using n by (auto simp: nop_rounds_def lo_def hi_def)
  next
    case False
    obtain r r' where r: "rng_range R lo hi rng = (r, r')" by fastforce
    have "lo \<le> r" "r \<le> hi" using rng_rangeD [OF R r] by (simp_all add: lo_def hi_def)
    then show ?thesis
      using n False r
      by (auto simp: nop_rounds_def Let_def lo_def hi_def word_less_nat_alt word_unat_eq_iff
          split: if_splits prod.splits)
  qed
  then obtain r where r: "n = (r + 1399) div 1400" "lo \<le> r" "r \<le> hi" by blast
  have "1 \<le> lo" using kl kh by (simp add: lo_def unat_shl32)
  moreover have "hi \<le> 2 ^ 20"
    using kl kh power_increasing [of _ 20 "2 :: nat"] by (simp add: hi_def unat_shl32)
  moreover have "hi \<le> max_nop_packets key"
    using kl kh shl32_mono [of "ok_kl key" "ok_kh key"] shl32_mono [of "ok_kh key" "ok_kl key"]
    by (auto simp: hi_def max_nop_packets_def max_def)
  moreover have "(r + 1399) div 1400 \<le> r" using \<open>1 \<le> lo\<close> r(2) by simp
  ultimately show ?thesis
    using r div_le_mono [of "r + 1399" "2 ^ 20 + 1399" 1400] div_le_mono [of 1400 "r + 1399" 1400]
    by simp
qed

subsection \<open>Session-id packets round-trip\<close>

text \<open>The configured \<open>kf\<close> drops out: the whole layer is one mask made of the key bytes.\<close>

lemma xor_rounds_mask:
  "xor_rounds kf [a, b, c, d] body = map (\<lambda>x. x XOR (b XOR d)) body"
proof -
  have "(((x XOR ucast (kf XOR ucast a)) XOR ucast ((kf XOR ucast a) XOR ucast b)) XOR
      ucast (((kf XOR ucast a) XOR ucast b) XOR ucast c)) XOR
      ucast ((((kf XOR ucast a) XOR ucast b) XOR ucast c) XOR ucast d) = x XOR (b XOR d)" for x :: u8
    by (rule bit_word_eqI) (auto simp: bit_simps)
  then show ?thesis by (simp add: Let_def comp_def)
qed

lemma xor_rounds_cancel:
  "length ks = 4 \<Longrightarrow> xor_rounds kf' ks (xor_rounds kf ks body) = body"
  by (auto simp: numeral_eq_Suc length_Suc_conv xor_rounds_mask comp_def simp del: xor_rounds.simps)

lemma length_xor_rounds [simp]: "length (xor_rounds kf ks body) = length body"
  by (induction ks arbitrary: kf body) (simp_all add: Let_def)

lemma xor_rounds_Nil [simp]: "xor_rounds kf ks body = [] \<longleftrightarrow> body = []"
  using length_xor_rounds [of kf ks body] by (metis length_0_conv)

declare xor_rounds.simps [simp del]

lemma length_rand_bytes [simp]: "length (fst (rand_bytes R lo hi n rng)) = n"
  by (induction n arbitrary: rng) (simp_all add: Let_def split_beta)

lemma decimal_digits_less: "\<forall>d \<in> set (decimal_digits n). d < 10"
proof (induction n rule: decimal_digits.induct)
  case (1 n)
  then show ?case by (subst decimal_digits.simps) auto
qed

lemma decimal_digits_value: "fold (\<lambda>d m. m * 10 + d) (decimal_digits n) 0 = n"
proof (induction n rule: decimal_digits.induct)
  case (1 n)
  then show ?case by (subst decimal_digits.simps) auto
qed

lemma decimal_digits_length: "n < 10 ^ Suc k \<Longrightarrow> 0 < length (decimal_digits n) \<and> length (decimal_digits n) \<le> Suc k"
proof (induction k arbitrary: n)
  case 0
  then show ?case by (subst (1 2) decimal_digits.simps) simp
next
  case (Suc k)
  then have "n div 10 < 10 ^ Suc k" by (simp add: div_less_iff_less_mult)
  with Suc.IH [of "n div 10"] show ?case by (subst (1 2) decimal_digits.simps) simp
qed

lemma fold_decimal_ge: "s \<le> fold (\<lambda>d m. m * 10 + d) ds (s :: nat)"
proof (induction ds arbitrary: s)
  case (Cons d ds)
  have "s \<le> s * 10 + d" by simp
  also have "\<dots> \<le> fold (\<lambda>d m. m * 10 + d) ds (s * 10 + d)" by (rule Cons)
  finally show ?case by simp
qed simp

lemma parse_id_digits:
  assumes "\<forall>d \<in> set ds. d < 10" "\<not> is_ascii_digit b"
    and "fold (\<lambda>d m. m * 10 + d) ds s < 2 ^ 128"
  shows "parse_id s g (map (\<lambda>d. of_nat (0x30 + d)) ds @ b # rest) =
         Inr (fold (\<lambda>d m. m * 10 + d) ds s, g + length ds)"
  using assms
proof (induction ds arbitrary: s g)
  case (Cons d ds)
  let ?c = "of_nat (0x30 + d) :: u8"
  have d: "d < 10" using Cons.prems by simp
  have uc: "unat ?c = 0x30 + d" using d by (intro unat_of_nat_small) simp
  have dig: "is_ascii_digit ?c" using uc d by (simp add: is_ascii_digit_def word_le_nat_alt)
  have "?c - 0x30 = of_nat d" by simp
  then have sub: "unat (?c - 0x30) = d" using d by (simp add: unat_of_nat_small)
  have "s * 10 + d < 2 ^ 128"
    using Cons.prems(3) fold_decimal_ge [of "s * 10 + d" ds] by simp
  then show ?case
    using Cons dig sub by simp
qed simp

lemma pack_padding_spec:
  assumes R: "rng_ok R" and p: "pack_padding R rng key body = (body', rng')"
    and len: "length body \<le> 40"
  shows "\<exists>pad. body' = body @ pad \<and> length body' \<le> 1496"
proof (cases "unat (ok_kx key mod 0x100) > 0")
  case False
  then show ?thesis using p len by (simp add: pack_padding_def)
next
  case True
  define mx where "mx = unat (ok_kx key mod 0x100)"
  have mx: "0 < mx" "mx < 256" using True by (simp_all add: mx_def unat_mod)
  obtain p1 rng1 where p1: "rand_bytes R 0x20 0x7e mx rng = (p1, rng1)" by fastforce
  let ?b1 = "body @ p1 @ [0x2f]"
  have b1: "length ?b1 = length body + mx + 1"
    using length_rand_bytes [of R "0x20" "0x7e" mx rng] p1 by simp
  obtain loops rng2 where l: "rng_range R 1 (max mx (length ?b1 + 4) * 4) rng1 = (loops, rng2)"
    by fastforce
  obtain p2 rng3 where p2: "rand_bytes R 0x20 0x7e loops rng2 = (p2, rng3)" by fastforce
  have "loops \<le> max mx (length ?b1 + 4) * 4"
    using rng_rangeD [OF R l] mx by (simp add: b1)
  moreover have "max mx (length ?b1 + 4) \<le> 300" using b1 mx len by simp
  moreover have "length p2 = loops"
    using length_rand_bytes [of R "0x20" "0x7e" loops rng2] p2 by simp
  ultimately have "length (?b1 @ p2) \<le> 1496" using b1 mx len by simp
  moreover have "body' = ?b1 @ p2"
    using p True p1 l p2 by (simp add: pack_padding_def mx_def [symmetric] Let_def)
  ultimately show ?thesis by simp
qed

lemma append_decimal_length: "length (append_decimal [] v) \<le> 39"
proof -
  have "unat v < 2 ^ 128" using unsigned_less [of v, where ?'a = nat] by simp
  also have "(2::nat) ^ 128 < 10 ^ Suc 38" by simp
  finally show ?thesis
    using decimal_digits_length [of "unat v" 38] by (simp add: append_decimal_def)
qed

lemma pack_session_id_spec:
  assumes R: "rng_ok R" and p: "pack_session_id R rng key sid = (packet, rng')"
  shows "\<exists>k0 k1 k2 k3 v sep pad.
    packet = [k0, k1, k2, k3] @
      xor_rounds (ok_kf key) [k0, k1, k2, k3] (append_decimal [] v @ sep # pad) \<and>
    length packet \<le> 1500 \<and> \<not> is_ascii_digit sep \<and>
    (sid \<noteq> 0 \<longrightarrow> unat k0 \<le> 0x7f \<and> v = sid) \<and> (sid = 0 \<longrightarrow> 0x80 \<le> unat k0)"
proof -
  obtain k0 r0 where k0: "(if sid \<noteq> 0 then rand_u8 R 0x00 0x7f rng else rand_u8 R 0x80 0xff rng) = (k0, r0)"
    by fastforce
  obtain k1 r1 where k1: "rand_u8 R 0x01 0xff r0 = (k1, r1)" by fastforce
  obtain k2 r2 where k2: "rand_u8 R 0x01 0xff r1 = (k2, r2)" by fastforce
  obtain k3 r3 where k3: "rand_u8 R 0x01 0xff r2 = (k3, r3)" by fastforce
  obtain v r4 where v: "(if sid \<noteq> 0 then (append_decimal [] sid, r3)
      else let (v, rng') = rng_u128 R r3 in (append_decimal [] (if v = 0 then 1 else v), rng')) =
      (append_decimal [] v, r4)" "sid \<noteq> 0 \<longrightarrow> v = sid"
    by (cases "rng_u128 R r3"; cases "sid = 0") auto
  obtain sep r5 where sep: "rand_u8 R 0x20 0x2f r4 = (sep, r5)" by fastforce
  obtain body r6 where pad: "pack_padding R r5 key (append_decimal [] v @ [sep]) = (body, r6)"
    by fastforce
  have packet: "packet = [k0, k1, k2, k3] @ xor_rounds (ok_kf key) [k0, k1, k2, k3] body"
    using p k0 k1 k2 k3 v(1) sep pad by (simp add: pack_session_id_def Let_def)
  obtain ps where body: "body = append_decimal [] v @ sep # ps" "length body \<le> 1496"
    using pack_padding_spec [OF R pad] append_decimal_length [of v] by auto
  have "32 \<le> unat sep" "unat sep \<le> 47" using rand_u8_bounds [OF R sep] by simp_all
  then have "\<not> is_ascii_digit sep" by (simp add: is_ascii_digit_def word_le_nat_alt)
  moreover have "sid \<noteq> 0 \<longrightarrow> unat k0 \<le> 0x7f" "sid = 0 \<longrightarrow> 0x80 \<le> unat k0"
    using k0 rand_u8_bounds [OF R, of 0 "0x7f" rng k0 r0] rand_u8_bounds [OF R, of "0x80" "0xff" rng k0 r0]
    by (auto split: if_splits)
  ultimately show ?thesis
    using packet body v(2) by (intro exI conjI) auto
qed

lemma and_0x80: "(k :: u8) AND 0x80 = 0 \<longleftrightarrow> unat k < 0x80"
proof -
  have "k AND 0x80 = 0 \<longleftrightarrow> \<not> bit k 7"
    using and_exp_eq_0_iff_not_bit [of k 7] by simp
  also have "bit k 7 \<longleftrightarrow> odd (unat k div 128)"
    using bit_unsigned_iff [of k 7, where ?'a = nat] by (simp add: bit_iff_odd)
  also have "odd (unat k div 128) \<longleftrightarrow> 128 \<le> unat k"
  proof (cases "128 \<le> unat k")
    case True
    then have "unat k div 128 = 1" using unat_lt_u8 [of k] by (intro div_nat_eqI) simp_all
    with True show ?thesis by simp
  qed simp
  finally show ?thesis by auto
qed

lemma pack_real_unpack:
  assumes R: "rng_ok R" and sid: "sid \<noteq> 0" and p: "pack_session_id R rng key sid = (packet, rng')"
  shows "unpack_session_id key' packet = Inr (Session sid)"
proof -
  obtain k0 k1 k2 k3 sep pad where
    packet: "packet = [k0, k1, k2, k3] @
      xor_rounds (ok_kf key) [k0, k1, k2, k3] (append_decimal [] sid @ sep # pad)"
    and sep: "\<not> is_ascii_digit sep" and k0: "unat k0 \<le> 0x7f"
    using pack_session_id_spec [OF R p] sid by auto
  let ?ds = "decimal_digits (unat sid)"
  have "unat sid < 2 ^ 128" using unsigned_less [of sid, where ?'a = nat] by simp
  then have "parse_id 0 0 (append_decimal [] sid @ sep # pad) = Inr (unat sid, length ?ds)"
    using parse_id_digits [OF decimal_digits_less sep, of "unat sid" 0 0 pad]
    by (simp add: append_decimal_def decimal_digits_value)
  moreover have "0 < length ?ds"
    using decimal_digits_length [of "unat sid" 38] \<open>unat sid < 2 ^ 128\<close> by simp
  moreover have "k0 AND 0x80 = 0" using k0 by (simp add: and_0x80)
  ultimately show ?thesis
    by (simp add: unpack_session_id_def packet Let_def xor_rounds_cancel numeral_eq_Suc
       )
qed

lemma pack_dummy_unpack:
  assumes R: "rng_ok R" and p: "pack_session_id R rng key 0 = (packet, rng')"
  shows "unpack_session_id key' packet = Inr Dummy"
  using pack_session_id_spec [OF R p]
  by (auto simp: unpack_session_id_def and_0x80)

lemma pack_length:
  assumes "rng_ok R" and "pack_session_id R rng key sid = (packet, rng')"
  shows "5 \<le> length packet" "length packet \<le> 1500"
  using pack_session_id_spec [OF assms] by auto

end
