(* ===== verification/Transmission.thy ===== *)
theory Transmission
  imports Base94_Frame Handshake
begin

text \<open>
  \<^verbatim>\<open>crates/core/src/transmission.rs\<close>: the per-direction codec states, the streaming and in-memory
  packet paths, and the handshake of both ends.  The scratch buffers of the sources are allocation
  caches whose contents never survive a call, so they are not part of the state; a slice borrowed
  from one is the byte string returned.
\<close>

subsection \<open>The environment\<close>

text \<open>The third-party operations a connection runs on, bundled.\<close>

record 'r env_ops =
  e_crypto :: crypto_ops
  e_b94 :: base94_ops
  e_rng :: "'r rng_ops"

definition env_ok :: "'r env_ops \<Rightarrow> bool" where
  "env_ok E \<longleftrightarrow> base94_ok (e_b94 E) \<and> rng_ok (e_rng E)"

subsection \<open>Shared header and tail\<close>

definition parse_binary_header ::
  "'r env_ops \<Rightarrow> u32 \<Rightarrow> session_cipher \<Rightarrow> bytes \<Rightarrow> nat option \<Rightarrow>
   (nat \<times> u32) core_result \<times> session_cipher" where
  "parse_binary_header E kf cipher header declared_total =
     (case header_decrypt (e_crypto E) kf (Some cipher) header of
        (Inl e, c) \<Rightarrow> (Inl e, the c)
      | (Inr (len, header_kf), c) \<Rightarrow>
          if \<not> (1 \<le> len \<and> len \<le> PPP_BUFFER_SIZE) then (Inl (FrameTooLarge len), the c)
          else (case declared_total of
                  Some tot \<Rightarrow>
                    if len + HEADER_SIZE \<noteq> tot then (Inl InvalidFrame, the c)
                    else (Inr (len, header_kf), the c)
                | None \<Rightarrow> (Inr (len, header_kf), the c)))"

definition effective_flags :: "obfuscation_key \<Rightarrow> bool \<Rightarrow> payload_flags" where
  "effective_flags key handshaked =
     (if handshaked
      then \<lparr>pf_masked = ok_masked key, pf_shuffle = ok_shuffle_data key,
            pf_delta = ok_delta_encode key\<rparr>
      else FLAGS_SAFEST)"

definition decrypt_tail ::
  "'r env_ops \<Rightarrow> obfuscation_key \<Rightarrow> session_cipher \<Rightarrow> session_cipher \<Rightarrow> bool \<Rightarrow> bytes \<Rightarrow>
   bytes core_result \<times> session_cipher \<times> session_cipher" where
  "decrypt_tail E key protocol_rx transport_rx handshaked buf =
     (if length buf \<le> HEADER_SIZE then (Inl InvalidFrame, protocol_rx, transport_rx)
      else case parse_binary_header E (ok_kf key) protocol_rx (take HEADER_SIZE buf)
                  (Some (length buf)) of
        (Inl e, p) \<Rightarrow> (Inl e, p, transport_rx)
      | (Inr (_, header_kf), p) \<Rightarrow>
          let body = payload_deobfuscate (drop HEADER_SIZE buf) (effective_flags key handshaked)
                       header_kf (ok_kf key);
              (msg, t) = cipher_apply (e_crypto E) transport_rx body
          in (Inr msg, p, t))"

subsection \<open>The sending core\<close>

record 'r tx_core =
  tx_rng :: 'r
  tx_key :: obfuscation_key
  tx_b94 :: framer
  tx_protocol :: session_cipher
  tx_transport :: session_cipher
  tx_handshaked :: bool

definition tx_new :: "'r env_ops \<Rightarrow> obfuscation_key \<Rightarrow> 'r \<Rightarrow> 'r tx_core" where
  "tx_new E key rng =
     \<lparr>tx_rng = rng, tx_key = key, tx_b94 = framer_new (ok_kf key),
      tx_protocol = cipher_new (e_crypto E) (ok_protocol key) RoleProtocol (ok_protocol_key key),
      tx_transport = cipher_new (e_crypto E) (ok_transport key) RoleTransport (ok_transport_key key),
      tx_handshaked = False\<rparr>"

definition encrypt_impl ::
  "'r env_ops \<Rightarrow> 'r tx_core \<Rightarrow> bytes \<Rightarrow> bytes \<Rightarrow> bytes \<Rightarrow> unit core_result \<times> 'r tx_core \<times> bytes" where
  "encrypt_impl E tx out prefix payload =
     (let tot = length payload + length prefix in
      if tot = 0 then (Inl ZeroLength, tx, out)
      else if tot > PPP_BUFFER_SIZE then (Inl (FrameTooLarge tot), tx, out)
      else
        let flags = effective_flags (tx_key tx) (tx_handshaked tx);
            kf = ok_kf (tx_key tx)
        in case header_encrypt (e_crypto E) (e_rng E) (tx_rng tx) kf (Some (tx_protocol tx)) tot of
          (Inl e, rng, p) \<Rightarrow> (Inl e, tx\<lparr>tx_rng := rng, tx_protocol := the p\<rparr>, out)
        | (Inr (header, header_kf), rng, p) \<Rightarrow>
            let (body, t) = cipher_apply (e_crypto E) (tx_transport tx) (prefix @ payload);
                packet = header @ payload_obfuscate body flags header_kf kf;
                tx' = tx\<lparr>tx_rng := rng, tx_protocol := the p, tx_transport := t\<rparr>
            in
              if \<not> tx_handshaked tx \<or> ok_plaintext (tx_key tx) then
                let (r, rng', fr, out') =
                      encode_frame (e_b94 E) (e_rng E) (tx_b94 tx) rng out packet
                in (r, tx'\<lparr>tx_rng := rng', tx_b94 := fr\<rparr>, out')
              else (Inr (), tx', out @ packet))"

definition encrypt_into ::
  "'r env_ops \<Rightarrow> 'r tx_core \<Rightarrow> bytes \<Rightarrow> bytes \<Rightarrow> unit core_result \<times> 'r tx_core \<times> bytes" where
  "encrypt_into E tx out plaintext = encrypt_impl E tx out [] plaintext"

definition encrypt_into_tagged ::
  "'r env_ops \<Rightarrow> 'r tx_core \<Rightarrow> bytes \<Rightarrow> u8 \<Rightarrow> bytes \<Rightarrow> unit core_result \<times> 'r tx_core \<times> bytes" where
  "encrypt_into_tagged E tx out tag payload = encrypt_impl E tx out [tag] payload"

definition encrypt_into_prefixed ::
  "'r env_ops \<Rightarrow> 'r tx_core \<Rightarrow> bytes \<Rightarrow> bytes \<Rightarrow> bytes \<Rightarrow> unit core_result \<times> 'r tx_core \<times> bytes" where
  "encrypt_into_prefixed E tx out prefix payload = encrypt_impl E tx out prefix payload"

definition tx_write ::
  "'r env_ops \<Rightarrow> 'r tx_core \<Rightarrow> transport \<Rightarrow> bytes \<Rightarrow> unit core_result \<times> 'r tx_core \<times> transport" where
  "tx_write E tx io plaintext =
     (case encrypt_into E tx [] plaintext of
        (Inl e, tx', out) \<Rightarrow> (Inl e, tx', io)
      | (Inr _, tx', out) \<Rightarrow> (let (r, io') = write_all out io in (r, tx', io')))"

definition tx_rekey :: "'r env_ops \<Rightarrow> u128 \<Rightarrow> 'r tx_core \<Rightarrow> 'r tx_core" where
  "tx_rekey E ivv tx =
     (let key = tx_key tx in
      tx\<lparr>tx_protocol := cipher_derive (e_crypto E) (ok_protocol key) RoleProtocol
                         (ok_protocol_key key) (Some ivv),
         tx_transport := cipher_derive (e_crypto E) (ok_transport key) RoleTransport
                         (ok_transport_key key) (Some ivv)\<rparr>)"

definition tx_on_handshake_complete :: "'r tx_core \<Rightarrow> 'r tx_core" where
  "tx_on_handshake_complete tx = tx\<lparr>tx_handshaked := True\<rparr>"

subsection \<open>The receiving core\<close>

record rx_core =
  rx_key :: obfuscation_key
  rx_b94 :: framer
  rx_protocol :: session_cipher
  rx_transport :: session_cipher
  rx_handshaked :: bool

definition rx_new :: "'r env_ops \<Rightarrow> obfuscation_key \<Rightarrow> rx_core" where
  "rx_new E key =
     \<lparr>rx_key = key, rx_b94 = framer_new (ok_kf key),
      rx_protocol = for_decryption
        (cipher_new (e_crypto E) (ok_protocol key) RoleProtocol (ok_protocol_key key)),
      rx_transport = for_decryption
        (cipher_new (e_crypto E) (ok_transport key) RoleTransport (ok_transport_key key)),
      rx_handshaked = False\<rparr>"

definition rx_tail :: "'r env_ops \<Rightarrow> rx_core \<Rightarrow> bytes \<Rightarrow> bytes core_result \<times> rx_core" where
  "rx_tail E rx buf =
     (let (r, p, t) = decrypt_tail E (rx_key rx) (rx_protocol rx) (rx_transport rx)
                        (rx_handshaked rx) buf
      in (r, rx\<lparr>rx_protocol := p, rx_transport := t\<rparr>))"

text \<open>\<open>decrypt\<close> and \<open>decrypt_in_place\<close> differ only in the buffer they work in.\<close>

definition rx_decrypt :: "'r env_ops \<Rightarrow> rx_core \<Rightarrow> bytes \<Rightarrow> bytes core_result \<times> rx_core" where
  "rx_decrypt E rx packet =
     (if \<not> rx_handshaked rx \<or> ok_plaintext (rx_key rx) then
        (case decode_packet_into (e_b94 E) (rx_b94 rx) packet of
           (Inl e, fr) \<Rightarrow> (Inl e, rx\<lparr>rx_b94 := fr\<rparr>)
         | (Inr body, fr) \<Rightarrow> rx_tail E (rx\<lparr>rx_b94 := fr\<rparr>) body)
      else rx_tail E rx packet)"

definition rx_finish :: "'r env_ops \<Rightarrow> rx_core \<Rightarrow> u32 \<Rightarrow> bytes \<Rightarrow> bytes \<times> rx_core" where
  "rx_finish E rx header_kf body =
     (let d = payload_deobfuscate body (effective_flags (rx_key rx) (rx_handshaked rx)) header_kf
                (ok_kf (rx_key rx));
          (msg, t) = cipher_apply (e_crypto E) (rx_transport rx) d
      in (msg, rx\<lparr>rx_transport := t\<rparr>))"

definition rx_read_buf ::
  "'r env_ops \<Rightarrow> rx_core \<Rightarrow> transport \<Rightarrow> bytes core_result \<times> rx_core \<times> transport" where
  "rx_read_buf E rx io =
     (let kf = ok_kf (rx_key rx) in
      if \<not> rx_handshaked rx \<or> ok_plaintext (rx_key rx) then
        (case read_frame_into (e_b94 E) (rx_b94 rx) io of
           (Inl e, fr, io1) \<Rightarrow> (Inl e, rx\<lparr>rx_b94 := fr\<rparr>, io1)
         | (Inr body, fr, io1) \<Rightarrow>
             let rx1 = rx\<lparr>rx_b94 := fr\<rparr> in
             if length body \<le> HEADER_SIZE then (Inl InvalidFrame, rx1, io1)
             else (case parse_binary_header E kf (rx_protocol rx1) (take HEADER_SIZE body)
                          (Some (length body)) of
                     (Inl e, p) \<Rightarrow> (Inl e, rx1\<lparr>rx_protocol := p\<rparr>, io1)
                   | (Inr (_, header_kf), p) \<Rightarrow>
                       let (msg, rx2) = rx_finish E (rx1\<lparr>rx_protocol := p\<rparr>) header_kf
                                          (drop HEADER_SIZE body)
                       in (Inr msg, rx2, io1)))
      else
        (case read_exact HEADER_SIZE io of
           (Inl e, io1) \<Rightarrow> (Inl e, rx, io1)
         | (Inr header, io1) \<Rightarrow>
             (case parse_binary_header E kf (rx_protocol rx) header None of
                (Inl e, p) \<Rightarrow> (Inl e, rx\<lparr>rx_protocol := p\<rparr>, io1)
              | (Inr (len, header_kf), p) \<Rightarrow>
                  let rx1 = rx\<lparr>rx_protocol := p\<rparr> in
                  (case read_upto len io1 of
                     (Inl e, io2) \<Rightarrow> (Inl e, rx1, io2)
                   | (Inr body, io2) \<Rightarrow>
                       if length body \<noteq> len then (Inl (Io UnexpectedEof), rx1, io2)
                       else let (msg, rx2) = rx_finish E rx1 header_kf body
                            in (Inr msg, rx2, io2)))))"

definition rx_rekey :: "'r env_ops \<Rightarrow> u128 \<Rightarrow> rx_core \<Rightarrow> rx_core" where
  "rx_rekey E ivv rx =
     (let key = rx_key rx in
      rx\<lparr>rx_protocol := for_decryption (cipher_derive (e_crypto E) (ok_protocol key) RoleProtocol
                         (ok_protocol_key key) (Some ivv)),
         rx_transport := for_decryption (cipher_derive (e_crypto E) (ok_transport key) RoleTransport
                         (ok_transport_key key) (Some ivv))\<rparr>)"

definition rx_on_handshake_complete :: "rx_core \<Rightarrow> rx_core" where
  "rx_on_handshake_complete rx = rx\<lparr>rx_handshaked := True\<rparr>"

subsection \<open>The connection\<close>

record 'r transmission =
  t_io :: transport
  t_tx :: "'r tx_core"
  t_rx :: rx_core
  t_session_id :: u128
  t_pending :: "(u128 \<times> session_role) option"

definition with_rng :: "'r env_ops \<Rightarrow> transport \<Rightarrow> obfuscation_key \<Rightarrow> 'r \<Rightarrow> 'r transmission" where
  "with_rng E io key rng =
     \<lparr>t_io = io, t_tx = tx_new E key rng, t_rx = rx_new E key, t_session_id = 0,
      t_pending = None\<rparr>"

definition is_handshaked :: "'r transmission \<Rightarrow> bool" where
  "is_handshaked t = tx_handshaked (t_tx t)"

definition t_write ::
  "'r env_ops \<Rightarrow> 'r transmission \<Rightarrow> bytes \<Rightarrow> unit core_result \<times> 'r transmission" where
  "t_write E t plaintext =
     (let (r, tx, io) = tx_write E (t_tx t) (t_io t) plaintext
      in (r, t\<lparr>t_tx := tx, t_io := io\<rparr>))"

definition t_read :: "'r env_ops \<Rightarrow> 'r transmission \<Rightarrow> bytes core_result \<times> 'r transmission" where
  "t_read E t =
     (let (r, rx, io) = rx_read_buf E (t_rx t) (t_io t)
      in (r, t\<lparr>t_rx := rx, t_io := io\<rparr>))"

definition t_rekey :: "'r env_ops \<Rightarrow> u128 \<Rightarrow> 'r transmission \<Rightarrow> 'r transmission" where
  "t_rekey E ivv t = t\<lparr>t_tx := tx_rekey E ivv (t_tx t), t_rx := rx_rekey E ivv (t_rx t)\<rparr>"

subsection \<open>The handshake\<close>

definition send_session_id ::
  "'r env_ops \<Rightarrow> 'r transmission \<Rightarrow> u128 \<Rightarrow> unit core_result \<times> 'r transmission" where
  "send_session_id E t sid =
     (let (packet, rng) = pack_session_id (e_rng E) (tx_rng (t_tx t)) (tx_key (t_tx t)) sid
      in t_write E (t\<lparr>t_tx := (t_tx t)\<lparr>tx_rng := rng\<rparr>\<rparr>) packet)"

fun send_nops :: "'r env_ops \<Rightarrow> nat \<Rightarrow> 'r transmission \<Rightarrow> unit core_result \<times> 'r transmission" where
  "send_nops E 0 t = (Inr (), t)"
| "send_nops E (Suc n) t =
     (case send_session_id E t 0 of
        (Inl e, t') \<Rightarrow> (Inl e, t')
      | (Inr _, t') \<Rightarrow> send_nops E n t')"

definition handshake_prelude ::
  "'r env_ops \<Rightarrow> 'r transmission \<Rightarrow> unit core_result \<times> 'r transmission" where
  "handshake_prelude E t =
     (let (rounds, rng) = nop_rounds (e_rng E) (tx_rng (t_tx t)) (tx_key (t_tx t))
      in send_nops E rounds (t\<lparr>t_tx := (t_tx t)\<lparr>tx_rng := rng\<rparr>\<rparr>))"

fun read_session_id_loop ::
  "'r env_ops \<Rightarrow> nat \<Rightarrow> 'r transmission \<Rightarrow> u128 core_result \<times> 'r transmission" where
  "read_session_id_loop E budget t =
     (case t_read E t of
        (Inl e, t') \<Rightarrow> (Inl e, t')
      | (Inr packet, t') \<Rightarrow>
          (case unpack_session_id (rx_key (t_rx t')) packet of
             Inl e \<Rightarrow> (Inl e, t')
           | Inr (Session sid) \<Rightarrow> (Inr sid, t')
           | Inr Dummy \<Rightarrow>
               if budget = 0 then (Inl (HandshakeFailed ''too many dummy packets''), t')
               else read_session_id_loop E (budget - 1) t'))"

declare read_session_id_loop.simps [simp del]

definition read_session_id :: "'r env_ops \<Rightarrow> 'r transmission \<Rightarrow> u128 core_result \<times> 'r transmission" where
  "read_session_id E t = read_session_id_loop E (max_nop_packets (tx_key (t_tx t))) t"

definition handshake_client_send ::
  "'r env_ops \<Rightarrow> session_role \<Rightarrow> 'r transmission \<Rightarrow> unit core_result \<times> 'r transmission" where
  "handshake_client_send E role t =
     (case handshake_prelude E t of
        (Inl e, t1) \<Rightarrow> (Inl e, t1)
      | (Inr _, t1) \<Rightarrow>
          let (nonce, rng) = rng_u64 (e_rng E) (tx_rng (t_tx t1));
              ivv = push_bit 64 (ucast (role_tag role)) OR ucast nonce
          in case send_session_id E (t1\<lparr>t_tx := (t_tx t1)\<lparr>tx_rng := rng\<rparr>\<rparr>) ivv of
            (Inl e, t2) \<Rightarrow> (Inl e, t2)
          | (Inr _, t2) \<Rightarrow>
              (Inr (), t2\<lparr>t_tx := tx_on_handshake_complete (tx_rekey E ivv (t_tx t2)),
                          t_pending := Some (ivv, role)\<rparr>))"

definition confirm_check ::
  "obfuscation_key \<Rightarrow> session_role \<Rightarrow> u128 \<Rightarrow> core_error option" where
  "confirm_check key role nmux =
     (let mux = (nmux AND 1 = 1); nmux_high = ucast (drop_bit 64 nmux) :: u64
      in
        if nmux_high AND CANARY_MAGIC_MASK = CANARY_MAGIC \<and> nmux_high \<noteq> flag_canary key
        then Some FlagsMismatch
        else if mux \<noteq> (role = MuxTunnel) then Some RoleRefused
        else None)"

definition handshake_client_confirm ::
  "'r env_ops \<Rightarrow> 'r transmission \<Rightarrow> u128 core_result \<times> 'r transmission" where
  "handshake_client_confirm E t =
     (case t_pending t of
        None \<Rightarrow> (Inl (HandshakeFailed ''confirm without send phase''), t)
      | Some (ivv, role) \<Rightarrow>
          (case read_session_id E (t\<lparr>t_pending := None\<rparr>) of
             (Inl e, t1) \<Rightarrow> (Inl e, t1)
           | (Inr sid, t1) \<Rightarrow>
               if sid = 0 then (Inl (HandshakeFailed ''server session id is zero''), t1)
               else (case read_session_id E t1 of
                       (Inl e, t2) \<Rightarrow> (Inl e, t2)
                     | (Inr nmux, t2) \<Rightarrow>
                         if nmux = 0 then (Inl (HandshakeFailed ''nmux is zero''), t2)
                         else (case confirm_check (tx_key (t_tx t2)) role nmux of
                                 Some e \<Rightarrow> (Inl e, t2)
                               | None \<Rightarrow>
                                   (Inr sid,
                                    t2\<lparr>t_rx := rx_on_handshake_complete (rx_rekey E ivv (t_rx t2)),
                                       t_session_id := sid\<rparr>)))))"

definition handshake_client ::
  "'r env_ops \<Rightarrow> session_role \<Rightarrow> 'r transmission \<Rightarrow> u128 core_result \<times> 'r transmission" where
  "handshake_client E role t =
     (case handshake_client_send E role t of
        (Inl e, t1) \<Rightarrow> (Inl e, t1)
      | (Inr _, t1) \<Rightarrow> handshake_client_confirm E t1)"

definition effective_role :: "session_role \<Rightarrow> bool \<Rightarrow> session_role" where
  "effective_role requested allow_bond =
     (if requested = BondLink \<and> \<not> allow_bond then MuxTunnel else requested)"

definition make_nmux :: "obfuscation_key \<Rightarrow> session_role \<Rightarrow> u64 \<Rightarrow> u128" where
  "make_nmux key effective low =
     (let nmux = push_bit 64 (ucast (flag_canary key)) OR ucast low
      in if effective = MuxTunnel then nmux OR 1 else nmux AND NOT 1)"

definition handshake_server ::
  "'r env_ops \<Rightarrow> u128 \<Rightarrow> bool \<Rightarrow> 'r transmission \<Rightarrow> session_role core_result \<times> 'r transmission" where
  "handshake_server E session_id allow_bond t =
     (if session_id = 0 then (Inl InvalidSessionId, t)
      else case handshake_prelude E t of
        (Inl e, t1) \<Rightarrow> (Inl e, t1)
      | (Inr _, t1) \<Rightarrow>
          (case send_session_id E t1 session_id of
             (Inl e, t2) \<Rightarrow> (Inl e, t2)
           | (Inr _, t2) \<Rightarrow>
               (case read_session_id E t2 of
                  (Inl e, t3) \<Rightarrow> (Inl e, t3)
                | (Inr ivv, t3) \<Rightarrow>
                    if ivv = 0 then (Inl (HandshakeFailed ''client ivv is zero''), t3)
                    else
                      let effective = effective_role (role_from_ivv ivv) allow_bond;
                          (low, rng) = rng_u64 (e_rng E) (tx_rng (t_tx t3));
                          nmux = make_nmux (tx_key (t_tx t3)) effective low
                      in case send_session_id E (t3\<lparr>t_tx := (t_tx t3)\<lparr>tx_rng := rng\<rparr>\<rparr>) nmux of
                        (Inl e, t4) \<Rightarrow> (Inl e, t4)
                      | (Inr _, t4) \<Rightarrow>
                          let t5 = t_rekey E ivv t4
                          in (Inr effective,
                              t5\<lparr>t_tx := tx_on_handshake_complete (t_tx t5),
                                 t_rx := rx_on_handshake_complete (t_rx t5),
                                 t_session_id := session_id\<rparr>))))"

end
