(* ===== verification/Channel.thy ===== *)
theory Channel
  imports Transmission
begin

text \<open>
  One direction of a connection: a sending core and the peer's receiving core in step.  Whatever
  the sender encrypts, every way of receiving it yields the message and leaves the two in step
  again, before and after the handshake and in either framing.
\<close>

subsection \<open>Cores in step\<close>

text \<open>
  The fields the two ends must share.  Before the handshake the four switches do not matter,
  because all transforms are forced on and the envelope is always base94.
\<close>

definition key_agree :: "bool \<Rightarrow> obfuscation_key \<Rightarrow> obfuscation_key \<Rightarrow> bool" where
  "key_agree handshaked k1 k2 \<longleftrightarrow>
     ok_kf k1 = ok_kf k2 \<and>
     ok_protocol k1 = ok_protocol k2 \<and> ok_protocol_key k1 = ok_protocol_key k2 \<and>
     ok_transport k1 = ok_transport k2 \<and> ok_transport_key k1 = ok_transport_key k2 \<and>
     (handshaked \<longrightarrow> ok_masked k1 = ok_masked k2 \<and> ok_plaintext k1 = ok_plaintext k2 \<and>
        ok_delta_encode k1 = ok_delta_encode k2 \<and> ok_shuffle_data k1 = ok_shuffle_data k2)"

definition chan_sync :: "'r tx_core \<Rightarrow> rx_core \<Rightarrow> bool" where
  "chan_sync tx rx \<longleftrightarrow>
     key_agree (tx_handshaked tx) (tx_key tx) (rx_key rx) \<and>
     rx_handshaked rx = tx_handshaked tx \<and>
     framer_sync (tx_b94 tx) (rx_b94 rx) \<and>
     cipher_sync (tx_protocol tx) (rx_protocol rx) \<and>
     cipher_sync (tx_transport tx) (rx_transport rx)"

definition base94_mode :: "rx_core \<Rightarrow> bool" where
  "base94_mode rx \<longleftrightarrow> \<not> rx_handshaked rx \<or> ok_plaintext (rx_key rx)"

lemma chan_sync_mode:
  "chan_sync tx rx \<Longrightarrow> base94_mode rx \<longleftrightarrow> \<not> tx_handshaked tx \<or> ok_plaintext (tx_key tx)"
  by (auto simp: chan_sync_def key_agree_def base94_mode_def)

lemma chan_sync_flags:
  "chan_sync tx rx \<Longrightarrow>
   effective_flags (rx_key rx) (rx_handshaked rx) = effective_flags (tx_key tx) (tx_handshaked tx) \<and>
   ok_kf (rx_key rx) = ok_kf (tx_key tx)"
  by (auto simp: chan_sync_def key_agree_def effective_flags_def)

lemma tx_new_sync:
  "key_agree False k1 k2 \<Longrightarrow> chan_sync (tx_new E k1 rng) (rx_new E k2)"
  using cipher_derive_sync framer_new_sync
  by (simp add: chan_sync_def tx_new_def rx_new_def key_agree_def cipher_new_def)

lemma rekey_sync:
  assumes "framer_sync (tx_b94 tx) (rx_b94 rx)" and "key_agree True (tx_key tx) (rx_key rx)"
  shows "chan_sync (tx_on_handshake_complete (tx_rekey E ivv tx))
                   (rx_on_handshake_complete (rx_rekey E ivv rx))"
  using assms cipher_derive_sync
  by (simp add: chan_sync_def tx_on_handshake_complete_def rx_on_handshake_complete_def
      tx_rekey_def rx_rekey_def key_agree_def Let_def)

subsection \<open>What a packet means to the receiver\<close>

text \<open>\<open>bin\<close> is a binary packet that \<open>rx\<close> decrypts to \<open>msg\<close>, ending in \<open>rx'\<close>.\<close>

definition packet_for :: "'r env_ops \<Rightarrow> rx_core \<Rightarrow> bytes \<Rightarrow> bytes \<Rightarrow> rx_core \<Rightarrow> bool" where
  "packet_for E rx bin msg rx' \<longleftrightarrow>
     (\<exists>hdr body hk p t. bin = hdr @ body \<and> length hdr = HEADER_SIZE \<and>
        0 < length body \<and> length body \<le> PPP_BUFFER_SIZE \<and>
        header_decrypt (e_crypto E) (ok_kf (rx_key rx)) (Some (rx_protocol rx)) hdr =
          (Inr (length body, hk), Some p) \<and>
        cipher_apply (e_crypto E) (rx_transport rx)
          (payload_deobfuscate body (effective_flags (rx_key rx) (rx_handshaked rx)) hk
             (ok_kf (rx_key rx))) = (msg, t) \<and>
        length msg = length body \<and>
        rx' = rx\<lparr>rx_protocol := p, rx_transport := t\<rparr>)"

definition rx_after_frame :: "rx_core \<Rightarrow> rx_core" where
  "rx_after_frame rx = rx\<lparr>rx_b94 := (rx_b94 rx)\<lparr>fr_rx_first := False\<rparr>\<rparr>"

definition wire_for :: "'r env_ops \<Rightarrow> rx_core \<Rightarrow> bytes \<Rightarrow> bytes \<Rightarrow> rx_core \<Rightarrow> bool" where
  "wire_for E rx wire msg rx' \<longleftrightarrow>
     (if base94_mode rx
      then \<exists>bin. frame_for (e_b94 E) (rx_b94 rx) wire bin \<and>
                 packet_for E (rx_after_frame rx) bin msg rx'
      else packet_for E rx wire msg rx')"

lemma packet_for_tail:
  "packet_for E rx bin msg rx' \<Longrightarrow> rx_tail E rx bin = (Inr msg, rx')"
  by (auto simp: packet_for_def rx_tail_def decrypt_tail_def parse_binary_header_def Let_def Suc_le_eq)

lemma wire_for_decrypt: "wire_for E rx wire msg rx' \<Longrightarrow> rx_decrypt E rx wire = (Inr msg, rx')"
  by (auto simp: wire_for_def rx_decrypt_def base94_mode_def frame_for_decode_packet packet_for_tail
      rx_after_frame_def split: if_splits)

lemma packet_for_finish:
  assumes "packet_for E rx bin msg rx'"
  shows "\<exists>p hk. parse_binary_header E (ok_kf (rx_key rx)) (rx_protocol rx) (take HEADER_SIZE bin)
           (Some (length bin)) = (Inr (length bin - HEADER_SIZE, hk), p) \<and>
         parse_binary_header E (ok_kf (rx_key rx)) (rx_protocol rx) (take HEADER_SIZE bin) None =
           (Inr (length bin - HEADER_SIZE, hk), p) \<and>
         rx_finish E (rx\<lparr>rx_protocol := p\<rparr>) hk (drop HEADER_SIZE bin) = (msg, rx') \<and>
         HEADER_SIZE < length bin"
  using assms by (auto simp: packet_for_def parse_binary_header_def rx_finish_def Let_def
      Suc_le_eq)

lemma wire_for_read_buf:
  assumes w: "wire_for E rx wire msg rx'" and io: "tr_in io = wire @ rest"
  shows "rx_read_buf E rx io = (Inr msg, rx', io\<lparr>tr_in := rest\<rparr>)"
proof (cases "base94_mode rx")
  case True
  then obtain bin where f: "frame_for (e_b94 E) (rx_b94 rx) wire bin"
    and p: "packet_for E (rx_after_frame rx) bin msg rx'"
    using w by (auto simp: wire_for_def)
  show ?thesis
    using True packet_for_finish [OF p] frame_for_read_frame [OF f io]
    by (auto simp: rx_read_buf_def base94_mode_def rx_after_frame_def Let_def)
next
  case False
  then have p: "packet_for E rx wire msg rx'" using w by (simp add: wire_for_def)
  obtain pc hk where f: "parse_binary_header E (ok_kf (rx_key rx)) (rx_protocol rx)
        (take HEADER_SIZE wire) None = (Inr (length wire - HEADER_SIZE, hk), pc)"
      "rx_finish E (rx\<lparr>rx_protocol := pc\<rparr>) hk (drop HEADER_SIZE wire) = (msg, rx')"
      "HEADER_SIZE < length wire"
    using packet_for_finish [OF p] by auto
  have "read_exact HEADER_SIZE io =
      (Inr (take HEADER_SIZE wire), io\<lparr>tr_in := drop HEADER_SIZE wire @ rest\<rparr>)"
    using f(3) io by (intro read_exact_append) (simp_all add: append_take_drop_id [symmetric]
        del: append_take_drop_id)
  moreover have "read_upto (length wire - HEADER_SIZE) (io\<lparr>tr_in := drop HEADER_SIZE wire @ rest\<rparr>) =
      (Inr (drop HEADER_SIZE wire), io\<lparr>tr_in := rest\<rparr>)"
    using read_upto_append [of "drop HEADER_SIZE wire" "length wire - HEADER_SIZE"
        "io\<lparr>tr_in := drop HEADER_SIZE wire @ rest\<rparr>" rest] by simp
  ultimately show ?thesis
    using False f by (simp add: rx_read_buf_def base94_mode_def Let_def)
qed

subsection \<open>Encryption is received\<close>

lemma encrypted_packet_for:
  assumes sync: "chan_sync tx rx"
    and hdr: "header_encrypt (e_crypto E) (e_rng E) rng (ok_kf (tx_key tx)) (Some (tx_protocol tx))
                (length data) = (Inr (h, hk), rng', p)"
    and ct: "cipher_apply (e_crypto E) (tx_transport tx) data = (body, t)"
  shows "\<exists>rx'. packet_for E rx (h @ payload_obfuscate body (effective_flags (tx_key tx)
            (tx_handshaked tx)) hk (ok_kf (tx_key tx))) data rx' \<and>
          cipher_sync (the p) (rx_protocol rx') \<and> cipher_sync t (rx_transport rx') \<and>
          rx' = rx\<lparr>rx_protocol := rx_protocol rx', rx_transport := rx_transport rx'\<rparr> \<and>
          p \<noteq> None \<and> length h = HEADER_SIZE \<and> length body = length data"
proof -
  let ?fl = "effective_flags (tx_key tx) (tx_handshaked tx)" and ?kf = "ok_kf (tx_key tx)"
  have ps: "opt_sync (Some (tx_protocol tx)) (Some (rx_protocol rx))"
    and ts: "cipher_sync (tx_transport tx) (rx_transport rx)"
    using sync by (simp_all add: chan_sync_def)
  obtain pd where pd: "header_decrypt (e_crypto E) ?kf (Some (rx_protocol rx)) h =
      (Inr (length data, hk), pd)" "opt_sync p pd" "length h = HEADER_SIZE"
      "0 < length data" "length data \<le> PPP_BUFFER_SIZE"
    using header_roundtrip_lemma [OF ps hdr] by blast
  obtain pe where pe: "p = Some pe"
    using hdr by (auto simp: header_encrypt_def opt_apply_def Let_def split: if_splits prod.splits)
  then obtain pd' where pd': "pd = Some pd'" "cipher_sync pe pd'" using pd(2) by (cases pd) auto
  obtain td where td: "cipher_apply (e_crypto E) (rx_transport rx) body = (data, td)"
      "cipher_sync t td"
    using cipher_apply_sync [OF ts ct] by blast
  have lb: "length body = length data"
    using cipher_apply_length [of "tx_transport tx" "e_crypto E" data] ct ts
    by (simp add: cipher_sync_def)
  have "payload_deobfuscate (payload_obfuscate body ?fl hk ?kf) ?fl hk ?kf = body"
    using pd(5) lb by (intro payload_roundtrip) (simp add: np_consts)
  then have "packet_for E rx (h @ payload_obfuscate body ?fl hk ?kf) data
      (rx\<lparr>rx_protocol := pd', rx_transport := td\<rparr>)"
    unfolding packet_for_def
    using pd pd' td lb chan_sync_flags [OF sync]
    by (intro exI [of _ h] exI [of _ "payload_obfuscate body ?fl hk ?kf"] exI [of _ hk]
        exI [of _ pd'] exI [of _ td]) simp
  then show ?thesis
    using pe pd' td pd(3) lb
    by (intro exI [of _ "rx\<lparr>rx_protocol := pd', rx_transport := td\<rparr>"]) simp
qed

lemma header_encrypt_ok:
  "0 < n \<Longrightarrow> n \<le> PPP_BUFFER_SIZE \<Longrightarrow>
   \<exists>h hk rng' p'. header_encrypt cr R rng kf p n = (Inr (h, hk), rng', p')"
  by (auto simp: header_encrypt_def Let_def split: prod.splits)

lemma packet_for_frame_state:
  assumes "packet_for E rx bin msg rx'"
  shows "packet_for E (rx_after_frame rx) bin msg (rx_after_frame rx')"
proof -
  obtain hdr body hk p t where *: "bin = hdr @ body" "length hdr = HEADER_SIZE"
    "0 < length body" "length body \<le> PPP_BUFFER_SIZE"
    "header_decrypt (e_crypto E) (ok_kf (rx_key rx)) (Some (rx_protocol rx)) hdr =
       (Inr (length body, hk), Some p)"
    "cipher_apply (e_crypto E) (rx_transport rx)
       (payload_deobfuscate body (effective_flags (rx_key rx) (rx_handshaked rx)) hk
          (ok_kf (rx_key rx))) = (msg, t)" "length msg = length body"
    "rx' = rx\<lparr>rx_protocol := p, rx_transport := t\<rparr>"
    using assms unfolding packet_for_def by blast
  show ?thesis
    unfolding packet_for_def
    by (intro exI [of _ hdr] exI [of _ body] exI [of _ hk] exI [of _ p] exI [of _ t])
      (use * in \<open>simp add: rx_after_frame_def\<close>)
qed

definition max_wire_len :: "bool \<Rightarrow> nat \<Rightarrow> nat" where
  "max_wire_len b94 n = (if b94 then HEADER_EXTENDED + 2 * (HEADER_SIZE + n) else HEADER_SIZE + n)"

definition core_frame :: "'r tx_core \<Rightarrow> 'r tx_core \<Rightarrow> bool" where
  "core_frame tx tx' \<longleftrightarrow> tx_key tx' = tx_key tx \<and> tx_handshaked tx' = tx_handshaked tx"

text \<open>
  The central lemma of the data plane: an acceptable message is always encrypted, and the wire
  bytes mean that message to the peer, leaving the two cores in step.
\<close>

lemma encrypt_impl_ok:
  assumes env: "env_ok E" and sync: "chan_sync tx rx"
    and len: "0 < length prefix + length payload" "length prefix + length payload \<le> PPP_BUFFER_SIZE"
  shows "\<exists>wire tx' rx'. encrypt_impl E tx out prefix payload = (Inr (), tx', out @ wire) \<and>
    wire_for E rx wire (prefix @ payload) rx' \<and> chan_sync tx' rx' \<and> core_frame tx tx' \<and>
    rx_key rx' = rx_key rx \<and> (base94_mode rx \<longrightarrow> list_all printable wire) \<and>
    0 < length wire \<and> length wire \<le> max_wire_len (base94_mode rx) (length prefix + length payload)"
proof -
  let ?n = "length payload + length prefix" and ?data = "prefix @ payload"
  let ?fl = "effective_flags (tx_key tx) (tx_handshaked tx)" and ?kf = "ok_kf (tx_key tx)"
  obtain h hk rng p where hdr: "header_encrypt (e_crypto E) (e_rng E) (tx_rng tx) ?kf
      (Some (tx_protocol tx)) ?n = (Inr (h, hk), rng, p)"
    using header_encrypt_ok [of ?n] len by (metis add.commute)
  obtain body t where ct: "cipher_apply (e_crypto E) (tx_transport tx) ?data = (body, t)" by fastforce
  define packet where "packet = h @ payload_obfuscate body ?fl hk ?kf"
  have hdr': "header_encrypt (e_crypto E) (e_rng E) (tx_rng tx) ?kf (Some (tx_protocol tx))
      (length ?data) = (Inr (h, hk), rng, p)" using hdr by (simp add: add.commute)
  obtain rx1 where rx1: "packet_for E rx packet ?data rx1" "cipher_sync (the p) (rx_protocol rx1)"
      "cipher_sync t (rx_transport rx1)"
      "rx1 = rx\<lparr>rx_protocol := rx_protocol rx1, rx_transport := rx_transport rx1\<rparr>"
      and pl: "length packet = HEADER_SIZE + ?n"
    using encrypted_packet_for [OF sync hdr' ct] by (auto simp: packet_def add.commute)
  have kept: "rx_key rx1 = rx_key rx" "rx_handshaked rx1 = rx_handshaked rx" "rx_b94 rx1 = rx_b94 rx"
    using rx1(4) by (metis rx_core.select_convs rx_core.surjective rx_core.update_convs)+
  let ?tx1 = "tx\<lparr>tx_rng := rng, tx_protocol := the p, tx_transport := t\<rparr>"
  have sync1: "chan_sync ?tx1 rx1"
    using sync rx1(2,3) kept by (simp add: chan_sync_def)
  have ne: "payload = [] \<longrightarrow> prefix \<noteq> []" using len(1) by auto
  show ?thesis
  proof (cases "base94_mode rx")
    case False
    then have "encrypt_impl E tx out prefix payload = (Inr (), ?tx1, out @ packet)"
      using ne len hdr ct chan_sync_mode [OF sync]
      by (simp add: encrypt_impl_def Let_def packet_def)
    then show ?thesis
      using False rx1(1) sync1 kept pl len
      by (intro exI [of _ packet] exI [of _ ?tx1] exI [of _ rx1])
        (simp add: wire_for_def core_frame_def max_wire_len_def np_consts)
  next
    case True
    have fs: "framer_sync (tx_b94 tx) (rx_b94 rx)" using sync by (simp add: chan_sync_def)
    have "packet \<noteq> []" "2 * length packet \<le> BASE94_MAX_FRAME"
      using pl len by (auto simp: np_consts)
    then obtain frame rng2 where
      fr: "encode_frame (e_b94 E) (e_rng E) (tx_b94 tx) rng out packet =
        (Inr (), rng2, (tx_b94 tx)\<lparr>fr_tx_first := False\<rparr>, out @ frame)"
      "frame_for (e_b94 E) (rx_b94 rx) frame packet" "list_all printable frame"
      "length frame \<le> HEADER_EXTENDED + 2 * length packet"
      using encode_frame_ok [of "e_b94 E" "e_rng E" "tx_b94 tx" "rx_b94 rx" packet rng out] env fs
      by (auto simp: env_ok_def)
    let ?tx2 = "?tx1\<lparr>tx_rng := rng2, tx_b94 := (tx_b94 tx)\<lparr>fr_tx_first := False\<rparr>\<rparr>"
    have enc: "encrypt_impl E tx out prefix payload = (Inr (), ?tx2, out @ frame)"
      using True ne len hdr ct fr(1) chan_sync_mode [OF sync]
      by (simp add: encrypt_impl_def Let_def packet_def [symmetric])
    have "wire_for E rx frame ?data (rx_after_frame rx1)"
      using True fr(2) packet_for_frame_state [OF rx1(1)] by (auto simp: wire_for_def)
    moreover have "chan_sync ?tx2 (rx_after_frame rx1)"
      using sync1 kept framer_sync_advance [OF fs] by (simp add: chan_sync_def rx_after_frame_def)
    moreover have "0 < length frame"
      using fr(2) by (auto simp: frame_for_def rx_header_len_def np_consts split: if_splits)
    ultimately show ?thesis
      using enc True fr(3,4) kept pl
      by (intro exI [of _ frame] exI [of _ ?tx2] exI [of _ "rx_after_frame rx1"])
        (simp add: core_frame_def max_wire_len_def rx_after_frame_def add.commute)
  qed
qed

lemma encrypt_impl_errors:
  "encrypt_impl E tx out [] [] = (Inl ZeroLength, tx, out)"
  "PPP_BUFFER_SIZE < length prefix + length payload \<Longrightarrow>
   encrypt_impl E tx out prefix payload =
     (Inl (FrameTooLarge (length prefix + length payload)), tx, out)"
  by (auto simp: encrypt_impl_def Let_def add.commute)

subsection \<open>Streams of messages\<close>

fun encrypt_seq :: "'r env_ops \<Rightarrow> 'r tx_core \<Rightarrow> bytes \<Rightarrow> bytes list \<Rightarrow> unit core_result \<times> 'r tx_core \<times> bytes" where
  "encrypt_seq E tx out [] = (Inr (), tx, out)"
| "encrypt_seq E tx out (m # ms) =
     (case encrypt_into E tx out m of
        (Inl e, tx', out') \<Rightarrow> (Inl e, tx', out')
      | (Inr _, tx', out') \<Rightarrow> encrypt_seq E tx' out' ms)"

fun read_seq :: "'r env_ops \<Rightarrow> rx_core \<Rightarrow> transport \<Rightarrow> nat \<Rightarrow> bytes list \<times> rx_core \<times> transport" where
  "read_seq E rx io 0 = ([], rx, io)"
| "read_seq E rx io (Suc n) =
     (case rx_read_buf E rx io of
        (Inl e, rx', io') \<Rightarrow> ([], rx', io')
      | (Inr m, rx', io') \<Rightarrow> (let (ms, rx'', io'') = read_seq E rx' io' n in (m # ms, rx'', io'')))"

definition sendable :: "bytes \<Rightarrow> bool" where
  "sendable m \<longleftrightarrow> m \<noteq> [] \<and> length m \<le> PPP_BUFFER_SIZE"

lemma encrypt_into_ok:
  assumes "env_ok E" and "chan_sync tx rx" and "sendable m"
  shows "\<exists>wire tx' rx'. encrypt_into E tx out m = (Inr (), tx', out @ wire) \<and>
    wire_for E rx wire m rx' \<and> chan_sync tx' rx' \<and> core_frame tx tx' \<and> rx_key rx' = rx_key rx"
  using encrypt_impl_ok [OF assms(1,2), of "[]" m out] assms(3)
  by (auto simp: sendable_def encrypt_into_def)

lemma stream_delivery:
  assumes env: "env_ok E" and sync: "chan_sync tx rx" and ms: "list_all sendable ms"
  shows "\<exists>wires tx' rx'. encrypt_seq E tx out ms = (Inr (), tx', out @ wires) \<and> chan_sync tx' rx' \<and>
    (\<forall>io rest. tr_in io = wires @ rest \<longrightarrow>
       read_seq E rx io (length ms) = (ms, rx', io\<lparr>tr_in := rest\<rparr>))"
  using sync ms
proof (induction ms arbitrary: tx rx out)
  case Nil
  then show ?case by (intro exI [of _ "[]"] exI [of _ tx] exI [of _ rx]) auto
next
  case (Cons m ms)
  obtain w tx1 rx1 where 1: "encrypt_into E tx out m = (Inr (), tx1, out @ w)"
    "wire_for E rx w m rx1" "chan_sync tx1 rx1"
    using encrypt_into_ok [OF env Cons.prems(1), of m out] Cons.prems(2) by auto
  obtain ws tx2 rx2 where 2: "encrypt_seq E tx1 (out @ w) ms = (Inr (), tx2, (out @ w) @ ws)"
    "chan_sync tx2 rx2"
    "\<And>io rest. tr_in io = ws @ rest \<Longrightarrow>
       read_seq E rx1 io (length ms) = (ms, rx2, io\<lparr>tr_in := rest\<rparr>)"
    using Cons.IH [OF 1(3), of "out @ w"] Cons.prems(2) by auto
  have "read_seq E rx io (length (m # ms)) = (m # ms, rx2, io\<lparr>tr_in := rest\<rparr>)"
    if "tr_in io = (w @ ws) @ rest" for io rest
    using wire_for_read_buf [OF 1(2), of io "ws @ rest"] that 2(3) [of "io\<lparr>tr_in := ws @ rest\<rparr>" rest]
    by simp
  with 1 2 show ?case
    by (intro exI [of _ "w @ ws"] exI [of _ tx2] exI [of _ rx2]) auto
qed

end
