(* ===== verification/Handshake_Run.thy ===== *)
theory Handshake_Run
  imports Channel
begin

text \<open>
  The two-sided handshake.  Each endpoint runs as its own state machine over its transport; what
  one end wrote is what the other end reads.  The lemmas follow the wire: which packets each
  phase emits, what they mean to the peer's receiving core, and that the reader skips the noise.
\<close>

subsection \<open>Sequences of packets on the wire\<close>

fun stream_for :: "'r env_ops \<Rightarrow> rx_core \<Rightarrow> bytes \<Rightarrow> bytes list \<Rightarrow> rx_core \<Rightarrow> bool" where
  "stream_for E rx w [] rx' \<longleftrightarrow> w = [] \<and> rx' = rx"
| "stream_for E rx w (m # ms) rx' \<longleftrightarrow>
     (\<exists>w1 w2 rx1. w = w1 @ w2 \<and> wire_for E rx w1 m rx1 \<and> stream_for E rx1 w2 ms rx')"

lemma stream_for_append:
  "stream_for E rx w1 ms rx1 \<Longrightarrow> stream_for E rx1 w2 ns rx2 \<Longrightarrow>
   stream_for E rx (w1 @ w2) (ms @ ns) rx2"
proof (induction ms arbitrary: rx w1)
  case (Cons m ms)
  then show ?case by (metis append_Cons append_assoc stream_for.simps(2))
qed simp

lemma stream_for_one: "wire_for E rx w m rx' \<Longrightarrow> stream_for E rx w [m] rx'"
  by auto

text \<open>\<open>t'\<close> is \<open>t\<close> after writing \<open>w\<close>: only the sending core and the output changed.\<close>

definition wrote :: "'r transmission \<Rightarrow> 'r transmission \<Rightarrow> bytes \<Rightarrow> bool" where
  "wrote t t' w \<longleftrightarrow>
     t' = t\<lparr>t_tx := t_tx t', t_io := (t_io t)\<lparr>tr_out := tr_out (t_io t) @ w\<rparr>\<rparr> \<and>
     core_frame (t_tx t) (t_tx t')"

lemma wroteD:
  assumes "wrote t t' w"
  shows "t_rx t' = t_rx t" "t_session_id t' = t_session_id t" "t_pending t' = t_pending t"
    "t_io t' = (t_io t)\<lparr>tr_out := tr_out (t_io t) @ w\<rparr>" "tx_key (t_tx t') = tx_key (t_tx t)"
    "tx_handshaked (t_tx t') = tx_handshaked (t_tx t)"
proof -
  have t': "t' = t\<lparr>t_tx := t_tx t', t_io := (t_io t)\<lparr>tr_out := tr_out (t_io t) @ w\<rparr>\<rparr>"
    and f: "core_frame (t_tx t) (t_tx t')" using assms by (simp_all add: wrote_def)
  show "t_rx t' = t_rx t" "t_session_id t' = t_session_id t" "t_pending t' = t_pending t"
    "t_io t' = (t_io t)\<lparr>tr_out := tr_out (t_io t) @ w\<rparr>"
    by (subst t', simp)+
  show "tx_key (t_tx t') = tx_key (t_tx t)" "tx_handshaked (t_tx t') = tx_handshaked (t_tx t)"
    using f by (simp_all add: core_frame_def)
qed

lemma wrote_refl: "wrote t t []"
  by (simp add: wrote_def core_frame_def)

lemma wrote_trans:
  assumes "wrote t t1 w1" "wrote t1 t2 w2"
  shows "wrote t t2 (w1 @ w2)"
  unfolding wrote_def
proof
  show "t2 = t\<lparr>t_tx := t_tx t2, t_io := (t_io t)\<lparr>tr_out := tr_out (t_io t) @ w1 @ w2\<rparr>\<rparr>"
    using wroteD [OF assms(1)] wroteD [OF assms(2)] by simp
  show "core_frame (t_tx t) (t_tx t2)"
    using assms by (simp add: wrote_def core_frame_def)
qed

lemma wrote_rng: "wrote (t\<lparr>t_tx := (t_tx t)\<lparr>tx_rng := r\<rparr>\<rparr>) t' w \<Longrightarrow> wrote t t' w"
  by (simp add: wrote_def core_frame_def)

lemma chan_sync_rng [simp]: "chan_sync (tx\<lparr>tx_rng := r\<rparr>) rx \<longleftrightarrow> chan_sync tx rx"
  by (simp add: chan_sync_def)

subsection \<open>Sending\<close>

lemma t_write_ok:
  assumes env: "env_ok E" and sync: "chan_sync (t_tx t) rx" and m: "sendable m"
    and room: "tr_out_room (t_io t) = None"
  shows "\<exists>t' w rx'. t_write E t m = (Inr (), t') \<and> wrote t t' w \<and> wire_for E rx w m rx' \<and>
    chan_sync (t_tx t') rx' \<and> rx_key rx' = rx_key rx"
proof -
  obtain w tx' rx' where 1: "encrypt_into E (t_tx t) [] m = (Inr (), tx', w)"
    "wire_for E rx w m rx'" "chan_sync tx' rx'" "core_frame (t_tx t) tx'" "rx_key rx' = rx_key rx"
    using encrypt_into_ok [OF env sync m, of "[]"] by auto
  let ?t' = "t\<lparr>t_tx := tx', t_io := (t_io t)\<lparr>tr_out := tr_out (t_io t) @ w\<rparr>\<rparr>"
  have "t_write E t m = (Inr (), ?t')"
    using 1(1) room by (simp add: t_write_def tx_write_def write_all_def)
  with 1 show ?thesis
    by (intro exI [of _ ?t'] exI [of _ w] exI [of _ rx']) (simp add: wrote_def)
qed

text \<open>The meaning of a handshake packet does not depend on the receiver's key.\<close>

definition means_id :: "bytes \<Rightarrow> u128 \<Rightarrow> bool" where
  "means_id p sid \<longleftrightarrow>
     (\<forall>key. unpack_session_id key p = Inr (if sid = 0 then Dummy else Session sid))"

lemma send_session_id_ok:
  assumes env: "env_ok E" and sync: "chan_sync (t_tx t) rx" and room: "tr_out_room (t_io t) = None"
  shows "\<exists>t' w p rx'. send_session_id E t sid = (Inr (), t') \<and> wrote t t' w \<and>
    wire_for E rx w p rx' \<and> means_id p sid \<and> chan_sync (t_tx t') rx' \<and> rx_key rx' = rx_key rx"
proof -
  obtain p r where p: "pack_session_id (e_rng E) (tx_rng (t_tx t)) (tx_key (t_tx t)) sid = (p, r)"
    by fastforce
  have R: "rng_ok (e_rng E)" using env by (simp add: env_ok_def)
  have "sendable p"
    using pack_length [OF R p] by (auto simp: sendable_def np_consts)
  moreover have "means_id p sid"
    using pack_real_unpack [OF R _ p] pack_dummy_unpack [OF R] p by (auto simp: means_id_def)
  ultimately show ?thesis
    using t_write_ok [OF env, of "t\<lparr>t_tx := (t_tx t)\<lparr>tx_rng := r\<rparr>\<rparr>" rx p] sync room p
    by (auto simp: send_session_id_def dest!: wrote_rng)
qed

lemma send_nops_ok:
  assumes env: "env_ok E" and sync: "chan_sync (t_tx t) rx" and room: "tr_out_room (t_io t) = None"
  shows "\<exists>t' w ps rx'. send_nops E n t = (Inr (), t') \<and> wrote t t' w \<and>
    stream_for E rx w ps rx' \<and> length ps = n \<and> list_all (\<lambda>p. means_id p 0) ps \<and>
    chan_sync (t_tx t') rx' \<and> rx_key rx' = rx_key rx"
  using sync room
proof (induction n arbitrary: t rx)
  case 0
  then show ?case
    by (intro exI [of _ t] exI [of _ "[]"] exI [of _ rx]) (simp add: wrote_refl)
next
  case (Suc n)
  obtain t1 w1 p rx1 where 1: "send_session_id E t 0 = (Inr (), t1)" "wrote t t1 w1"
    "wire_for E rx w1 p rx1" "means_id p 0" "chan_sync (t_tx t1) rx1" "rx_key rx1 = rx_key rx"
    using send_session_id_ok [OF env Suc.prems, of 0] by blast
  have "tr_out_room (t_io t1) = None" using Suc.prems(2) wroteD(4) [OF 1(2)] by simp
  then obtain t2 w2 ps rx2 where 2: "send_nops E n t1 = (Inr (), t2)" "wrote t1 t2 w2"
    "stream_for E rx1 w2 ps rx2" "length ps = n" "list_all (\<lambda>p. means_id p 0) ps"
    "chan_sync (t_tx t2) rx2" "rx_key rx2 = rx_key rx1"
    using Suc.IH [OF 1(5)] by blast
  show ?case
    using 1 2 wrote_trans [OF 1(2) 2(2)]
    by (intro exI [of _ t2] exI [of _ "w1 @ w2"] exI [of _ "p # ps"] exI [of _ rx2]) auto
qed

lemma handshake_prelude_ok:
  assumes env: "env_ok E" and sync: "chan_sync (t_tx t) rx" and room: "tr_out_room (t_io t) = None"
    and v: "validate (tx_key (t_tx t)) = Inr u"
  shows "\<exists>t' w ps rx'. handshake_prelude E t = (Inr (), t') \<and> wrote t t' w \<and>
    stream_for E rx w ps rx' \<and> length ps \<le> max_nop_packets (tx_key (t_tx t)) \<and>
    list_all (\<lambda>p. means_id p 0) ps \<and> chan_sync (t_tx t') rx' \<and> rx_key rx' = rx_key rx"
proof -
  obtain n r where n: "nop_rounds (e_rng E) (tx_rng (t_tx t)) (tx_key (t_tx t)) = (n, r)" by fastforce
  have "n \<le> max_nop_packets (tx_key (t_tx t))"
    using nop_rounds_bounds [OF _ v n] env by (simp add: env_ok_def)
  then show ?thesis
    using send_nops_ok [OF env, of "t\<lparr>t_tx := (t_tx t)\<lparr>tx_rng := r\<rparr>\<rparr>" rx n] sync room n
    by (auto simp: handshake_prelude_def dest!: wrote_rng)
qed

subsection \<open>Receiving\<close>

lemma t_read_ok:
  "wire_for E (t_rx t) w m rx' \<Longrightarrow> tr_in (t_io t) = w @ rest \<Longrightarrow>
   t_read E t = (Inr m, t\<lparr>t_rx := rx', t_io := (t_io t)\<lparr>tr_in := rest\<rparr>\<rparr>)"
  by (simp add: t_read_def wire_for_read_buf)

lemma read_session_id_loop_ok:
  assumes "stream_for E (t_rx t) w (ps @ [p]) rx'" and "tr_in (t_io t) = w @ rest"
    and "list_all (\<lambda>p. means_id p 0) ps" and "means_id p sid" and "sid \<noteq> 0"
    and "length ps \<le> budget"
  shows "read_session_id_loop E budget t =
    (Inr sid, t\<lparr>t_rx := rx', t_io := (t_io t)\<lparr>tr_in := rest\<rparr>\<rparr>)"
  using assms
proof (induction ps arbitrary: t w budget)
  case Nil
  then have "t_read E t = (Inr p, t\<lparr>t_rx := rx', t_io := (t_io t)\<lparr>tr_in := rest\<rparr>\<rparr>)"
    by (auto intro: t_read_ok)
  then show ?case
    using Nil by (subst read_session_id_loop.simps) (simp add: means_id_def)
next
  case (Cons q ps)
  then obtain w1 w2 rx1 where w: "w = w1 @ w2" "wire_for E (t_rx t) w1 q rx1"
    "stream_for E rx1 w2 (ps @ [p]) rx'" by auto
  let ?t1 = "t\<lparr>t_rx := rx1, t_io := (t_io t)\<lparr>tr_in := w2 @ rest\<rparr>\<rparr>"
  have "t_read E t = (Inr q, ?t1)"
    using w Cons.prems(2) by (intro t_read_ok) simp_all
  moreover have "read_session_id_loop E (budget - 1) ?t1 =
      (Inr sid, ?t1\<lparr>t_rx := rx', t_io := (t_io ?t1)\<lparr>tr_in := rest\<rparr>\<rparr>)"
    using Cons w by (intro Cons.IH) auto
  moreover have "budget \<noteq> 0" using Cons.prems(6) by auto
  ultimately show ?case
    using Cons.prems(3) by (subst read_session_id_loop.simps) (simp add: means_id_def)
qed

text \<open>One dummy more than the budget ends the handshake.\<close>

lemma read_session_id_loop_flood:
  assumes "stream_for E (t_rx t) w ps rx'" and "tr_in (t_io t) = w @ rest"
    and "list_all (\<lambda>p. means_id p 0) ps" and "length ps = Suc budget"
  shows "\<exists>t'. read_session_id_loop E budget t =
    (Inl (HandshakeFailed ''too many dummy packets''), t')"
  using assms
proof (induction ps arbitrary: t w budget)
  case (Cons q ps)
  then obtain w1 w2 rx1 where w: "w = w1 @ w2" "wire_for E (t_rx t) w1 q rx1"
    "stream_for E rx1 w2 ps rx'" by auto
  let ?t1 = "t\<lparr>t_rx := rx1, t_io := (t_io t)\<lparr>tr_in := w2 @ rest\<rparr>\<rparr>"
  have rd: "t_read E t = (Inr q, ?t1)"
    using w Cons.prems(2) by (intro t_read_ok) simp_all
  have q: "unpack_session_id k q = Inr Dummy" for k
    using Cons.prems(3) by (simp add: means_id_def)
  show ?case
  proof (cases budget)
    case 0
    then show ?thesis using rd q by (subst read_session_id_loop.simps) simp
  next
    case (Suc b)
    then have "\<exists>t'. read_session_id_loop E b ?t1 =
        (Inl (HandshakeFailed ''too many dummy packets''), t')"
      using Cons w by (intro Cons.IH) auto
    then show ?thesis using rd q Suc by (subst read_session_id_loop.simps) simp
  qed
qed simp

subsection \<open>The server's answer word\<close>

lemma make_nmux_high: "ucast (drop_bit 64 (make_nmux key eff low)) = flag_canary key"
  by (rule bit_word_eqI)
    (auto simp: make_nmux_def Let_def bit_simps bit_1_iff dest: bit_imp_le_length)

lemma make_nmux_parity: "make_nmux key eff low AND 1 = 1 \<longleftrightarrow> eff = MuxTunnel"
  by (cases eff) (simp_all add: make_nmux_def Let_def and_one_eq mod_2_eq_odd even_or_iff
      even_and_iff even_not_iff)

lemma flag_canary_nonzero: "flag_canary key \<noteq> 0"
  using flag_canary_magic [of key] by (auto simp: CANARY_MAGIC_def)

lemma make_nmux_nonzero: "make_nmux key eff low \<noteq> 0"
  using make_nmux_high [of key eff low] flag_canary_nonzero [of key] by auto

lemma confirm_check_nmux:
  "confirm_check key role (make_nmux key' eff low) =
     (if flag_canary key' \<noteq> flag_canary key then Some FlagsMismatch
      else if eff \<noteq> role then Some RoleRefused else None)"
proof -
  have r: "(eff = MuxTunnel) \<noteq> (role = MuxTunnel) \<longleftrightarrow> eff \<noteq> role" by (cases eff; cases role) auto
  show ?thesis
    unfolding confirm_check_def Let_def make_nmux_high make_nmux_parity flag_canary_magic
    using r by auto
qed

subsection \<open>The phases\<close>

lemma handshake_client_send_ok:
  assumes env: "env_ok E" and sync: "chan_sync (t_tx c) rx" and room: "tr_out_room (t_io c) = None"
    and v: "validate (tx_key (t_tx c)) = Inr u"
  shows "\<exists>c' w ps p ivv tx2 rx'. handshake_client_send E role c = (Inr (), c') \<and>
    stream_for E rx w (ps @ [p]) rx' \<and> list_all (\<lambda>p. means_id p 0) ps \<and>
    length ps \<le> max_nop_packets (tx_key (t_tx c)) \<and> means_id p ivv \<and> ivv \<noteq> 0 \<and>
    role_from_ivv ivv = role \<and>
    c' = c\<lparr>t_tx := tx_on_handshake_complete (tx_rekey E ivv tx2),
           t_io := (t_io c)\<lparr>tr_out := tr_out (t_io c) @ w\<rparr>, t_pending := Some (ivv, role)\<rparr> \<and>
    chan_sync tx2 rx' \<and> core_frame (t_tx c) tx2 \<and> rx_key rx' = rx_key rx"
proof -
  obtain t1 w1 ps rx1 where 1: "handshake_prelude E c = (Inr (), t1)" "wrote c t1 w1"
    "stream_for E rx w1 ps rx1" "length ps \<le> max_nop_packets (tx_key (t_tx c))"
    "list_all (\<lambda>p. means_id p 0) ps" "chan_sync (t_tx t1) rx1" "rx_key rx1 = rx_key rx"
    using handshake_prelude_ok [OF env sync room v] by blast
  obtain nonce r where n: "rng_u64 (e_rng E) (tx_rng (t_tx t1)) = (nonce, r)" by fastforce
  let ?ivv = "push_bit 64 (ucast (role_tag role)) OR ucast nonce :: u128"
  let ?t1 = "t1\<lparr>t_tx := (t_tx t1)\<lparr>tx_rng := r\<rparr>\<rparr>"
  have "tr_out_room (t_io t1) = None" using room wroteD(4) [OF 1(2)] by simp
  then obtain t2 w2 p rx2 where 2: "send_session_id E ?t1 ?ivv = (Inr (), t2)" "wrote ?t1 t2 w2"
    "wire_for E rx1 w2 p rx2" "means_id p ?ivv" "chan_sync (t_tx t2) rx2" "rx_key rx2 = rx_key rx1"
    using send_session_id_ok [OF env, of ?t1 rx1 ?ivv] 1(6) by auto
  have w: "wrote c t2 (w1 @ w2)" by (rule wrote_trans [OF 1(2) wrote_rng [OF 2(2)]])
  let ?c' = "t2\<lparr>t_tx := tx_on_handshake_complete (tx_rekey E ?ivv (t_tx t2)),
                 t_pending := Some (?ivv, role)\<rparr>"
  have run: "handshake_client_send E role c = (Inr (), ?c')"
    using 1(1) n 2(1) by (simp add: handshake_client_send_def Let_def)
  have eq: "?c' = c\<lparr>t_tx := tx_on_handshake_complete (tx_rekey E ?ivv (t_tx t2)),
      t_io := (t_io c)\<lparr>tr_out := tr_out (t_io c) @ w1 @ w2\<rparr>, t_pending := Some (?ivv, role)\<rparr>"
    using wroteD [OF w] by simp
  have st: "stream_for E rx (w1 @ w2) (ps @ [p]) rx2"
    by (rule stream_for_append [OF 1(3) stream_for_one [OF 2(3)]])
  have cf: "core_frame (t_tx c) (t_tx t2)" using w by (simp add: wrote_def)
  show ?thesis
    using run eq st cf 1(4,5,7) 2(4,5,6) tagged_ivv_nonzero [of role nonce]
      role_from_tagged_ivv [of role nonce]
    by (intro exI [of _ ?c'] exI [of _ "w1 @ w2"] exI [of _ ps] exI [of _ p] exI [of _ ?ivv]
        exI [of _ "t_tx t2"] exI [of _ rx2] conjI) simp_all
qed

lemma handshake_server_ok:
  fixes allow_bond :: bool
  assumes env: "env_ok E" and sync: "chan_sync (t_tx s) rx" and room: "tr_out_room (t_io s) = None"
    and v: "validate (tx_key (t_tx s)) = Inr u" and sid: "sid \<noteq> 0"
    and st: "stream_for E (t_rx s) w (ps @ [p]) rxs" and inp: "tr_in (t_io s) = w @ rest"
    and ps: "list_all (\<lambda>p. means_id p 0) ps" "length ps \<le> max_nop_packets (tx_key (t_tx s))"
    and p: "means_id p ivv" "ivv \<noteq> 0"
  defines "eff \<equiv> effective_role (role_from_ivv ivv) allow_bond"
  shows "\<exists>s' v qs q1 q2 low tx2 rx'. handshake_server E sid allow_bond s = (Inr eff, s') \<and>
    stream_for E rx v (qs @ [q1, q2]) rx' \<and> list_all (\<lambda>p. means_id p 0) qs \<and>
    length qs \<le> max_nop_packets (tx_key (t_tx s)) \<and> means_id q1 sid \<and>
    means_id q2 (make_nmux (tx_key (t_tx s)) eff low) \<and>
    s' = s\<lparr>t_tx := tx_on_handshake_complete (tx_rekey E ivv tx2),
           t_rx := rx_on_handshake_complete (rx_rekey E ivv rxs),
           t_io := (t_io s)\<lparr>tr_in := rest, tr_out := tr_out (t_io s) @ v\<rparr>, t_session_id := sid\<rparr> \<and>
    chan_sync tx2 rx' \<and> core_frame (t_tx s) tx2 \<and> rx_key rx' = rx_key rx"
proof -
  obtain t1 w1 qs rx1 where 1: "handshake_prelude E s = (Inr (), t1)" "wrote s t1 w1"
    "stream_for E rx w1 qs rx1" "length qs \<le> max_nop_packets (tx_key (t_tx s))"
    "list_all (\<lambda>p. means_id p 0) qs" "chan_sync (t_tx t1) rx1" "rx_key rx1 = rx_key rx"
    using handshake_prelude_ok [OF env sync room v] by blast
  have "tr_out_room (t_io t1) = None" using room wroteD(4) [OF 1(2)] by simp
  then obtain t2 w2 q1 rx2 where 2: "send_session_id E t1 sid = (Inr (), t2)" "wrote t1 t2 w2"
    "wire_for E rx1 w2 q1 rx2" "means_id q1 sid" "chan_sync (t_tx t2) rx2" "rx_key rx2 = rx_key rx1"
    using send_session_id_ok [OF env 1(6)] by blast
  have w: "wrote s t2 (w1 @ w2)" by (rule wrote_trans [OF 1(2) 2(2)])
  let ?t3 = "t2\<lparr>t_rx := rxs, t_io := (t_io t2)\<lparr>tr_in := rest\<rparr>\<rparr>"
  have 3: "read_session_id E t2 = (Inr ivv, ?t3)"
    unfolding read_session_id_def
    using st inp ps p wroteD [OF w] by (intro read_session_id_loop_ok) simp_all
  obtain low r where low: "rng_u64 (e_rng E) (tx_rng (t_tx t2)) = (low, r)" by fastforce
  let ?nmux = "make_nmux (tx_key (t_tx s)) eff low"
  let ?t3' = "?t3\<lparr>t_tx := (t_tx ?t3)\<lparr>tx_rng := r\<rparr>\<rparr>"
  obtain t4 w3 q2 rx3 where 4: "send_session_id E ?t3' ?nmux = (Inr (), t4)" "wrote ?t3' t4 w3"
    "wire_for E rx2 w3 q2 rx3" "means_id q2 ?nmux" "chan_sync (t_tx t4) rx3" "rx_key rx3 = rx_key rx2"
    using send_session_id_ok [OF env, of ?t3' rx2 ?nmux] 2(5) room wroteD(4) [OF w] by auto
  have w4: "wrote ?t3 t4 w3" by (rule wrote_rng [OF 4(2)])
  let ?s' = "t4\<lparr>t_tx := tx_on_handshake_complete (tx_rekey E ivv (t_tx t4)),
      t_rx := rx_on_handshake_complete (rx_rekey E ivv (t_rx t4)), t_session_id := sid\<rparr>"
  have run: "handshake_server E sid allow_bond s = (Inr eff, ?s')"
    using sid 1(1) 2(1) 3 p(2) low 4(1) wroteD(5) [OF w]
    by (simp add: handshake_server_def eff_def Let_def t_rekey_def)
  have eq: "?s' = s\<lparr>t_tx := tx_on_handshake_complete (tx_rekey E ivv (t_tx t4)),
      t_rx := rx_on_handshake_complete (rx_rekey E ivv rxs),
      t_io := (t_io s)\<lparr>tr_in := rest, tr_out := tr_out (t_io s) @ w1 @ w2 @ w3\<rparr>,
      t_session_id := sid\<rparr>"
    using wroteD [OF w] wroteD [OF w4] by simp
  have st': "stream_for E rx (w1 @ w2 @ w3) (qs @ [q1, q2]) rx3"
    using stream_for_append [OF 1(3), of "w2 @ w3" "[q1, q2]" rx3] 2(3) 4(3) by auto
  have cf: "core_frame (t_tx s) (t_tx t4)"
    using w w4 by (simp add: wrote_def core_frame_def)
  show ?thesis
    using run eq st' cf 1(4,5,7) 2(4,6) 4(4,5,6)
    by (intro exI [of _ ?s'] exI [of _ "w1 @ w2 @ w3"] exI [of _ qs] exI [of _ q1] exI [of _ q2]
        exI [of _ low] exI [of _ "t_tx t4"] exI [of _ rx3] conjI) simp_all
qed

lemma stream_for_split:
  "stream_for E rx w (ms @ ns) rx' \<Longrightarrow>
   \<exists>w1 w2 rx1. w = w1 @ w2 \<and> stream_for E rx w1 ms rx1 \<and> stream_for E rx1 w2 ns rx'"
proof (induction ms arbitrary: rx w)
  case (Cons m ms)
  then show ?case by (simp, metis append_assoc)
qed simp

lemma handshake_client_confirm_ok:
  assumes pend: "t_pending c = Some (ivv, role)"
    and st: "stream_for E (t_rx c) v (qs @ [q1, q2]) rx'" and inp: "tr_in (t_io c) = v @ rest"
    and qs: "list_all (\<lambda>p. means_id p 0) qs" "length qs \<le> max_nop_packets (tx_key (t_tx c))"
    and q1: "means_id q1 sid" "sid \<noteq> 0"
    and q2: "means_id q2 (make_nmux ks eff low)"
  defines "c2 \<equiv> c\<lparr>t_pending := None, t_rx := rx', t_io := (t_io c)\<lparr>tr_in := rest\<rparr>\<rparr>"
  shows "handshake_client_confirm E c =
    (if flag_canary ks \<noteq> flag_canary (tx_key (t_tx c)) then (Inl FlagsMismatch, c2)
     else if eff \<noteq> role then (Inl RoleRefused, c2)
     else (Inr sid, c2\<lparr>t_rx := rx_on_handshake_complete (rx_rekey E ivv rx'), t_session_id := sid\<rparr>))"
proof -
  obtain v1 v2 rx1 where v: "v = v1 @ v2" "stream_for E (t_rx c) v1 (qs @ [q1]) rx1"
    "stream_for E rx1 v2 ([] @ [q2]) rx'"
    using stream_for_split [of E "t_rx c" v "qs @ [q1]" "[q2]" rx'] st by auto
  let ?c0 = "c\<lparr>t_pending := None\<rparr>"
  let ?c1 = "?c0\<lparr>t_rx := rx1, t_io := (t_io c)\<lparr>tr_in := v2 @ rest\<rparr>\<rparr>"
  have r1: "read_session_id E ?c0 = (Inr sid, ?c1)"
    using read_session_id_loop_ok [of E ?c0 v1 qs q1 rx1 "v2 @ rest" sid] v inp qs q1
    by (simp add: read_session_id_def)
  have "read_session_id E ?c1 = (Inr (make_nmux ks eff low), ?c1\<lparr>t_rx := rx',
      t_io := (t_io ?c1)\<lparr>tr_in := rest\<rparr>\<rparr>)"
    unfolding read_session_id_def
    using v(3) q2 make_nmux_nonzero [of ks eff low]
    by (intro read_session_id_loop_ok [where ps = "[]" and p = q2]) simp_all
  then have r2: "read_session_id E ?c1 = (Inr (make_nmux ks eff low), c2)"
    by (simp add: c2_def)
  show ?thesis
    using pend r1 r2 q1(2) make_nmux_nonzero [of ks eff low]
    by (simp add: handshake_client_confirm_def confirm_check_nmux) (simp add: c2_def)
qed

subsection \<open>Both ends together\<close>

definition fresh_io :: transport where
  "fresh_io = \<lparr>tr_in = [], tr_in_fail = None, tr_out = [], tr_out_room = None\<rparr>"

text \<open>
  A complete run: the client's send phase, the server reading what it sent, the client's confirm
  phase reading what the server sent.  Neither end ever waits for more than the other has written,
  so this order of the blocking calls is the only one up to buffering.
\<close>

definition run_handshake ::
  "'r env_ops \<Rightarrow> obfuscation_key \<Rightarrow> obfuscation_key \<Rightarrow> 'r \<Rightarrow> 'r \<Rightarrow> session_role \<Rightarrow> u128 \<Rightarrow> bool \<Rightarrow>
   unit core_result \<times> session_role core_result \<times> u128 core_result \<times>
   'r transmission \<times> 'r transmission" where
  "run_handshake E kc ks rc rs role sid allow_bond =
     (let (r1, c1) = handshake_client_send E role (with_rng E fresh_io kc rc);
          (r2, s1) = handshake_server E sid allow_bond
                       (with_rng E (fresh_io\<lparr>tr_in := tr_out (t_io c1)\<rparr>) ks rs);
          (r3, c2) = handshake_client_confirm E
                       (c1\<lparr>t_io := (t_io c1)\<lparr>tr_in := tr_out (t_io s1)\<rparr>\<rparr>)
      in (r1, r2, r3, c2, s1))"

lemma with_rng_sel [simp]:
  "t_io (with_rng E io key r) = io" "t_tx (with_rng E io key r) = tx_new E key r"
  "t_rx (with_rng E io key r) = rx_new E key" "t_pending (with_rng E io key r) = None"
  "tx_key (tx_new E key r) = key" "rx_key (rx_new E key) = key"
  by (simp_all add: with_rng_def tx_new_def rx_new_def)

lemma fresh_io_sel [simp]:
  "tr_in fresh_io = []" "tr_out fresh_io = []" "tr_out_room fresh_io = None"
  by (simp_all add: fresh_io_def)

lemma key_agree_canary:
  assumes "key_agree False k1 k2" and "flag_canary k2 = flag_canary k1"
  shows "key_agree True k1 k2"
proof -
  have "canary_switches k1 = canary_switches k2"
    using assms(2) flag_canary_eq_iff by metis
  then show ?thesis
    using assms(1) unfolding canary_switches_eq by (simp add: key_agree_def)
qed

text \<open>
  A connection keyed by a handshake value: all four ciphers are the freshly derived ones for the
  session, none of them the pre-handshake ones of \<open>with_rng\<close>.
\<close>

definition keyed_by :: "'r env_ops \<Rightarrow> obfuscation_key \<Rightarrow> u128 \<Rightarrow> 'r transmission \<Rightarrow> bool" where
  "keyed_by E key ivv t \<longleftrightarrow>
     tx_protocol (t_tx t) =
       cipher_derive (e_crypto E) (ok_protocol key) RoleProtocol (ok_protocol_key key) (Some ivv) \<and>
     tx_transport (t_tx t) =
       cipher_derive (e_crypto E) (ok_transport key) RoleTransport (ok_transport_key key) (Some ivv) \<and>
     rx_protocol (t_rx t) = for_decryption
       (cipher_derive (e_crypto E) (ok_protocol key) RoleProtocol (ok_protocol_key key) (Some ivv)) \<and>
     rx_transport (t_rx t) = for_decryption
       (cipher_derive (e_crypto E) (ok_transport key) RoleTransport (ok_transport_key key) (Some ivv))"

lemma keyed_by_rekeyed:
  assumes "t_tx t = tx_on_handshake_complete (tx_rekey E ivv tx)"
    and "t_rx t = rx_on_handshake_complete (rx_rekey E ivv rx)" and "tx_key tx = key" and "rx_key rx = key"
  shows "keyed_by E key ivv t"
  using assms by (simp add: keyed_by_def tx_on_handshake_complete_def rx_on_handshake_complete_def
      tx_rekey_def rx_rekey_def Let_def)

lemma run_handshake_full:
  fixes role :: session_role and allow_bond :: bool
  assumes env: "env_ok E" and agree: "key_agree False kc ks"
    and nops: "max_nop_packets kc = max_nop_packets ks"
    and vc: "validate kc = Inr ()" and vs: "validate ks = Inr ()" and sid: "sid \<noteq> 0"
  defines "eff \<equiv> effective_role role allow_bond"
  shows "\<exists>c s c1 ivv. run_handshake E kc ks rc rs role sid allow_bond =
    (Inr (), Inr eff,
     (if flag_canary ks \<noteq> flag_canary kc then Inl FlagsMismatch
      else if eff \<noteq> role then Inl RoleRefused else Inr sid), c, s) \<and>
    handshake_client_send E role (with_rng E fresh_io kc rc) = (Inr (), c1) \<and>
    t_pending c1 = Some (ivv, role) \<and> ivv \<noteq> 0 \<and> role_from_ivv ivv = role \<and>
    (flag_canary ks = flag_canary kc \<and> eff = role \<longrightarrow>
     chan_sync (t_tx c) (t_rx s) \<and> chan_sync (t_tx s) (t_rx c) \<and>
     keyed_by E kc ivv c \<and> keyed_by E ks ivv s \<and>
     is_handshaked c \<and> is_handshaked s \<and> t_session_id c = sid \<and> t_session_id s = sid)"
proof -
  let ?c0 = "with_rng E fresh_io kc rc"
  have agree': "key_agree False ks kc" using agree by (auto simp: key_agree_def)
  have cs: "chan_sync (t_tx ?c0) (rx_new E ks)"
    using tx_new_sync [OF agree] by simp
  obtain c1 w ps p ivv txc rxs where C: "handshake_client_send E role ?c0 = (Inr (), c1)"
    "stream_for E (rx_new E ks) w (ps @ [p]) rxs" "list_all (\<lambda>p. means_id p 0) ps"
    "length ps \<le> max_nop_packets kc" "means_id p ivv" "ivv \<noteq> 0" "role_from_ivv ivv = role"
    and c1: "c1 = ?c0\<lparr>t_tx := tx_on_handshake_complete (tx_rekey E ivv txc),
       t_io := fresh_io\<lparr>tr_out := w\<rparr>, t_pending := Some (ivv, role)\<rparr>"
    and cc: "chan_sync txc rxs" "core_frame (t_tx ?c0) txc" "rx_key rxs = ks"
    using handshake_client_send_ok [OF env cs, of "()" role] vc by (simp, blast)
  let ?s0 = "with_rng E (fresh_io\<lparr>tr_in := tr_out (t_io c1)\<rparr>) ks rs"
  have ss: "chan_sync (t_tx ?s0) (rx_new E kc)"
    using tx_new_sync [OF agree'] by simp
  obtain s1 v qs q1 q2 low txs rxc where
    S: "handshake_server E sid allow_bond ?s0 = (Inr eff, s1)"
    "stream_for E (rx_new E kc) v (qs @ [q1, q2]) rxc" "list_all (\<lambda>p. means_id p 0) qs"
    "length qs \<le> max_nop_packets ks" "means_id q1 sid" "means_id q2 (make_nmux ks eff low)"
    and s1: "s1 = ?s0\<lparr>t_tx := tx_on_handshake_complete (tx_rekey E ivv txs),
       t_rx := rx_on_handshake_complete (rx_rekey E ivv rxs),
       t_io := fresh_io\<lparr>tr_in := [], tr_out := v\<rparr>, t_session_id := sid\<rparr>"
    and sc: "chan_sync txs rxc" "core_frame (t_tx ?s0) txs" "rx_key rxc = kc"
    using handshake_server_ok [OF env ss, of "()" sid w ps p rxs "[]" ivv allow_bond] vs sid C nops c1
    by (simp add: eff_def [symmetric], blast)
  let ?c2 = "c1\<lparr>t_io := (t_io c1)\<lparr>tr_in := tr_out (t_io s1)\<rparr>\<rparr>"
  have keys: "tx_key txc = kc" "tx_key txs = ks"
    using cc(2) sc(2) by (simp_all add: core_frame_def)
  have key2: "tx_key (t_tx ?c2) = kc"
    by (simp add: c1 tx_on_handshake_complete_def tx_rekey_def Let_def keys)
  have conf: "handshake_client_confirm E ?c2 =
    (if flag_canary ks \<noteq> flag_canary kc
     then (Inl FlagsMismatch, ?c2\<lparr>t_pending := None, t_rx := rxc, t_io := (t_io ?c2)\<lparr>tr_in := []\<rparr>\<rparr>)
     else if eff \<noteq> role
     then (Inl RoleRefused, ?c2\<lparr>t_pending := None, t_rx := rxc, t_io := (t_io ?c2)\<lparr>tr_in := []\<rparr>\<rparr>)
     else (Inr sid, ?c2\<lparr>t_pending := None, t_rx := rx_on_handshake_complete (rx_rekey E ivv rxc),
              t_io := (t_io ?c2)\<lparr>tr_in := []\<rparr>, t_session_id := sid\<rparr>))"
    using handshake_client_confirm_ok [of ?c2 ivv role E v qs q1 q2 rxc "[]" sid ks eff low] S nops
      sid key2 by (simp add: c1 s1)
  have fs: "framer_sync (tx_b94 txc) (rx_b94 rxs)" "framer_sync (tx_b94 txs) (rx_b94 rxc)"
    using cc(1) sc(1) by (simp_all add: chan_sync_def)
  have sync: "chan_sync (tx_on_handshake_complete (tx_rekey E ivv txc))
        (rx_on_handshake_complete (rx_rekey E ivv rxs))"
      "chan_sync (tx_on_handshake_complete (tx_rekey E ivv txs))
        (rx_on_handshake_complete (rx_rekey E ivv rxc))"
    if "flag_canary ks = flag_canary kc"
    using key_agree_canary [OF agree that] key_agree_canary [OF agree' that [symmetric]] cc(3) sc(3)
      keys rekey_sync [OF fs(1)] rekey_sync [OF fs(2)] by simp_all
  let ?c3 = "?c2\<lparr>t_pending := None, t_rx := rx_on_handshake_complete (rx_rekey E ivv rxc),
              t_io := (t_io ?c2)\<lparr>tr_in := []\<rparr>, t_session_id := sid\<rparr>"
  let ?c4 = "?c2\<lparr>t_pending := None, t_rx := rxc, t_io := (t_io ?c2)\<lparr>tr_in := []\<rparr>\<rparr>"
  let ?ok = "flag_canary ks = flag_canary kc \<and> eff = role"
  have keyed: "keyed_by E kc ivv ?c3" "keyed_by E ks ivv s1"
    using keyed_by_rekeyed [of ?c3 E ivv txc rxc kc] keyed_by_rekeyed [of s1 E ivv txs rxs ks] keys cc(3) sc(3)
    by (simp_all add: c1 s1)
  have run: "run_handshake E kc ks rc rs role sid allow_bond =
    (Inr (), Inr eff,
     (if flag_canary ks \<noteq> flag_canary kc then Inl FlagsMismatch
      else if eff \<noteq> role then Inl RoleRefused else Inr sid), if ?ok then ?c3 else ?c4, s1)"
    using C(1) S(1) conf by (simp add: run_handshake_def)
  have "chan_sync (t_tx ?c3) (t_rx s1)" "chan_sync (t_tx s1) (t_rx ?c3)" if ?ok
    using sync that by (simp_all add: c1 s1)
  moreover have "is_handshaked ?c3" "is_handshaked s1" "t_session_id ?c3 = sid" "t_session_id s1 = sid"
    by (simp_all add: c1 s1 is_handshaked_def tx_on_handshake_complete_def)
  moreover have "t_pending c1 = Some (ivv, role)" by (simp add: c1)
  ultimately show ?thesis using run keyed C(1,6,7)
    by (intro exI [of _ "if ?ok then ?c3 else ?c4"] exI [of _ s1] exI [of _ c1] exI [of _ ivv]) simp
qed

text \<open>What the run returns, for the properties that do not speak of the keys.\<close>

lemma run_handshake_result:
  fixes role :: session_role and allow_bond :: bool
  assumes "env_ok E" and "key_agree False kc ks" and "max_nop_packets kc = max_nop_packets ks"
    and "validate kc = Inr ()" and "validate ks = Inr ()" and "sid \<noteq> 0"
  defines "eff \<equiv> effective_role role allow_bond"
  shows "\<exists>c s. run_handshake E kc ks rc rs role sid allow_bond =
    (Inr (), Inr eff,
     (if flag_canary ks \<noteq> flag_canary kc then Inl FlagsMismatch
      else if eff \<noteq> role then Inl RoleRefused else Inr sid), c, s) \<and>
    (flag_canary ks = flag_canary kc \<and> eff = role \<longrightarrow>
     chan_sync (t_tx c) (t_rx s) \<and> chan_sync (t_tx s) (t_rx c) \<and>
     is_handshaked c \<and> is_handshaked s \<and> t_session_id c = sid \<and> t_session_id s = sid)"
  unfolding eff_def using run_handshake_full [OF assms(1-6)] by metis

end
