(* ===== verification/App_Config.thy ===== *)
theory App_Config
  imports Handshake_Run
begin

text \<open>
  The configuration of the binaries (\<open>common/src/config.rs\<close>) after parsing: the records, their
  defaults, the conversion of the obfuscation section into the key of the core library, and the
  checks of the two \<open>load\<close> functions.  Reading the file and the JSON syntax are third-party code.
  Messages are values of an error type.
\<close>

section \<open>The obfuscation section\<close>

record obfuscation_config =
  oc_kf :: u32
  oc_kl :: u8
  oc_kh :: u8
  oc_kx :: u32
  oc_protocol :: string
  oc_protocol_key :: "string option"
  oc_transport :: string
  oc_transport_key :: "string option"
  oc_masked :: bool
  oc_plaintext :: bool
  oc_delta_encode :: bool
  oc_shuffle_data :: bool

definition obfuscation_config_default :: obfuscation_config where
  "obfuscation_config_default =
     (let k = default_key
      in \<lparr>oc_kf = ok_kf k, oc_kl = ok_kl k, oc_kh = ok_kh k, oc_kx = ok_kx k,
          oc_protocol = method_name (ok_protocol k), oc_protocol_key = None,
          oc_transport = method_name (ok_transport k), oc_transport_key = None,
          oc_masked = ok_masked k, oc_plaintext = ok_plaintext k,
          oc_delta_encode = ok_delta_encode k, oc_shuffle_data = ok_shuffle_data k\<rparr>)"

definition PLACEHOLDER_PASSWORD :: string where
  "PLACEHOLDER_PASSWORD = ''nextppp''"

datatype config_error = UnknownMethod string | EmptyPassword string | BadKey core_error | BondLinksZero

definition config_method :: "string \<Rightarrow> config_error + cipher_method" where
  "config_method name =
     (case method_from_name name of Some m \<Rightarrow> Inr m | None \<Rightarrow> Inl (UnknownMethod name))"

text \<open>\<open>key.or(shared)\<close>: the first of the two that is set.\<close>

definition resolve_password :: "string option \<Rightarrow> string option \<Rightarrow> string \<Rightarrow> config_error + string" where
  "resolve_password key shared fld =
     (case (case key of Some p \<Rightarrow> Some p | None \<Rightarrow> shared) of
        Some p \<Rightarrow> if p \<noteq> [] then Inr p else Inl (EmptyPassword fld)
      | None \<Rightarrow> Inr PLACEHOLDER_PASSWORD)"

text \<open>The fields are evaluated in the order of the struct expression; the first error is returned.\<close>

definition to_key :: "obfuscation_config \<Rightarrow> string option \<Rightarrow> config_error + obfuscation_key" where
  "to_key c shared =
     (case resolve_password (oc_protocol_key c) shared ''protocol_key'' of
        Inl e \<Rightarrow> Inl e
      | Inr pk \<Rightarrow>
     (case config_method (oc_protocol c) of
        Inl e \<Rightarrow> Inl e
      | Inr p \<Rightarrow>
     (case resolve_password (oc_transport_key c) shared ''transport_key'' of
        Inl e \<Rightarrow> Inl e
      | Inr tk \<Rightarrow>
     (case config_method (oc_transport c) of
        Inl e \<Rightarrow> Inl e
      | Inr t \<Rightarrow>
          let key = \<lparr>ok_kf = oc_kf c, ok_kl = oc_kl c, ok_kh = oc_kh c, ok_kx = oc_kx c,
                     ok_protocol = p, ok_protocol_key = pk, ok_transport = t, ok_transport_key = tk,
                     ok_masked = oc_masked c, ok_plaintext = oc_plaintext c,
                     ok_delta_encode = oc_delta_encode c, ok_shuffle_data = oc_shuffle_data c\<rparr>
          in case validate key of Inl e \<Rightarrow> Inl (BadKey e) | Inr _ \<Rightarrow> Inr key))))"

definition is_placeholder :: "obfuscation_key \<Rightarrow> bool" where
  "is_placeholder key \<longleftrightarrow>
     ok_protocol_key key = PLACEHOLDER_PASSWORD \<and> ok_transport_key key = PLACEHOLDER_PASSWORD"

section \<open>Server and client sections\<close>

record server_config =
  sc_listen :: string
  sc_bond_enabled :: bool
  sc_password :: "string option"
  sc_connect_timeout :: u64
  sc_handshake_timeout :: u64
  sc_max_connections :: "u64 option"
  sc_max_handshakes :: "u64 option"
  sc_max_streams_per_conn :: "u64 option"
  sc_obfuscation :: obfuscation_config

text \<open>A file that sets only \<open>listen\<close>.\<close>

definition server_config_default :: "string \<Rightarrow> server_config" where
  "server_config_default listen =
     \<lparr>sc_listen = listen, sc_bond_enabled = True, sc_password = None, sc_connect_timeout = 10,
      sc_handshake_timeout = 15, sc_max_connections = None, sc_max_handshakes = Some 256,
      sc_max_streams_per_conn = Some 1024, sc_obfuscation = obfuscation_config_default\<rparr>"

record mux_section =
  mx_enabled :: bool
  mx_pool_size :: u32
  mx_max_streams :: u32

definition mux_section_default :: mux_section where
  "mux_section_default = \<lparr>mx_enabled = True, mx_pool_size = 4, mx_max_streams = 64\<rparr>"

definition effective_pool_size :: "mux_section \<Rightarrow> u32" where
  "effective_pool_size m = (if mx_enabled m then mx_pool_size m else 0)"

record bond_client_section =
  bc_listen :: string
  bc_links :: u32
  bc_pool_size :: u32
  bc_max_streams :: u32

definition bond_client_default :: bond_client_section where
  "bond_client_default = \<lparr>bc_listen = [], bc_links = 3, bc_pool_size = 1, bc_max_streams = 64\<rparr>"

record server_section =
  ss_address :: string
  ss_connect_timeout :: u64
  ss_connect_retries :: u32
  ss_mux :: mux_section
  ss_obfuscation :: obfuscation_config

record client_config =
  cc_listen :: string
  cc_bond :: "bond_client_section option"
  cc_password :: "string option"
  cc_max_connections :: "u64 option"
  cc_server :: server_section

text \<open>The checks of \<open>ClientConfig::load\<close> and \<open>ServerConfig::load\<close> on the parsed value.\<close>

definition client_load :: "client_config \<Rightarrow> config_error + client_config" where
  "client_load cfg =
     (case to_key (ss_obfuscation (cc_server cfg)) (cc_password cfg) of
        Inl e \<Rightarrow> Inl e
      | Inr _ \<Rightarrow>
          (case cc_bond cfg of
             Some bond \<Rightarrow> if bc_links bond = 0 then Inl BondLinksZero else Inr cfg
           | None \<Rightarrow> Inr cfg))"

definition server_load :: "server_config \<Rightarrow> config_error + server_config" where
  "server_load cfg =
     (case to_key (sc_obfuscation cfg) (sc_password cfg) of Inl e \<Rightarrow> Inl e | Inr _ \<Rightarrow> Inr cfg)"

record server_runtime =
  sr_key :: obfuscation_key
  sr_connect_timeout :: u64
  sr_handshake_timeout :: u64
  sr_max_connections :: "u64 option"
  sr_max_handshakes :: "u64 option"
  sr_max_streams_per_conn :: "u64 option"
  sr_allow_bond :: bool

definition server_from_config :: "server_config \<Rightarrow> config_error + server_runtime" where
  "server_from_config cfg =
     (case to_key (sc_obfuscation cfg) (sc_password cfg) of
        Inl e \<Rightarrow> Inl e
      | Inr key \<Rightarrow>
          Inr \<lparr>sr_key = key, sr_connect_timeout = sc_connect_timeout cfg,
               sr_handshake_timeout = sc_handshake_timeout cfg,
               sr_max_connections = sc_max_connections cfg, sr_max_handshakes = sc_max_handshakes cfg,
               sr_max_streams_per_conn = sc_max_streams_per_conn cfg,
               sr_allow_bond = sc_bond_enabled cfg\<rparr>)"

section \<open>Properties\<close>

lemma resolve_password_nonempty: "resolve_password k s f = Inr p \<Longrightarrow> p \<noteq> []"
  by (auto simp: resolve_password_def PLACEHOLDER_PASSWORD_def split: option.splits if_splits)

lemma to_key_fields:
  assumes "to_key c shared = Inr k"
  shows "validate k = Inr ()" and "ok_kf k = oc_kf c" and "ok_kl k = oc_kl c" and "ok_kh k = oc_kh c"
    and "method_from_name (oc_protocol c) = Some (ok_protocol k)"
    and "method_from_name (oc_transport c) = Some (ok_transport k)"
    and "resolve_password (oc_protocol_key c) shared ''protocol_key'' = Inr (ok_protocol_key k)"
    and "resolve_password (oc_transport_key c) shared ''transport_key'' = Inr (ok_transport_key k)"
    and "ok_masked k = oc_masked c" and "ok_plaintext k = oc_plaintext c"
    and "ok_delta_encode k = oc_delta_encode c" and "ok_shuffle_data k = oc_shuffle_data c"
  using assms
  by (auto simp: to_key_def config_method_def Let_def split: sum.splits option.splits)

lemma to_key_default: "to_key obfuscation_config_default None = Inr default_key"
  using method_from_name_name [of "ok_protocol default_key"]
    method_from_name_name [of "ok_transport default_key"]
  by (simp add: to_key_def obfuscation_config_default_def resolve_password_def config_method_def
      PLACEHOLDER_PASSWORD_def Let_def default_key_def validate_def np_consts)

text \<open>
  The conversion fails for exactly four reasons, all found when the file is loaded.
\<close>

lemma to_key_succeeds_iff:
  "(\<exists>k. to_key c shared = Inr k) \<longleftrightarrow>
     (case oc_protocol_key c of Some p \<Rightarrow> p \<noteq> [] | None \<Rightarrow> shared \<noteq> Some []) \<and>
     (case oc_transport_key c of Some p \<Rightarrow> p \<noteq> [] | None \<Rightarrow> shared \<noteq> Some []) \<and>
     method_from_name (oc_protocol c) \<noteq> None \<and> method_from_name (oc_transport c) \<noteq> None \<and>
     oc_kl c \<le> MAX_NOP_EXPONENT \<and> oc_kh c \<le> MAX_NOP_EXPONENT"
  by (auto simp: to_key_def config_method_def resolve_password_def validate_def Let_def
      PLACEHOLDER_PASSWORD_def not_le split: sum.splits option.splits if_splits)

text \<open>Two obfuscation sections that mean the same: cipher names may differ in spelling, passwords in where they are set.\<close>

definition config_agree :: "obfuscation_config \<Rightarrow> string option \<Rightarrow> obfuscation_config \<Rightarrow> string option \<Rightarrow> bool" where
  "config_agree c1 s1 c2 s2 \<longleftrightarrow>
     oc_kf c1 = oc_kf c2 \<and> oc_kl c1 = oc_kl c2 \<and> oc_kh c1 = oc_kh c2 \<and>
     method_from_name (oc_protocol c1) = method_from_name (oc_protocol c2) \<and>
     method_from_name (oc_transport c1) = method_from_name (oc_transport c2) \<and>
     resolve_password (oc_protocol_key c1) s1 ''protocol_key'' =
       resolve_password (oc_protocol_key c2) s2 ''protocol_key'' \<and>
     resolve_password (oc_transport_key c1) s1 ''transport_key'' =
       resolve_password (oc_transport_key c2) s2 ''transport_key'' \<and>
     oc_masked c1 = oc_masked c2 \<and> oc_plaintext c1 = oc_plaintext c2 \<and>
     oc_delta_encode c1 = oc_delta_encode c2 \<and> oc_shuffle_data c1 = oc_shuffle_data c2"

lemma config_agree_keys:
  assumes "config_agree c1 s1 c2 s2" and k1: "to_key c1 s1 = Inr k1" and k2: "to_key c2 s2 = Inr k2"
  shows "key_agree True k1 k2 \<and> max_nop_packets k1 = max_nop_packets k2"
  using assms(1) to_key_fields [OF k1] to_key_fields [OF k2]
  by (auto simp: config_agree_def key_agree_def max_nop_packets_def)

end
