(* ===== verification/Proxy_Addr.thy ===== *)
theory Proxy_Addr
  imports Core_Base
begin

text \<open>
  Proxy target addresses (\<open>common/src/addr.rs\<close>): the SOCKS5 wire form \<open>[ATYP][addr][port]\<close> that the
  client puts into an OPEN frame and the server decodes.  Rust strings are UTF-8, so a domain is the
  list of its bytes; IP addresses are words whose octets are their big-endian bytes.
\<close>

section \<open>Data\<close>

definition ATYP_IPV4 :: u8 where [np_consts]: "ATYP_IPV4 = 0x01"
definition ATYP_DOMAIN :: u8 where [np_consts]: "ATYP_DOMAIN = 0x03"
definition ATYP_IPV6 :: u8 where [np_consts]: "ATYP_IPV6 = 0x04"

datatype ip_addr = IpV4 u32 | IpV6 u128

datatype host = Domain bytes | HostIp ip_addr

record proxy_addr =
  pa_host :: host
  pa_port :: u16

datatype addr_error = Malformed

section \<open>UTF-8 validity\<close>

text \<open>\<open>std::str::from_utf8\<close>: the well-formed byte sequences of the Unicode standard.\<close>

definition utf8_cont :: "u8 \<Rightarrow> bool" where
  "utf8_cont b \<longleftrightarrow> 0x80 \<le> b \<and> b \<le> 0xbf"

fun utf8_ok :: "bytes \<Rightarrow> bool" where
  "utf8_ok [] \<longleftrightarrow> True"
| "utf8_ok (a # bs) \<longleftrightarrow>
     (if a < 0x80 then utf8_ok bs
      else if 0xc2 \<le> a \<and> a \<le> 0xdf
      then (case bs of b # r \<Rightarrow> utf8_cont b \<and> utf8_ok r | _ \<Rightarrow> False)
      else if 0xe0 \<le> a \<and> a \<le> 0xef
      then (case bs of
              b # c # r \<Rightarrow> utf8_cont b \<and> (a = 0xe0 \<longrightarrow> 0xa0 \<le> b) \<and> (a = 0xed \<longrightarrow> b \<le> 0x9f) \<and>
                utf8_cont c \<and> utf8_ok r
            | _ \<Rightarrow> False)
      else if 0xf0 \<le> a \<and> a \<le> 0xf4
      then (case bs of
              b # c # d # r \<Rightarrow> utf8_cont b \<and> (a = 0xf0 \<longrightarrow> 0x90 \<le> b) \<and> (a = 0xf4 \<longrightarrow> b \<le> 0x8f) \<and>
                utf8_cont c \<and> utf8_cont d \<and> utf8_ok r
            | _ \<Rightarrow> False)
      else False)"

section \<open>Encoding\<close>

definition encode_host :: "host \<Rightarrow> bytes" where
  "encode_host h =
     (case h of
        Domain d \<Rightarrow>
          let len = min (length d) 255
          in ATYP_DOMAIN # of_nat len # take len d
      | HostIp (IpV4 v4) \<Rightarrow> ATYP_IPV4 # to_be 4 v4
      | HostIp (IpV6 v6) \<Rightarrow> ATYP_IPV6 # to_be 16 v6)"

definition addr_encode_into :: "proxy_addr \<Rightarrow> bytes \<Rightarrow> bytes" where
  "addr_encode_into a out = out @ encode_host (pa_host a) @ to_be 2 (pa_port a)"

definition addr_encode :: "proxy_addr \<Rightarrow> bytes" where
  "addr_encode a = addr_encode_into a []"

section \<open>Decoding\<close>

definition domain_char :: "u8 \<Rightarrow> bool" where
  "domain_char b \<longleftrightarrow> 0x21 \<le> b \<and> b \<le> 0x7e"

definition decode_host :: "u8 \<Rightarrow> bytes \<Rightarrow> addr_error + (host \<times> bytes)" where
  "decode_host atyp rest =
     (if atyp = ATYP_IPV4
      then if length rest < 4 then Inl Malformed
           else Inr (HostIp (IpV4 (from_be (take 4 rest))), drop 4 rest)
      else if atyp = ATYP_IPV6
      then if length rest < 16 then Inl Malformed
           else Inr (HostIp (IpV6 (from_be (take 16 rest))), drop 16 rest)
      else if atyp = ATYP_DOMAIN
      then (case rest of
              [] \<Rightarrow> Inl Malformed
            | l # rest' \<Rightarrow>
                let len = unat l
                in if length rest' < len \<or> len = 0 then Inl Malformed
                   else let name = take len rest'
                        in if \<not> utf8_ok name then Inl Malformed
                           else if list_ex (\<lambda>b. \<not> domain_char b) name then Inl Malformed
                           else Inr (Domain name, drop len rest'))
      else Inl Malformed)"

definition addr_decode :: "bytes \<Rightarrow> addr_error + proxy_addr" where
  "addr_decode buf =
     (case buf of
        [] \<Rightarrow> Inl Malformed
      | atyp # rest \<Rightarrow>
          (case decode_host atyp rest of
             Inl e \<Rightarrow> Inl e
           | Inr (h, after) \<Rightarrow>
               if length after < 2 then Inl Malformed
               else if drop 2 after \<noteq> [] then Inl Malformed
               else Inr \<lparr>pa_host = h, pa_port = from_be (take 2 after)\<rparr>))"

section \<open>Round trip\<close>

text \<open>The domains that survive the wire: one to 255 bytes of printable ASCII.\<close>

definition domain_ok :: "bytes \<Rightarrow> bool" where
  "domain_ok d \<longleftrightarrow> d \<noteq> [] \<and> length d \<le> 255 \<and> list_all domain_char d"

fun host_ok :: "host \<Rightarrow> bool" where
  "host_ok (Domain d) \<longleftrightarrow> domain_ok d"
| "host_ok (HostIp _) \<longleftrightarrow> True"

lemma domain_char_ascii: "domain_char b \<Longrightarrow> b < 0x80"
  by (auto simp: domain_char_def word_le_nat_alt word_less_nat_alt)

lemma utf8_ok_ascii: "list_all domain_char bs \<Longrightarrow> utf8_ok bs"
  by (induction bs) (auto dest: domain_char_ascii)

lemma unat_byte_le: "unat (b :: u8) \<le> 255"
  using unsigned_less [of b, where ?'a = nat] by simp

lemma unat_byte_len: "n \<le> 255 \<Longrightarrow> unat (of_nat n :: u8) = n"
  by (simp add: unat_of_nat_small)

lemma decode_host_encode:
  assumes "host_ok h"
  shows "\<exists>atyp rest. encode_host h = atyp # rest \<and> decode_host atyp (rest @ ys) = Inr (h, ys)"
proof (cases h)
  case (Domain d)
  with assms have d: "d \<noteq> []" "length d \<le> 255" "list_all domain_char d" "utf8_ok d"
    by (auto simp: domain_ok_def intro: utf8_ok_ascii)
  then have "\<not> list_ex (\<lambda>b. \<not> domain_char b) d"
    by (simp add: list_ex_iff list_all_iff)
  with Domain d show ?thesis
    by (simp add: encode_host_def decode_host_def np_consts unat_byte_len Let_def)
next
  case (HostIp ip)
  then show ?thesis
    by (cases ip) (simp_all add: encode_host_def decode_host_def np_consts from_be_to_be)
qed

text \<open>What a host without the length limit turns into: an over-long domain is cut at 255 bytes.\<close>

fun clip_host :: "host \<Rightarrow> host" where
  "clip_host (Domain d) = Domain (take 255 d)"
| "clip_host h = h"

lemma encode_host_clip: "encode_host (clip_host h) = encode_host h"
  by (cases h) (simp_all add: encode_host_def min_def)

lemma decode_host_inverse:
  assumes "decode_host atyp rest = Inr (h, after)"
  shows "atyp # rest = encode_host h @ after \<and> host_ok h"
proof -
  have *: "ATYP_IPV4 # to_be 4 (from_be (take 4 rest) :: u32) @ drop 4 rest = ATYP_IPV4 # rest"
    if "\<not> length rest < 4"
    using that by (simp add: to_be_from_be)
  have **: "ATYP_IPV6 # to_be 16 (from_be (take 16 rest) :: u128) @ drop 16 rest = ATYP_IPV6 # rest"
    if "\<not> length rest < 16"
    using that by (simp add: to_be_from_be)
  show ?thesis
    using assms * ** unat_byte_le
    by (auto simp: decode_host_def encode_host_def domain_ok_def list_all_iff list_ex_iff Let_def
        min_def split: if_splits list.splits)
qed

lemma addr_decode_encode:
  assumes "host_ok (pa_host a)"
  shows "addr_decode (addr_encode a) = Inr a"
proof -
  obtain atyp rest where "encode_host (pa_host a) = atyp # rest"
    "decode_host atyp (rest @ to_be 2 (pa_port a)) = Inr (pa_host a, to_be 2 (pa_port a))"
    using decode_host_encode [OF assms] by blast
  then show ?thesis
    by (simp add: addr_encode_def addr_encode_into_def addr_decode_def from_be_to_be)
qed

lemma addr_encode_decode:
  assumes "addr_decode buf = Inr a"
  shows "addr_encode a = buf" and "host_ok (pa_host a)"
proof -
  obtain atyp rest h after where *: "buf = atyp # rest" "decode_host atyp rest = Inr (h, after)"
    "length after = 2" "a = \<lparr>pa_host = h, pa_port = from_be after\<rparr>"
    using assms by (auto simp: addr_decode_def split: list.splits sum.splits if_splits)
  then show "addr_encode a = buf" "host_ok (pa_host a)"
    using decode_host_inverse [OF *(2)]
    by (auto simp: addr_encode_def addr_encode_into_def to_be_from_be)
qed

text \<open>
  C28.  Proxy addresses survive the wire in both directions: every address whose domain is one to 255
  printable bytes is decoded to itself, and every byte string the decoder accepts is the encoding of
  the address it returns (the decoder accepts nothing else, trailing bytes included).
\<close>

theorem proxy_addr_roundtrip:
  "(host_ok (pa_host a) \<longrightarrow> addr_decode (addr_encode a) = Inr a) \<and>
   (addr_decode buf = Inr a \<longrightarrow> addr_encode a = buf \<and> host_ok (pa_host a))"
  by (auto simp: addr_decode_encode addr_encode_decode)

theorem proxy_addr_roundtrip_witness:
  "addr_decode (addr_encode \<lparr>pa_host = Domain [0x61, 0x2e, 0x62], pa_port = 443\<rparr>) =
     Inr \<lparr>pa_host = Domain [0x61, 0x2e, 0x62], pa_port = 443\<rparr>"
  using proxy_addr_roundtrip [of "\<lparr>pa_host = Domain [0x61, 0x2e, 0x62], pa_port = 443\<rparr>" "[]"]
  by (simp add: domain_ok_def domain_char_def)

end
