(* ===== verification/Hash_Map.thy ===== *)
theory Hash_Map
  imports NP_Prelude "HOL-Library.AList"
begin

text \<open>
  The hash maps of the program (the DNS cache, the stream registries, the table of pending opens) as
  association lists with distinct keys: the number of entries is observable (it is compared with a
  capacity), the iteration order is not used.  A lock around a map makes every operation below one
  atomic section, so an interleaving of several tasks is a list of operations.
\<close>

section \<open>Operations\<close>

type_synonym ('k, 'v) hash_map = "('k \<times> 'v) list"

definition hm_get :: "('k, 'v) hash_map \<Rightarrow> 'k \<Rightarrow> 'v option" where
  "hm_get m k = map_of m k"

definition hm_insert :: "'k \<Rightarrow> 'v \<Rightarrow> ('k, 'v) hash_map \<Rightarrow> ('k, 'v) hash_map" where
  "hm_insert k v m = AList.update k v m"

definition hm_remove :: "'k \<Rightarrow> ('k, 'v) hash_map \<Rightarrow> ('k, 'v) hash_map" where
  "hm_remove k m = AList.delete k m"

definition hm_retain :: "('v \<Rightarrow> bool) \<Rightarrow> ('k, 'v) hash_map \<Rightarrow> ('k, 'v) hash_map" where
  "hm_retain p m = filter (\<lambda>(k, v). p v) m"

definition hm_contains :: "('k, 'v) hash_map \<Rightarrow> 'k \<Rightarrow> bool" where
  "hm_contains m k \<longleftrightarrow> hm_get m k \<noteq> None"

definition hm_len :: "('k, 'v) hash_map \<Rightarrow> nat" where
  "hm_len m = length m"

definition hm_wf :: "('k, 'v) hash_map \<Rightarrow> bool" where
  "hm_wf m \<longleftrightarrow> distinct (map fst m)"

section \<open>Laws\<close>

lemma hm_wf_empty [simp]: "hm_wf []"
  by (simp add: hm_wf_def)

lemma hm_get_empty [simp]: "hm_get [] k = None"
  by (simp add: hm_get_def)

lemma hm_len_empty [simp]: "hm_len [] = 0"
  by (simp add: hm_len_def)

lemma hm_wf_insert [simp]: "hm_wf m \<Longrightarrow> hm_wf (hm_insert k v m)"
  by (simp add: hm_wf_def hm_insert_def distinct_update)

lemma hm_wf_remove [simp]: "hm_wf m \<Longrightarrow> hm_wf (hm_remove k m)"
  by (simp add: hm_wf_def hm_remove_def distinct_delete)

lemma hm_wf_retain [simp]: "hm_wf m \<Longrightarrow> hm_wf (hm_retain p m)"
  by (simp add: hm_wf_def hm_retain_def distinct_map_filter)

lemma hm_get_insert [simp]: "hm_get (hm_insert k v m) k' = (if k' = k then Some v else hm_get m k')"
  by (simp add: hm_get_def hm_insert_def update_conv')

lemma hm_get_remove [simp]: "hm_get (hm_remove k m) k' = (if k' = k then None else hm_get m k')"
  by (simp add: hm_get_def hm_remove_def delete_conv')

lemma hm_get_retain:
  assumes "hm_wf m"
  shows "hm_get (hm_retain p m) k =
    (case hm_get m k of None \<Rightarrow> None | Some v \<Rightarrow> if p v then Some v else None)"
  using assms
  by (induction m) (auto simp: hm_wf_def hm_get_def hm_retain_def split: option.splits
      dest: map_of_SomeD simp: rev_image_eqI map_of_eq_None_iff [symmetric])

lemma hm_len_remove [simp]: "hm_len (hm_remove k m) \<le> hm_len m"
  by (simp add: hm_len_def hm_remove_def length_delete_le)

lemma hm_len_retain [simp]: "hm_len (hm_retain p m) \<le> hm_len m"
  by (simp add: hm_len_def hm_retain_def)

lemma hm_len_insert: "hm_len (hm_insert k v m) = (if hm_contains m k then hm_len m else Suc (hm_len m))"
  by (induction m) (auto simp: hm_len_def hm_insert_def hm_contains_def hm_get_def)

lemma hm_contains_insert [simp]:
  "hm_contains (hm_insert k v m) k' \<longleftrightarrow> k' = k \<or> hm_contains m k'"
  by (simp add: hm_contains_def)

lemma hm_contains_remove [simp]:
  "hm_contains (hm_remove k m) k' \<longleftrightarrow> k' \<noteq> k \<and> hm_contains m k'"
  by (simp add: hm_contains_def)

lemma hm_contains_empty [simp]: "\<not> hm_contains [] k"
  by (simp add: hm_contains_def)

lemma hm_remove_absent: "\<not> hm_contains m k \<Longrightarrow> hm_remove k m = m"
  by (simp add: hm_contains_def hm_get_def hm_remove_def map_of_eq_None_iff delete_id)

section \<open>A table with a capacity\<close>

text \<open>
  The contract of a table that several tasks change under a lock and that must not outgrow a
  capacity: every atomic operation keeps the keys distinct and the bound.  What follows holds for
  every interleaving, a list of operations.
\<close>

locale capped_table =
  fixes apply_op :: "'op \<Rightarrow> ('k, 'v) hash_map \<Rightarrow> ('k, 'v) hash_map" and cap :: nat
  assumes op_wf: "hm_wf m \<Longrightarrow> hm_len m \<le> cap \<Longrightarrow> hm_wf (apply_op op m)"
    and op_cap: "hm_wf m \<Longrightarrow> hm_len m \<le> cap \<Longrightarrow> hm_len (apply_op op m) \<le> cap"
begin

lemma run_bounded:
  assumes "hm_wf m" and "hm_len m \<le> cap"
  shows "hm_wf (fold apply_op ops m) \<and> hm_len (fold apply_op ops m) \<le> cap"
  using assms by (induction ops arbitrary: m) (simp_all add: op_wf op_cap)

lemma run_from_empty: "hm_wf (fold apply_op ops []) \<and> hm_len (fold apply_op ops []) \<le> cap"
  by (rule run_bounded) simp_all

end

end
