(* ===== verification/Dns.thy ===== *)
theory Dns
  imports Proxy_Addr Hash_Map
begin

text \<open>
  The DNS cache of outbound connects (\<open>common/src/dns.rs\<close>).  Instants and durations are natural
  numbers of nanoseconds; the readings of the clock, the system resolver and what other tasks do to
  the cache while this one holds no lock are arguments.  An \<open>io::Error\<close> is its kind.
\<close>

section \<open>State\<close>

definition secs :: "nat \<Rightarrow> nat" where
  "secs n = n * 1000000000"

definition POSITIVE_TTL :: nat where "POSITIVE_TTL = secs 300"
definition NEGATIVE_TTL :: nat where "NEGATIVE_TTL = secs 30"
definition MAX_ENTRIES :: nat where "MAX_ENTRIES = 1024"

type_synonym dns_result = "error_kind + ip_addr list"

record dns_entry =
  de_result :: dns_result
  de_expires :: nat

type_synonym dns_cache = "(bytes, dns_entry) hash_map"

definition dns_new :: dns_cache where
  "dns_new = []"

section \<open>Operations\<close>

text \<open>
  The insertion, one section under the write lock.  The clock is read for the eviction (\<open>now\<close>) and
  again for the expiry (\<open>now'\<close>).
\<close>

definition dns_insert :: "bytes \<Rightarrow> dns_result \<Rightarrow> nat \<Rightarrow> nat \<Rightarrow> nat \<Rightarrow> dns_cache \<Rightarrow> dns_cache" where
  "dns_insert domain result ttl now now' m =
     (let e = \<lparr>de_result = result, de_expires = now' + ttl\<rparr>
      in if MAX_ENTRIES \<le> hm_len m \<and> \<not> hm_contains m domain
         then let m' = hm_retain (\<lambda>e. now < de_expires e) m
              in if MAX_ENTRIES \<le> hm_len m' then m' else hm_insert domain e m'
         else hm_insert domain e m)"

text \<open>The two sections under the read lock: a fresh entry, and an expired positive one.\<close>

definition dns_fresh :: "bytes \<Rightarrow> nat \<Rightarrow> dns_cache \<Rightarrow> dns_result option" where
  "dns_fresh domain now m =
     (case hm_get m domain of
        Some e \<Rightarrow> if now < de_expires e then Some (de_result e) else None
      | None \<Rightarrow> None)"

definition dns_stale :: "bytes \<Rightarrow> dns_cache \<Rightarrow> ip_addr list option" where
  "dns_stale domain m =
     (case hm_get m domain of
        Some e \<Rightarrow> (case de_result e of Inr ips \<Rightarrow> Some ips | Inl _ \<Rightarrow> None)
      | None \<Rightarrow> None)"

text \<open>
  \<open>resolve_with\<close>.  \<open>others\<close> is what other tasks did to the cache during the lookup, \<open>others'\<close> what
  they did between the reading of a stale entry and the insertion; the clock readings are those of
  the entry and of the insertion.
\<close>

definition resolve_with ::
  "(bytes \<Rightarrow> nat \<Rightarrow> dns_result) \<Rightarrow> bytes \<Rightarrow> nat \<Rightarrow> nat \<Rightarrow> nat \<Rightarrow> nat \<Rightarrow>
   (dns_cache \<Rightarrow> dns_cache) \<Rightarrow> (dns_cache \<Rightarrow> dns_cache) \<Rightarrow> dns_cache \<Rightarrow> dns_result \<times> dns_cache" where
  "resolve_with lookup domain timeout now now1 now2 others others' m =
     (case dns_fresh domain now m of
        Some r \<Rightarrow> (r, m)
      | None \<Rightarrow>
          let result = (case lookup domain timeout of
                          Inr ips \<Rightarrow> if ips \<noteq> [] then Inr ips else Inl AddrNotAvailable
                        | Inl e \<Rightarrow> Inl e);
              m1 = others m
          in case result of
               Inr ips \<Rightarrow> (Inr ips, dns_insert domain (Inr ips) POSITIVE_TTL now1 now2 m1)
             | Inl e \<Rightarrow>
                 (case dns_stale domain m1 of
                    Some ips \<Rightarrow> (Inr ips, m1)
                  | None \<Rightarrow> (Inl e, dns_insert domain (Inl e) NEGATIVE_TTL now1 now2 (others' m1))))"

text \<open>
  \<open>resolve_sys\<close>: the answer of the resolver thread when it arrives in time; it may not, or the thread
  may die without an answer, or not start.
\<close>

datatype sys_outcome = SysAnswer dns_result | SysTimeout | SysDisconnected | SysSpawnFailed error_kind

fun resolve_sys :: "sys_outcome \<Rightarrow> dns_result" where
  "resolve_sys (SysAnswer r) = r"
| "resolve_sys SysTimeout = Inl TimedOut"
| "resolve_sys SysDisconnected = Inl OtherKind"
| "resolve_sys (SysSpawnFailed e) = Inl OtherKind"

section \<open>Invariant\<close>

definition cache_ok :: "dns_cache \<Rightarrow> bool" where
  "cache_ok m \<longleftrightarrow> hm_wf m \<and> hm_len m \<le> MAX_ENTRIES \<and>
     (\<forall>d e. hm_get m d = Some e \<longrightarrow> de_result e \<noteq> Inr [])"

lemma cache_ok_new: "cache_ok dns_new"
  by (simp add: cache_ok_def dns_new_def)

lemma dns_insert_wf [simp]: "hm_wf m \<Longrightarrow> hm_wf (dns_insert d r ttl now now' m)"
  by (simp add: dns_insert_def Let_def)

lemma dns_insert_len:
  "hm_len m \<le> MAX_ENTRIES \<Longrightarrow> hm_len (dns_insert d r ttl now now' m) \<le> MAX_ENTRIES"
  using hm_len_retain [of "\<lambda>e. now < de_expires e" m]
  by (auto simp: dns_insert_def Let_def hm_len_insert not_le simp del: hm_len_retain)

datatype dns_op = DnsInsert bytes dns_result nat nat nat

fun apply_dns :: "dns_op \<Rightarrow> dns_cache \<Rightarrow> dns_cache" where
  "apply_dns (DnsInsert d r ttl now now') m = dns_insert d r ttl now now' m"

interpretation dns_table: capped_table apply_dns MAX_ENTRIES
proof
  fix m :: dns_cache and op
  assume "hm_wf m" "hm_len m \<le> MAX_ENTRIES"
  then show "hm_wf (apply_dns op m)" "hm_len (apply_dns op m) \<le> MAX_ENTRIES"
    by (cases op; simp add: dns_insert_len)+
qed

lemma dns_insert_get:
  assumes "hm_wf m" and "hm_get (dns_insert d r ttl now now' m) k = Some e"
  shows "(k = d \<and> e = \<lparr>de_result = r, de_expires = now' + ttl\<rparr>) \<or> hm_get m k = Some e"
  using assms
  by (auto simp: dns_insert_def Let_def hm_get_retain split: if_splits option.splits)

lemma cache_ok_insert: "cache_ok m \<Longrightarrow> r \<noteq> Inr [] \<Longrightarrow> cache_ok (dns_insert d r ttl now now' m)"
  unfolding cache_ok_def by (metis dns_insert_get dns_insert_len dns_insert_wf dns_entry.select_convs(1))

lemma dns_insert_stored:
  assumes "hm_contains m d \<or> hm_len m < MAX_ENTRIES"
  shows "hm_get (dns_insert d r ttl now now' m) d = Some \<lparr>de_result = r, de_expires = now' + ttl\<rparr>"
  using assms by (auto simp: dns_insert_def Let_def)

lemma dns_fresh_ok: "cache_ok m \<Longrightarrow> dns_fresh d now m = Some r \<Longrightarrow> r \<noteq> Inr []"
  by (auto simp: dns_fresh_def cache_ok_def split: option.splits if_splits)

lemma dns_stale_ok: "cache_ok m \<Longrightarrow> dns_stale d m = Some ips \<Longrightarrow> ips \<noteq> []"
  by (auto simp: dns_stale_def cache_ok_def split: option.splits sum.splits)

text \<open>
  C31.  The DNS cache keeps its invariant under every interleaving: whatever the resolver answers and
  whatever other tasks do to the cache in the unlocked windows, as long as they keep the invariant, a
  resolution leaves at most \<open>MAX_ENTRIES\<close> entries with distinct domains, and an address list it
  returns is never empty.
\<close>

theorem dns_cache_bounded:
  assumes "cache_ok m" and "\<And>c. cache_ok c \<Longrightarrow> cache_ok (others c)"
    and "\<And>c. cache_ok c \<Longrightarrow> cache_ok (others' c)"
  shows "cache_ok (snd (resolve_with lookup d timeout now now1 now2 others others' m)) \<and>
    fst (resolve_with lookup d timeout now now1 now2 others others' m) \<noteq> Inr []"
  using assms dns_fresh_ok [OF assms(1), of d now] dns_stale_ok [of "others m" d]
  by (auto simp: resolve_with_def Let_def cache_ok_insert split: option.splits sum.splits)

theorem dns_cache_bounded_witness:
  "cache_ok (snd (resolve_with (\<lambda>d t. Inr [IpV4 1]) [0x61] 0 0 0 0 id id dns_new))"
  using dns_cache_bounded [of dns_new id id "\<lambda>d t. Inr [IpV4 1]"] cache_ok_new by simp

text \<open>
  What a resolution returns and remembers: a fresh entry is returned without a lookup; a
  successful lookup is returned and, when the table has room, served from the cache for the next
  300 s; a failed lookup falls back to an expired positive entry and otherwise fails, and that failure
  is served for 30 s.
\<close>

theorem dns_resolution_served:
  assumes "hm_contains m d \<or> hm_len m < MAX_ENTRIES"
  shows "(dns_fresh d now m = Some r \<longrightarrow> resolve_with lookup d t now now1 now2 id id m = (r, m)) \<and>
    (dns_fresh d now m = None \<and> lookup d t = Inr ips \<and> ips \<noteq> [] \<and> later < now2 + POSITIVE_TTL \<longrightarrow>
      (\<exists>m'. resolve_with lookup d t now now1 now2 id id m = (Inr ips, m') \<and>
        resolve_with lookup' d t' later now1' now2' others others' m' = (Inr ips, m'))) \<and>
    (dns_fresh d now m = None \<and> lookup d t = Inl e \<and> dns_stale d m = Some ips \<longrightarrow>
      resolve_with lookup d t now now1 now2 id id m = (Inr ips, m)) \<and>
    (dns_fresh d now m = None \<and> lookup d t = Inl e \<and> dns_stale d m = None \<and>
      later < now2 + NEGATIVE_TTL \<longrightarrow>
      (\<exists>m'. resolve_with lookup d t now now1 now2 id id m = (Inl e, m') \<and>
        resolve_with lookup' d t' later now1' now2' others others' m' = (Inl e, m')))"
  using assms by (auto simp: resolve_with_def Let_def dns_fresh_def dns_insert_stored)

theorem dns_resolution_served_witness:
  "\<exists>m'. resolve_with (\<lambda>d t. Inr [IpV4 1]) [0x61] 0 0 0 5 id id dns_new = (Inr [IpV4 1], m') \<and>
    resolve_with (\<lambda>d t. Inl TimedOut) [0x61] 0 (secs 299) 0 0 id id m' = (Inr [IpV4 1], m')"
proof -
  let ?L = "\<lambda>d t. Inr [IpV4 1]"
  have "hm_contains dns_new [0x61] \<or> hm_len dns_new < MAX_ENTRIES" "dns_fresh [0x61] 0 dns_new = None"
    "secs 299 < 5 + POSITIVE_TTL"
    by (simp_all add: dns_new_def MAX_ENTRIES_def dns_fresh_def POSITIVE_TTL_def secs_def)
  then show ?thesis
    using dns_resolution_served [of dns_new "[0x61]" 0 undefined ?L 0 0 5 "[IpV4 1]" "secs 299"
        "\<lambda>d t. Inl TimedOut" 0 0 0 id id undefined]
    by blast
qed

end
