(* ===== verification/Pump.thy ===== *)
theory Pump
  imports Dns
begin

text \<open>
  Error classification and the outbound connect (\<open>common/src/pump.rs\<close>).  An error chain is the list of
  its causes, each an I/O error, an error of the core library or something else (contexts, other
  wrappers).
\<close>

section \<open>Routine teardown\<close>

definition routine_cause :: "error_kind \<Rightarrow> string option" where
  "routine_cause k =
     (case k of
        ConnectionReset \<Rightarrow> Some ''connection reset''
      | ConnectionAborted \<Rightarrow> Some ''connection aborted''
      | BrokenPipe \<Rightarrow> Some ''broken pipe''
      | UnexpectedEof \<Rightarrow> Some ''eof''
      | TimedOut \<Rightarrow> Some ''timeout''
      | WouldBlock \<Rightarrow> Some ''timeout''
      | Interrupted \<Rightarrow> Some ''interrupted''
      | _ \<Rightarrow> None)"

definition is_routine_io :: "error_kind \<Rightarrow> bool" where
  "is_routine_io k \<longleftrightarrow> routine_cause k \<noteq> None"

definition is_routine_core :: "core_error \<Rightarrow> bool" where
  "is_routine_core e \<longleftrightarrow>
     (if is_eof e then True
      else case e of Io k \<Rightarrow> is_routine_io k | HandshakeFailed _ \<Rightarrow> True | _ \<Rightarrow> False)"

datatype cause = CauseIo error_kind | CauseCore core_error | CauseOther

text \<open>The scan of the chain stops at the first cause that is not routine.\<close>

fun clean_scan :: "bool \<Rightarrow> cause list \<Rightarrow> bool \<times> bool" where
  "clean_scan recognized [] = (recognized, True)"
| "clean_scan recognized (CauseIo k # cs) =
     (if is_routine_io k then clean_scan True cs else (True, False))"
| "clean_scan recognized (CauseCore e # cs) =
     (if is_routine_core e then clean_scan True cs else (True, False))"
| "clean_scan recognized (CauseOther # cs) = clean_scan recognized cs"

definition is_clean_close :: "cause list \<Rightarrow> bool" where
  "is_clean_close chain = (let (recognized, clean) = clean_scan False chain in recognized \<and> clean)"

definition retryable :: "cause list \<Rightarrow> bool" where
  "retryable chain \<longleftrightarrow> is_clean_close chain \<or> list_ex (\<lambda>c. c = CauseIo ConnectionRefused) chain"

section \<open>Accept errors\<close>

datatype target_os = OsUnix | OsWindows | OsOther

definition accept_exhausted :: "target_os \<Rightarrow> int option \<Rightarrow> bool" where
  "accept_exhausted os errno \<longleftrightarrow>
     (case os of
        OsUnix \<Rightarrow> errno \<in> {Some 23, Some 24, Some 12}
      | OsWindows \<Rightarrow> errno = Some 10055
      | OsOther \<Rightarrow> False)"

definition accept_routine :: "error_kind \<Rightarrow> bool" where
  "accept_routine k \<longleftrightarrow> k \<in> {ConnectionAborted, ConnectionReset, Interrupted}"

section \<open>Connect under one deadline\<close>

text \<open>
  \<open>connect\<close> is one attempt (an address, a port and the time it may take); the clock is read before
  each attempt, \<open>clock i\<close> before the \<open>i\<close>-th.
\<close>

fun connect_loop ::
  "(ip_addr \<Rightarrow> u16 \<Rightarrow> nat \<Rightarrow> error_kind + 's) \<Rightarrow> u16 \<Rightarrow> nat \<Rightarrow> (nat \<Rightarrow> nat) \<Rightarrow> nat \<Rightarrow> error_kind \<Rightarrow>
   ip_addr list \<Rightarrow> error_kind + 's" where
  "connect_loop connect port deadline clock i prev [] = Inl prev"
| "connect_loop connect port deadline clock i prev (a # as) =
     (let remaining = deadline - clock i
      in if remaining = 0 then Inl TimedOut
         else case connect a port remaining of
                Inr s \<Rightarrow> Inr s
              | Inl e \<Rightarrow> connect_loop connect port deadline clock (Suc i) e as)"

definition tcp_connect ::
  "(bytes \<Rightarrow> nat \<Rightarrow> dns_cache \<Rightarrow> dns_result \<times> dns_cache) \<Rightarrow>
   (ip_addr \<Rightarrow> u16 \<Rightarrow> nat \<Rightarrow> error_kind + 's) \<Rightarrow> host \<Rightarrow> u16 \<Rightarrow> nat \<Rightarrow> nat \<Rightarrow> nat \<Rightarrow> (nat \<Rightarrow> nat) \<Rightarrow>
   dns_cache \<Rightarrow> (error_kind + 's) \<times> dns_cache" where
  "tcp_connect resolve connect host port timeout now now' clock dns =
     (let deadline = now + timeout
      in case host of
           HostIp ip \<Rightarrow> (connect_loop connect port deadline clock 0 AddrNotAvailable [ip], dns)
         | Domain d \<Rightarrow>
             (case resolve d (deadline - now') dns of
                (Inl e, dns') \<Rightarrow> (Inl e, dns')
              | (Inr ips, dns') \<Rightarrow>
                  (connect_loop connect port deadline clock 0 AddrNotAvailable ips, dns')))"

section \<open>Properties\<close>

definition cause_routine :: "cause \<Rightarrow> bool" where
  "cause_routine c = (case c of CauseIo k \<Rightarrow> is_routine_io k | CauseCore e \<Rightarrow> is_routine_core e | CauseOther \<Rightarrow> True)"

lemma clean_scan_spec:
  "snd (clean_scan b cs) \<longleftrightarrow> list_all cause_routine cs"
  "list_all cause_routine cs \<Longrightarrow> fst (clean_scan b cs) \<longleftrightarrow> b \<or> list_ex (\<lambda>c. c \<noteq> CauseOther) cs"
  by (induction b cs rule: clean_scan.induct) (auto simp: cause_routine_def)

lemma is_clean_close_iff:
  "is_clean_close cs \<longleftrightarrow> list_all cause_routine cs \<and> list_ex (\<lambda>c. c \<noteq> CauseOther) cs"
  using clean_scan_spec(1) [of False cs] clean_scan_spec(2) [of cs False]
  by (auto simp: is_clean_close_def case_prod_beta)

text \<open>Protocol violations are never routine, so they are neither logged quietly nor retried.\<close>

lemma protocol_faults_not_routine:
  "\<not> is_routine_core InvalidFrame" "\<not> is_routine_core InvalidBase94"
  "\<not> is_routine_core ChecksumMismatch" "\<not> is_routine_core InvalidSessionId"
  "\<not> is_routine_core FlagsMismatch" "\<not> is_routine_core RoleRefused"
  "\<not> is_routine_core (FrameTooLarge n)" "\<not> is_routine_core ZeroLength"
  "\<not> is_routine_core (InvalidConfig m)"
  by (simp_all add: is_routine_core_def)

lemma connect_loop_success:
  "connect_loop connect port deadline clock i prev ips = Inr s \<Longrightarrow>
    \<exists>j < length ips. clock (i + j) < deadline \<and>
      connect (ips ! j) port (deadline - clock (i + j)) = Inr s \<and>
      (\<forall>k < j. \<exists>e. connect (ips ! k) port (deadline - clock (i + k)) = Inl e)"
proof (induction ips arbitrary: i prev)
  case (Cons a as)
  then have early: "clock i < deadline" by (auto simp: Let_def split: if_splits)
  show ?case
  proof (cases "connect a port (deadline - clock i)")
    case (Inr s')
    with Cons.prems early show ?thesis by (auto simp: Let_def intro!: exI [of _ 0])
  next
    case (Inl e)
    with Cons.prems early have "connect_loop connect port deadline clock (Suc i) e as = Inr s"
      by (simp add: Let_def)
    then obtain j where j: "j < length as" "clock (Suc i + j) < deadline"
      "connect (as ! j) port (deadline - clock (Suc i + j)) = Inr s"
      "\<And>k. k < j \<Longrightarrow> \<exists>e. connect (as ! k) port (deadline - clock (Suc i + k)) = Inl e"
      using Cons.IH by blast
    have "\<exists>e. connect ((a # as) ! k) port (deadline - clock (i + k)) = Inl e" if "k < Suc j" for k
      using that Inl j(4) by (cases k) auto
    with j show ?thesis by (intro exI [of _ "Suc j"]) auto
  qed
qed simp

lemma connect_loop_complete:
  assumes "\<And>k. k \<le> j \<Longrightarrow> clock (i + k) < deadline" and "j < length ips"
    and "\<And>k. k < j \<Longrightarrow> \<exists>e. connect (ips ! k) port (deadline - clock (i + k)) = Inl e"
    and "connect (ips ! j) port (deadline - clock (i + j)) = Inr s"
  shows "connect_loop connect port deadline clock i prev ips = Inr s"
  using assms
proof (induction ips arbitrary: i j prev)
  case (Cons a as)
  show ?case
  proof (cases j)
    case 0
    with Cons.prems show ?thesis by (simp add: Let_def)
  next
    case (Suc j')
    obtain e where "connect a port (deadline - clock i) = Inl e"
      using Cons.prems(3) [of 0] Suc by auto
    moreover have "connect_loop connect port deadline clock (Suc i) e as = Inr s"
    proof (rule Cons.IH [of j'])
      show "clock (Suc i + k) < deadline" if "k \<le> j'" for k
        using Cons.prems(1) [of "Suc k"] Suc that by simp
      show "\<exists>e. connect (as ! k) port (deadline - clock (Suc i + k)) = Inl e" if "k < j'" for k
        using Cons.prems(3) [of "Suc k"] Suc that by simp
    qed (use Cons.prems Suc in auto)
    ultimately show ?thesis using Cons.prems(1) [of 0] by (simp add: Let_def)
  qed
qed simp

text \<open>
  Connecting tries the resolved addresses in order under one deadline: a domain whose lookup
  succeeds is connected exactly when some address answers before the deadline while all earlier ones
  fail, each attempt with at most the time left.
\<close>

theorem tcp_connect_first_success:
  assumes "resolve d (now + timeout - now') dns = (Inr ips, dns')"
    and "\<And>i. i < length ips \<Longrightarrow> clock i < now + timeout"
  shows "(\<exists>s. tcp_connect resolve connect (Domain d) port timeout now now' clock dns = (Inr s, dns')) \<longleftrightarrow>
    (\<exists>j s. j < length ips \<and> connect (ips ! j) port (now + timeout - clock j) = Inr s \<and>
      (\<forall>k < j. \<exists>e. connect (ips ! k) port (now + timeout - clock k) = Inl e))"
  (is "?L \<longleftrightarrow> ?R")
proof
  assume ?L
  then show ?R
    using assms(1) connect_loop_success [of connect port "now + timeout" clock 0]
    by (fastforce simp: tcp_connect_def)
next
  assume ?R
  then obtain j s where "j < length ips" "connect (ips ! j) port (now + timeout - clock j) = Inr s"
    "\<And>k. k < j \<Longrightarrow> \<exists>e. connect (ips ! k) port (now + timeout - clock k) = Inl e"
    by blast
  then have "connect_loop connect port (now + timeout) clock 0 AddrNotAvailable ips = Inr s"
    using assms(2) by (intro connect_loop_complete [of j]) auto
  then show ?L using assms(1) by (simp add: tcp_connect_def)
qed

theorem tcp_connect_first_success_witness:
  "\<exists>s. tcp_connect (\<lambda>d t c. (Inr [IpV4 1, IpV4 2], c))
    (\<lambda>ip port t. if ip = IpV4 2 then Inr () else Inl ConnectionRefused) (Domain [0x61]) 443 10 0 0 (\<lambda>i. i) [] =
    (Inr s, [])"
proof -
  let ?C = "\<lambda>ip port t. if ip = IpV4 2 then Inr () else Inl ConnectionRefused"
  have "\<exists>j s. j < length [IpV4 1, IpV4 2] \<and> ?C ([IpV4 1, IpV4 2] ! j) (443 :: u16) (0 + 10 - j) = Inr s \<and>
      (\<forall>k < j. \<exists>e. ?C ([IpV4 1, IpV4 2] ! k) 443 (0 + 10 - k) = Inl e)"
    by (intro exI [of _ 1] exI [of _ "()"]) auto
  then show ?thesis
    using tcp_connect_first_success [of "\<lambda>d t c. (Inr [IpV4 1, IpV4 2], c)" "[0x61]" 0 10 0 "[]"
        "[IpV4 1, IpV4 2]" "[]" "\<lambda>i. i" ?C 443]
    by simp
qed

end
