(* ===== verification/Stream_Decoder.thy ===== *)
theory Stream_Decoder
  imports Core_Base
begin

text \<open>
  The reassembly loop of \<^verbatim>\<open>crates/common/src/tunnel.rs\<close> (\<open>FrameReader::next\<close>), stated for any
  incremental frame decoder, and the interface such a decoder has to meet.  The session framing
  and the length-prefix framing are the two decoders of the sources; what is proved here once
  (every message arrives, in order, however the carrier cuts the bytes) holds for both.
\<close>

definition READ_CHUNK :: nat where [np_consts]: "READ_CHUNK = 16 * 1024"
definition BUF_CAP :: nat where "BUF_CAP = BASE94_MAX_FRAME + 64"

lemma BUF_CAP_val [np_consts]: "BUF_CAP = 131200"
  by (simp add: BUF_CAP_def np_consts)

text \<open>
  What successive reads of the carrier give.  The end of the list is the end of the stream (a
  read of zero bytes), as is an empty chunk.
\<close>

datatype carrier_read = Chunk bytes | ReadErr error_kind

type_synonym 's decode_step = "'s \<Rightarrow> bytes \<Rightarrow> bytes option core_result \<times> 's \<times> bytes"

function next_loop ::
  "'s decode_step \<Rightarrow> 's \<Rightarrow> bytes \<Rightarrow> carrier_read list \<Rightarrow>
   bytes option core_result \<times> 's \<times> bytes \<times> carrier_read list" where
  "next_loop step s buf reads =
     (case step s buf of
        (Inl e, s', buf') \<Rightarrow> (Inl e, s', buf', reads)
      | (Inr (Some m), s', buf') \<Rightarrow> (Inr (Some m), s', buf', reads)
      | (Inr None, s', buf') \<Rightarrow>
          if length buf' > BUF_CAP then (Inl InvalidFrame, s', buf', reads)
          else (case reads of
                  [] \<Rightarrow> (Inr None, s', buf', [])
                | ReadErr k # rs \<Rightarrow> (Inl (Io k), s', buf', rs)
                | Chunk c # rs \<Rightarrow>
                    if c = [] then (Inr None, s', buf', rs)
                    else next_loop step s' (buf' @ c) rs))"
  by pat_completeness auto
termination by (relation "measure (\<lambda>(step, s, buf, reads). length reads)") auto

declare next_loop.simps [simp del]

text \<open>Up to \<open>n\<close> messages, one \<open>next\<close> after the other.\<close>

fun next_seq ::
  "'s decode_step \<Rightarrow> nat \<Rightarrow> 's \<Rightarrow> bytes \<Rightarrow> carrier_read list \<Rightarrow>
   bytes list \<times> 's \<times> bytes \<times> carrier_read list" where
  "next_seq step 0 s buf reads = ([], s, buf, reads)"
| "next_seq step (Suc n) s buf reads =
     (case next_loop step s buf reads of
        (Inr (Some m), s', buf', reads') \<Rightarrow>
          (let (ms, r) = next_seq step n s' buf' reads' in (m # ms, r))
      | (_, s', buf', reads') \<Rightarrow> ([], s', buf', reads'))"

text \<open>A consecutive sequence of frames.\<close>

fun frames_of :: "('a \<Rightarrow> bytes \<Rightarrow> bytes \<Rightarrow> 'a \<Rightarrow> bool) \<Rightarrow> 'a \<Rightarrow> bytes \<Rightarrow> bytes list \<Rightarrow> 'a \<Rightarrow> bool" where
  "frames_of frame a w [] a' \<longleftrightarrow> w = [] \<and> a' = a"
| "frames_of frame a w (m # ms) a' \<longleftrightarrow>
     (\<exists>w1 w2 a1. w = w1 @ w2 \<and> frame a w1 m a1 \<and> frames_of frame a1 w2 ms a')"

text \<open>
  The interface of an incremental decoder.  \<open>frame a w m a'\<close> says that the bytes \<open>w\<close> are one
  frame carrying \<open>m\<close> for a receiver in the abstract state \<open>a\<close>; \<open>rep s buf a p\<close> says that the
  decoder state \<open>s\<close> with the buffer \<open>buf\<close> stands for \<open>a\<close> with \<open>p\<close> received since the last frame.
\<close>

locale stream_decoder =
  fixes step :: "'s decode_step"
    and rep :: "'s \<Rightarrow> bytes \<Rightarrow> 'a \<Rightarrow> bytes \<Rightarrow> bool"
    and frame :: "'a \<Rightarrow> bytes \<Rightarrow> bytes \<Rightarrow> 'a \<Rightarrow> bool"
  assumes complete: "rep s buf a (w @ rest) \<Longrightarrow> frame a w m a' \<Longrightarrow>
      \<exists>s' buf'. step s buf = (Inr (Some m), s', buf') \<and> rep s' buf' a' rest"
    and partial: "rep s buf a p \<Longrightarrow> frame a (p @ q) m a' \<Longrightarrow> q \<noteq> [] \<Longrightarrow>
      \<exists>s' buf'. step s buf = (Inr None, s', buf') \<and> rep s' buf' a p"
    and feed: "rep s buf a p \<Longrightarrow> rep s (buf @ c) a (p @ c)"
    and size: "rep s buf a p \<Longrightarrow> length buf \<le> length p"
    and bounded: "frame a w m a' \<Longrightarrow> length w \<le> BUF_CAP"
begin

lemma next_partial:
  assumes "rep s buf a p" "frame a (p @ q) m a'" "q \<noteq> []"
  shows "\<exists>s' buf'. rep s' buf' a p \<and>
    next_loop step s buf reads =
      (case reads of
         [] \<Rightarrow> (Inr None, s', buf', [])
       | ReadErr k # rs \<Rightarrow> (Inl (Io k), s', buf', rs)
       | Chunk c # rs \<Rightarrow>
           if c = [] then (Inr None, s', buf', rs) else next_loop step s' (buf' @ c) rs)"
proof -
  obtain s' buf' where st: "step s buf = (Inr None, s', buf')" "rep s' buf' a p"
    using partial [OF assms] by blast
  have "length buf' \<le> BUF_CAP"
    using size [OF st(2)] bounded [OF assms(2)] by simp
  with st show ?thesis
    by (intro exI [of _ s'] exI [of _ buf']) (simp add: next_loop.simps [of step s buf])
qed

lemma next_message:
  assumes "rep s buf a p" "frame a w m a'" "p @ concat cs = w @ rest" "[] \<notin> set cs"
  shows "\<exists>s' buf' p' cs'. next_loop step s buf (map Chunk cs @ tail) =
      (Inr (Some m), s', buf', map Chunk cs' @ tail) \<and>
    rep s' buf' a' p' \<and> p' @ concat cs' = rest \<and> [] \<notin> set cs'"
  using assms
proof (induction cs arbitrary: s buf p)
  case Nil
  then obtain s' buf' where "step s buf = (Inr (Some m), s', buf')" "rep s' buf' a' rest"
    using complete [of s buf a w rest m a'] by auto
  then show ?case
    by (intro exI [of _ s'] exI [of _ buf'] exI [of _ rest] exI [of _ "[]"])
      (simp add: next_loop.simps [of step s buf])
next
  case (Cons c cs)
  show ?case
  proof (cases "length w \<le> length p")
    case True
    then obtain p' where p: "p = w @ p'"
      using Cons.prems(3) by (metis append_eq_append_conv_if append_take_drop_id)
    then obtain s' buf' where "step s buf = (Inr (Some m), s', buf')" "rep s' buf' a' p'"
      using complete [of s buf a w p' m a'] Cons.prems by auto
    then show ?thesis
      using Cons.prems(3,4) p
      by (intro exI [of _ s'] exI [of _ buf'] exI [of _ p'] exI [of _ "c # cs"])
        (simp add: next_loop.simps [of step s buf])
  next
    case False
    then obtain q where q: "w = p @ q" "q \<noteq> []"
      using append_shorter [OF Cons.prems(3)] by auto
    obtain s1 buf1 where s1: "rep s1 buf1 a p"
      "next_loop step s buf (map Chunk (c # cs) @ tail) =
         next_loop step s1 (buf1 @ c) (map Chunk cs @ tail)"
      using next_partial [OF Cons.prems(1), of q m a' "map Chunk (c # cs) @ tail"] Cons.prems(2,4) q
      by auto
    show ?thesis
      using Cons.IH [OF feed [OF s1(1)] Cons.prems(2)] Cons.prems(3,4) s1(2) by auto
  qed
qed

lemma next_messages:
  assumes "rep s buf a p" "frames_of frame a w ms a'" "p @ concat cs = w @ rest" "[] \<notin> set cs"
  shows "\<exists>s' buf' p' cs'. next_seq step (length ms) s buf (map Chunk cs @ tail) =
      (ms, s', buf', map Chunk cs' @ tail) \<and>
    rep s' buf' a' p' \<and> p' @ concat cs' = rest \<and> [] \<notin> set cs'"
  using assms
proof (induction ms arbitrary: s buf p a w cs)
  case Nil
  then show ?case by auto
next
  case (Cons m ms)
  then obtain w1 w2 a1 where w: "w = w1 @ w2" "frame a w1 m a1" "frames_of frame a1 w2 ms a'" by auto
  obtain s1 buf1 p1 cs1 where 1: "next_loop step s buf (map Chunk cs @ tail) =
      (Inr (Some m), s1, buf1, map Chunk cs1 @ tail)"
    "rep s1 buf1 a1 p1" "p1 @ concat cs1 = w2 @ rest" "[] \<notin> set cs1"
    using next_message [OF Cons.prems(1) w(2), of cs "w2 @ rest" tail] Cons.prems(3,4) w(1) by auto
  obtain s2 buf2 p2 cs2 where 2: "next_seq step (length ms) s1 buf1 (map Chunk cs1 @ tail) =
      (ms, s2, buf2, map Chunk cs2 @ tail)"
    "rep s2 buf2 a' p2" "p2 @ concat cs2 = rest" "[] \<notin> set cs2"
    using Cons.IH [OF 1(2) w(3) 1(3,4)] by blast
  then show ?case
    using 1(1)
    by (intro exI [of _ s2] exI [of _ buf2] exI [of _ p2] exI [of _ cs2]) simp
qed

text \<open>The stream ending inside a frame is reported like one that ends between frames.\<close>

lemma truncated_is_end:
  assumes "rep s buf a p" "frame a (p @ q) m a'" "q \<noteq> []"
  shows "\<exists>s' buf'. next_loop step s buf [] = (Inr None, s', buf', [])"
  using next_partial [OF assms, of "[]"] by auto

lemma next_truncated:
  assumes "rep s buf a p" "frame a (p @ concat cs @ q) m a'" "q \<noteq> []" "[] \<notin> set cs"
  shows "\<exists>s' buf'. next_loop step s buf (map Chunk cs) = (Inr None, s', buf', []) \<and>
    rep s' buf' a (p @ concat cs)"
  using assms
proof (induction cs arbitrary: s buf p)
  case Nil
  then show ?case using next_partial [of s buf a p q m a' "[]"] by auto
next
  case (Cons c cs)
  obtain s1 buf1 where s1: "rep s1 buf1 a p"
    "next_loop step s buf (map Chunk (c # cs)) = next_loop step s1 (buf1 @ c) (map Chunk cs)"
    using next_partial [OF Cons.prems(1,2), of "map Chunk (c # cs)"] Cons.prems(3,4) by auto
  show ?case
    using Cons.IH [OF feed [OF s1(1), of c]] Cons.prems(2-4) s1(2) by simp
qed

end

end
