(* ===== verification/Session.thy ===== *)
theory Session
  imports Handshake_Run Stream_Decoder
begin

text \<open>
  \<^verbatim>\<open>crates/core/src/session.rs\<close>: the transport-free codec of the event-driven callers.  A buffer
  may hold part of a frame or several; in binary framing the header is decrypted, and removed
  from the buffer, as soon as its three bytes are in.
\<close>

subsection \<open>The session\<close>

record session_rx =
  sr_core :: rx_core
  sr_pending_binary :: "(nat \<times> u32) option"
  sr_consumed :: nat

record 'r session =
  ss_tx :: "'r tx_core"
  ss_rx :: session_rx
  ss_session_id :: u128

definition from_cores :: "'r tx_core \<Rightarrow> rx_core \<Rightarrow> u128 \<Rightarrow> 'r session" where
  "from_cores tx rx sid =
     \<lparr>ss_tx = tx,
      ss_rx = \<lparr>sr_core = rx, sr_pending_binary = None, sr_consumed = 0\<rparr>,
      ss_session_id = sid\<rparr>"

definition into_session :: "'r transmission \<Rightarrow> 'r session \<times> transport" where
  "into_session t = (from_cores (t_tx t) (t_rx t) (t_session_id t), t_io t)"

definition session_encrypt_into ::
  "'r env_ops \<Rightarrow> 'r session \<Rightarrow> bytes \<Rightarrow> bytes \<Rightarrow> unit core_result \<times> 'r session \<times> bytes" where
  "session_encrypt_into E s out plaintext =
     (let (r, tx, out') = encrypt_into E (ss_tx s) out plaintext in (r, s\<lparr>ss_tx := tx\<rparr>, out'))"

definition session_encrypt_into_prefixed ::
  "'r env_ops \<Rightarrow> 'r session \<Rightarrow> bytes \<Rightarrow> bytes \<Rightarrow> bytes \<Rightarrow>
   unit core_result \<times> 'r session \<times> bytes" where
  "session_encrypt_into_prefixed E s out prefix payload =
     (let (r, tx, out') = encrypt_into_prefixed E (ss_tx s) out prefix payload
      in (r, s\<lparr>ss_tx := tx\<rparr>, out'))"

definition session_split :: "'r session \<Rightarrow> 'r tx_core \<times> session_rx" where
  "session_split s = (ss_tx s, ss_rx s)"

text \<open>
  \<open>poll_frame_impl\<close>: the result, the new state and the caller's buffer, in which binary framing
  decrypts the body in place.
\<close>

definition poll_frame ::
  "'r env_ops \<Rightarrow> session_rx \<Rightarrow> bytes \<Rightarrow> bytes option core_result \<times> session_rx \<times> bytes" where
  "poll_frame E s buf =
     (let rx = sr_core s in
      if \<not> rx_handshaked rx \<or> ok_plaintext (rx_key rx) then
        (case peek_frame_len (e_b94 E) (rx_b94 rx) buf of
           Inl e \<Rightarrow> (Inl e, s, buf)
         | Inr None \<Rightarrow> (Inr None, s, buf)
         | Inr (Some tot) \<Rightarrow>
             if length buf < tot then (Inr None, s, buf)
             else (case decode_packet_into (e_b94 E) (rx_b94 rx) (take tot buf) of
                     (Inl e, fr) \<Rightarrow> (Inl e, s\<lparr>sr_core := rx\<lparr>rx_b94 := fr\<rparr>\<rparr>, buf)
                   | (Inr body, fr) \<Rightarrow>
                       (case rx_tail E (rx\<lparr>rx_b94 := fr\<rparr>) body of
                          (Inl e, rx') \<Rightarrow> (Inl e, s\<lparr>sr_core := rx'\<rparr>, buf)
                        | (Inr msg, rx') \<Rightarrow>
                            (Inr (Some msg), s\<lparr>sr_core := rx', sr_consumed := tot\<rparr>, buf))))
      else
        let body_step = (\<lambda>s buf len header_kf.
              if length buf < len then (Inr None, s, buf)
              else
                let (msg, rx') = rx_finish E (sr_core s) header_kf (take len buf)
                in (Inr (Some msg),
                    s\<lparr>sr_core := rx', sr_pending_binary := None, sr_consumed := len\<rparr>,
                    msg @ drop len buf))
        in case sr_pending_binary s of
             Some (len, header_kf) \<Rightarrow> body_step s buf len header_kf
           | None \<Rightarrow>
               if length buf < HEADER_SIZE then (Inr None, s, buf)
               else (case parse_binary_header E (ok_kf (rx_key rx)) (rx_protocol rx)
                            (take HEADER_SIZE buf) None of
                       (Inl e, p) \<Rightarrow> (Inl e, s\<lparr>sr_core := rx\<lparr>rx_protocol := p\<rparr>\<rparr>, buf)
                     | (Inr (len, header_kf), p) \<Rightarrow>
                         body_step
                           (s\<lparr>sr_core := rx\<lparr>rx_protocol := p\<rparr>,
                              sr_pending_binary := Some (len, header_kf)\<rparr>)
                           (drop HEADER_SIZE buf) len header_kf))"

definition take_consumed :: "session_rx \<Rightarrow> nat \<times> session_rx" where
  "take_consumed s = (sr_consumed s, s\<lparr>sr_consumed := 0\<rparr>)"

definition is_frame_pending :: "session_rx \<Rightarrow> bool" where
  "is_frame_pending s \<longleftrightarrow> sr_pending_binary s \<noteq> None"

text \<open>The polling protocol of every caller: poll, then drain what the frame occupied.\<close>

definition session_step :: "'r env_ops \<Rightarrow> session_rx decode_step" where
  "session_step E s buf =
     (case poll_frame E s buf of
        (Inr (Some msg), s', buf') \<Rightarrow>
          (let (used, s'') = take_consumed s' in (Inr (Some msg), s'', drop used buf'))
      | (r, s', buf') \<Rightarrow> (r, s', buf'))"

subsection \<open>The session framing is a stream decoder\<close>

definition session_rep ::
  "'r env_ops \<Rightarrow> session_rx \<Rightarrow> bytes \<Rightarrow> rx_core \<Rightarrow> bytes \<Rightarrow> bool" where
  "session_rep E s buf rx p \<longleftrightarrow>
     sr_consumed s = 0 \<and>
     (case sr_pending_binary s of
        None \<Rightarrow> sr_core s = rx \<and> buf = p
      | Some (len, hk) \<Rightarrow>
          \<not> base94_mode rx \<and>
          (\<exists>hdr c. p = hdr @ buf \<and> length hdr = HEADER_SIZE \<and>
             header_decrypt (e_crypto E) (ok_kf (rx_key rx)) (Some (rx_protocol rx)) hdr =
               (Inr (len, hk), Some c) \<and>
             sr_core s = rx\<lparr>rx_protocol := c\<rparr>))"

lemma session_rep_new: "session_rep E (ss_rx (from_cores tx rx sid)) [] rx []"
  by (simp add: session_rep_def from_cores_def)

lemma stream_for_frames: "stream_for E rx w ms rx' \<longleftrightarrow> frames_of (wire_for E) rx w ms rx'"
  by (induction ms arbitrary: rx w) auto

text \<open>Base94 framing: the peek decides, and no state changes before the frame is complete.\<close>

lemma session_step_base94:
  assumes rep: "session_rep E s buf rx p" and mode: "base94_mode rx"
    and w: "wire_for E rx w m rx'"
  shows "p = w @ rest \<Longrightarrow> \<exists>s'. session_step E s buf = (Inr (Some m), s', rest) \<and>
           session_rep E s' rest rx' rest"
    and "w = p @ q \<Longrightarrow> q \<noteq> [] \<Longrightarrow> session_step E s buf = (Inr None, s, buf)"
proof -
  have s: "sr_core s = rx" "buf = p" "sr_consumed s = 0" "sr_pending_binary s = None"
    using rep mode by (auto simp: session_rep_def split: option.splits)
  obtain bin where f: "frame_for (e_b94 E) (rx_b94 rx) w bin"
    and pf: "packet_for E (rx_after_frame rx) bin m rx'"
    using w mode by (auto simp: wire_for_def)
  note t = packet_for_tail [OF pf]
  show "\<exists>s'. session_step E s buf = (Inr (Some m), s', rest) \<and> session_rep E s' rest rx' rest"
    if "p = w @ rest"
    using s mode that frame_for_peek [OF f, of rest] frame_for_decode_packet [OF f] t
    by (auto simp: session_step_def poll_frame_def Let_def base94_mode_def take_consumed_def
        rx_after_frame_def session_rep_def)
  show "session_step E s buf = (Inr None, s, buf)" if "w = p @ q" "q \<noteq> []"
    using s mode that frame_for_peek_prefix [OF f, of "length p"]
    by (auto simp: session_step_def poll_frame_def Let_def base94_mode_def)
qed

text \<open>Binary framing: once the header is parsed, what remains is the body.\<close>

lemma poll_frame_header:
  assumes "\<not> base94_mode (sr_core s)" "sr_pending_binary s = None" "length hdr = HEADER_SIZE"
    and "parse_binary_header E (ok_kf (rx_key (sr_core s))) (rx_protocol (sr_core s)) hdr None =
           (Inr (len, hk), c)"
  shows "poll_frame E s (hdr @ buf) =
    poll_frame E (s\<lparr>sr_core := (sr_core s)\<lparr>rx_protocol := c\<rparr>,
                    sr_pending_binary := Some (len, hk)\<rparr>) buf"
  using assms by (simp add: poll_frame_def Let_def base94_mode_def)

lemma poll_frame_body:
  assumes "\<not> base94_mode (sr_core s)" "sr_pending_binary s = Some (len, hk)"
  shows "poll_frame E s buf =
    (if length buf < len then (Inr None, s, buf)
     else let (msg, rx') = rx_finish E (sr_core s) hk (take len buf)
          in (Inr (Some msg), s\<lparr>sr_core := rx', sr_pending_binary := None, sr_consumed := len\<rparr>,
              msg @ drop len buf))"
  using assms by (simp add: poll_frame_def Let_def base94_mode_def)

text \<open>The body phase of a frame is reached from either form of the state.\<close>

lemma session_rep_body:
  assumes rep: "session_rep E s buf rx p" and mode: "\<not> base94_mode rx"
    and p: "p = hdr @ b" "length hdr = HEADER_SIZE"
    and hd: "header_decrypt (e_crypto E) (ok_kf (rx_key rx)) (Some (rx_protocol rx)) hdr =
        (Inr (len, hk), Some c)" "1 \<le> len" "len \<le> PPP_BUFFER_SIZE"
  shows "\<exists>s1. poll_frame E s buf = poll_frame E s1 b \<and> session_rep E s1 b rx p \<and>
    sr_core s1 = rx\<lparr>rx_protocol := c\<rparr> \<and> sr_pending_binary s1 = Some (len, hk)"
proof (cases "sr_pending_binary s")
  case None
  let ?s1 = "s\<lparr>sr_core := rx\<lparr>rx_protocol := c\<rparr>, sr_pending_binary := Some (len, hk)\<rparr>"
  have s: "sr_core s = rx" "buf = hdr @ b" "sr_consumed s = 0"
    using rep None p by (simp_all add: session_rep_def)
  have parse: "parse_binary_header E (ok_kf (rx_key rx)) (rx_protocol rx) hdr None =
      (Inr (len, hk), c)"
    using hd by (simp add: parse_binary_header_def)
  have "poll_frame E s buf = poll_frame E ?s1 b"
    using poll_frame_header [of s hdr E len hk c b] s mode None p(2) parse by simp
  moreover have "session_rep E ?s1 b rx p"
    using s mode p hd(1) by (simp add: session_rep_def)
  ultimately show ?thesis by (intro exI [of _ ?s1]) simp
next
  case (Some lh)
  obtain len' hk' where lh: "lh = (len', hk')" by fastforce
  obtain hdr' c' where r: "p = hdr' @ buf" "length hdr' = HEADER_SIZE"
    "header_decrypt (e_crypto E) (ok_kf (rx_key rx)) (Some (rx_protocol rx)) hdr' =
       (Inr (len', hk'), Some c')" "sr_core s = rx\<lparr>rx_protocol := c'\<rparr>"
    using rep Some lh by (auto simp: session_rep_def)
  have "hdr' = hdr" "buf = b" using p r(1,2) by simp_all
  with r hd Some lh rep show ?thesis by (intro exI [of _ s]) simp
qed

lemma session_step_binary:
  assumes rep: "session_rep E s buf rx p" and mode: "\<not> base94_mode rx"
    and w: "packet_for E rx w m rx'"
  shows "p = w @ rest \<Longrightarrow> \<exists>s'. session_step E s buf = (Inr (Some m), s', rest) \<and>
           session_rep E s' rest rx' rest"
    and "w = p @ q \<Longrightarrow> q \<noteq> [] \<Longrightarrow>
           \<exists>s' buf'. session_step E s buf = (Inr None, s', buf') \<and> session_rep E s' buf' rx p"
proof -
  obtain hdr body hk c where w': "w = hdr @ body" "length hdr = HEADER_SIZE"
      "1 \<le> length body" "length body \<le> PPP_BUFFER_SIZE"
    and hd: "header_decrypt (e_crypto E) (ok_kf (rx_key rx)) (Some (rx_protocol rx)) hdr =
        (Inr (length body, hk), Some c)"
    and fin: "rx_finish E (rx\<lparr>rx_protocol := c\<rparr>) hk body = (m, rx')"
    and lm: "length m = length body"
    using w by (auto simp: packet_for_def rx_finish_def Let_def Suc_le_eq)
  have mode': "\<not> base94_mode (rx\<lparr>rx_protocol := c\<rparr>)" using mode by (simp add: base94_mode_def)
  show "\<exists>s'. session_step E s buf = (Inr (Some m), s', rest) \<and> session_rep E s' rest rx' rest"
    if "p = w @ rest"
  proof -
    have pe: "p = hdr @ (body @ rest)" using that w'(1) by simp
    obtain s1 where s1: "poll_frame E s buf = poll_frame E s1 (body @ rest)"
      "sr_core s1 = rx\<lparr>rx_protocol := c\<rparr>" "sr_pending_binary s1 = Some (length body, hk)"
      using session_rep_body [OF rep mode pe w'(2) hd w'(3,4)] by blast
    then show ?thesis
      using poll_frame_body [of s1 "length body" hk E "body @ rest"] mode' fin lm
      by (simp add: session_step_def take_consumed_def session_rep_def)
  qed
  show "\<exists>s' buf'. session_step E s buf = (Inr None, s', buf') \<and> session_rep E s' buf' rx p"
    if q: "w = p @ q" "q \<noteq> []"
  proof (cases "length p < HEADER_SIZE")
    case True
    then have "sr_pending_binary s = None" "sr_core s = rx" "buf = p"
      using rep by (auto simp: session_rep_def split: option.splits)
    then show ?thesis
      using True mode rep by (simp add: session_step_def poll_frame_def Let_def base94_mode_def)
  next
    case False
    then have "p = hdr @ drop HEADER_SIZE p"
      using q w'(1,2) by (metis append_eq_append_conv_if append_take_drop_id not_less)
    then obtain b where b: "p = hdr @ b" by blast
    obtain s1 where s1: "poll_frame E s buf = poll_frame E s1 b" "session_rep E s1 b rx p"
      "sr_core s1 = rx\<lparr>rx_protocol := c\<rparr>" "sr_pending_binary s1 = Some (length body, hk)"
      using session_rep_body [OF rep mode b w'(2) hd w'(3,4)] by auto
    have "length b < length body" using q b w'(1) by (auto simp: append_assoc)
    then show ?thesis
      using s1 poll_frame_body [of s1 "length body" hk E b] mode' by (simp add: session_step_def)
  qed
qed

lemma wire_for_length:
  assumes "wire_for E rx w m rx'"
  shows "length w \<le> BUF_CAP"
proof (cases "base94_mode rx")
  case True
  then obtain bin where "frame_for (e_b94 E) (rx_b94 rx) w bin"
    using assms by (auto simp: wire_for_def)
  then obtain h body where "w = h @ body" "length h = rx_header_len (rx_b94 rx)"
    "decode_header (e_b94 E) (rx_b94 rx) h = Inr (length body)"
    by (auto simp: frame_for_def)
  then show ?thesis
    by (auto simp: decode_header_def check_bound_def rx_header_len_def np_consts
        split: if_splits sum.splits)
next
  case False
  then show ?thesis using assms by (auto simp: wire_for_def packet_for_def np_consts)
qed

lemma session_complete:
  assumes "session_rep E s buf rx (w @ rest)" "wire_for E rx w m rx'"
  shows "\<exists>s' buf'. session_step E s buf = (Inr (Some m), s', buf') \<and> session_rep E s' buf' rx' rest"
proof (cases "base94_mode rx")
  case True
  then show ?thesis using session_step_base94(1) [OF assms(1) True assms(2) refl] by blast
next
  case False
  then have "packet_for E rx w m rx'" using assms(2) by (simp add: wire_for_def)
  then show ?thesis using session_step_binary(1) [OF assms(1) False _ refl] by blast
qed

lemma session_partial:
  assumes "session_rep E s buf rx p" "wire_for E rx (p @ q) m rx'" "q \<noteq> []"
  shows "\<exists>s' buf'. session_step E s buf = (Inr None, s', buf') \<and> session_rep E s' buf' rx p"
proof (cases "base94_mode rx")
  case True
  then show ?thesis using session_step_base94(2) [OF assms(1) True assms(2) refl assms(3)] assms(1) by blast
next
  case False
  then have "packet_for E rx (p @ q) m rx'" using assms(2) by (simp add: wire_for_def)
  then show ?thesis using session_step_binary(2) [OF assms(1) False _ refl assms(3)] by blast
qed

lemma session_feed: "session_rep E s buf rx p \<Longrightarrow> session_rep E s (buf @ c) rx (p @ c)"
  by (auto simp: session_rep_def split: option.splits)

lemma session_size: "session_rep E s buf rx p \<Longrightarrow> length buf \<le> length p"
  by (auto simp: session_rep_def split: option.splits)

interpretation sess: stream_decoder "session_step E" "session_rep E" "wire_for E" for E
  by (intro stream_decoder.intro session_complete session_partial session_feed session_size
      wire_for_length)

lemma encrypt_seq_frames:
  assumes env: "env_ok E" and sync: "chan_sync tx rx" and ms: "list_all sendable ms"
  shows "\<exists>w tx' rx'. encrypt_seq E tx out ms = (Inr (), tx', out @ w) \<and>
    frames_of (wire_for E) rx w ms rx' \<and> chan_sync tx' rx'"
  using sync ms
proof (induction ms arbitrary: tx rx out)
  case (Cons m ms)
  obtain w1 tx1 rx1 where 1: "encrypt_into E tx out m = (Inr (), tx1, out @ w1)"
    "wire_for E rx w1 m rx1" "chan_sync tx1 rx1"
    using encrypt_into_ok [OF env Cons.prems(1), of m out] Cons.prems(2) by auto
  obtain w2 tx2 rx2 where 2: "encrypt_seq E tx1 (out @ w1) ms = (Inr (), tx2, (out @ w1) @ w2)"
    "frames_of (wire_for E) rx1 w2 ms rx2" "chan_sync tx2 rx2"
    using Cons.IH [OF 1(3), of "out @ w1"] Cons.prems(2) by auto
  have "frames_of (wire_for E) rx (w1 @ w2) (m # ms) rx2" using 1(2) 2(2) by auto
  with 1 2 show ?case
    by (intro exI [of _ "w1 @ w2"] exI [of _ tx2] exI [of _ rx2]) simp
qed auto

end
