(* ===== verification/Mux.thy ===== *)
theory Mux
  imports NP_Prelude
begin

text \<open>
  \<^verbatim>\<open>crates/common/src/mux.rs\<close>: the multiplexing frames a tunnel carries, one per message: a kind
  byte, a varint stream id and the payload.  The encoder's loop is a recursion on the remaining
  value; a fixed output buffer with a length is the list of the bytes written.
\<close>

type_synonym stream_id = u32

datatype frame_kind = KOpen | KReply | KData | KEof | KClose

definition kind_from_u8 :: "u8 \<Rightarrow> frame_kind option" where
  "kind_from_u8 v =
     (if v = 0x00 then Some KOpen else if v = 0x01 then Some KReply
      else if v = 0x02 then Some KData else if v = 0x03 then Some KEof
      else if v = 0x04 then Some KClose else None)"

fun kind_as_u8 :: "frame_kind \<Rightarrow> u8" where
  "kind_as_u8 KOpen = 0x00"
| "kind_as_u8 KReply = 0x01"
| "kind_as_u8 KData = 0x02"
| "kind_as_u8 KEof = 0x03"
| "kind_as_u8 KClose = 0x04"

datatype mux_error = MuxEmpty | TruncatedStreamId | UnknownKind u8

lemma unat_drop_7: "unat (drop_bit 7 (v :: u32)) = unat v div 128"
  by (subst unat_drop_bit_eq) (simp add: drop_bit_eq_div)

function encode_varint :: "u32 \<Rightarrow> bytes" where
  "encode_varint v =
     (let b = ucast (v AND 0x7f); v' = drop_bit 7 v
      in if v' \<noteq> 0 then (b OR 0x80) # encode_varint v' else [b])"
  by pat_completeness auto
termination
proof (relation "measure unat")
  fix v x :: u32 and b
  assume "x = drop_bit 7 v" "x \<noteq> 0"
  then have "v \<noteq> 0" by auto
  then show "(x, v) \<in> measure unat"
    using \<open>x = drop_bit 7 v\<close> by (simp add: unat_drop_7 unat_gt_0)
qed simp

declare encode_varint.simps [simp del]

fun decode_varint_loop :: "nat \<Rightarrow> u32 \<Rightarrow> bytes \<Rightarrow> (u32 \<times> nat) option" where
  "decode_varint_loop i v [] = None"
| "decode_varint_loop i v (b # bs) =
     (if i \<ge> 5 then None
      else
        let bits = ucast (b AND 0x7f)
        in
          if i = 4 \<and> bits > 0x0f then None
          else
            let v' = v OR push_bit (7 * i) bits
            in if b AND 0x80 = 0 then Some (v', i + 1) else decode_varint_loop (i + 1) v' bs)"

definition decode_varint :: "bytes \<Rightarrow> (u32 \<times> nat) option" where
  "decode_varint buf = decode_varint_loop 0 0 buf"

definition frame_header :: "frame_kind \<Rightarrow> stream_id \<Rightarrow> bytes" where
  "frame_header kind stream = kind_as_u8 kind # encode_varint stream"

definition parse_frame :: "bytes \<Rightarrow> mux_error + (frame_kind \<times> stream_id \<times> bytes)" where
  "parse_frame msg =
     (case msg of
        [] \<Rightarrow> Inl MuxEmpty
      | k # rest \<Rightarrow>
          (case kind_from_u8 k of
             None \<Rightarrow> Inl (UnknownKind k)
           | Some kind \<Rightarrow>
               (case decode_varint rest of
                  None \<Rightarrow> Inl TruncatedStreamId
                | Some (stream, n) \<Rightarrow> Inr (kind, stream, drop n rest))))"

subsection \<open>Varints\<close>

lemma kind_roundtrip: "kind_from_u8 (kind_as_u8 k) = Some k"
  by (cases k) (simp_all add: kind_from_u8_def)

lemma kind_as_u8_inv: "kind_from_u8 b = Some k \<Longrightarrow> kind_as_u8 k = b"
  by (auto simp: kind_from_u8_def split: if_splits)

lemma low7: "(x :: u32) AND 0x7f = take_bit 7 x"
  by (simp add: take_bit_eq_mask mask_numeral)

lemma low7_byte: "(x :: u8) AND 0x7f = take_bit 7 x"
  by (simp add: take_bit_eq_mask mask_numeral)

lemma varint_payload:
  "ucast ((ucast (take_bit 7 (x :: u32)) OR 0x80 :: u8) AND 0x7f) = take_bit 7 x"
  "ucast ((ucast (take_bit 7 x) :: u8) AND 0x7f) = take_bit 7 x"
  unfolding low7_byte
  by (rule bit_word_eqI; auto simp: bit_simps bit_numeral_rec)+

lemma varint_msb:
  "(ucast (take_bit 7 (x :: u32)) OR 0x80 :: u8) AND 0x80 \<noteq> 0"
  "(ucast (take_bit 7 x) :: u8) AND 0x80 = 0"
proof -
  have "bit ((ucast (take_bit 7 x) OR 0x80 :: u8) AND 0x80) 7" by (simp add: bit_simps)
  then show "(ucast (take_bit 7 x) OR 0x80 :: u8) AND 0x80 \<noteq> 0" by force
  have "\<not> bit (ucast (take_bit 7 x) :: u8) 7" by (simp add: bit_simps)
  then show "(ucast (take_bit 7 x) :: u8) AND 0x80 = 0"
    using and_exp_eq_0_iff_not_bit [of "ucast (take_bit 7 x) :: u8" 7] by simp
qed

lemma varint_join:
  "(v OR push_bit n (take_bit 7 x)) OR push_bit (n + 7) (drop_bit 7 x) = v OR push_bit n (x :: u32)"
proof (rule bit_word_eqI)
  fix i assume "i < LENGTH(32)"
  moreover have "7 + (i - (n + 7)) = i - n" if "\<not> i - n < 7" using that by simp
  ultimately show "bit ((v OR push_bit n (take_bit 7 x)) OR push_bit (n + 7) (drop_bit 7 x)) i \<longleftrightarrow>
      bit (v OR push_bit n x) i"
    by (cases "i - n < 7") (auto simp: bit_simps)
qed

lemma take_7_last: "drop_bit 7 x = 0 \<Longrightarrow> take_bit 7 (x :: u32) = x"
  by (metis add_0 bits_ident push_bit_of_0)

lemma decode_encode_loop:
  assumes "i \<le> 4" and "unat x < 2 ^ (32 - 7 * i)"
  shows "decode_varint_loop i v (encode_varint x @ rest) =
         Some (v OR push_bit (7 * i) x, i + length (encode_varint x))"
  using assms
proof (induction x arbitrary: i v rule: encode_varint.induct)
  case (1 x)
  let ?y = "drop_bit 7 x"
  show ?case
  proof (cases "?y = 0")
    case True
    have "\<not> (i = 4 \<and> x > 0x0f)" using 1(3) by (auto simp: word_less_nat_alt)
    moreover have "ucast ((ucast x :: u8) AND 0x7f) = x" "(ucast x :: u8) AND 0x80 = 0"
      using varint_payload(2) [of x] varint_msb(2) [of x] take_7_last [OF True] by simp_all
    ultimately show ?thesis
      using True 1(2) by (simp add: encode_varint.simps [of x] Let_def low7 take_7_last)
  next
    case False
    have "128 \<le> unat x"
    proof (rule ccontr)
      assume "\<not> 128 \<le> unat x"
      then have "unat ?y = 0" by (simp add: unat_drop_7)
      with False show False by (simp add: unat_eq_0)
    qed
    have i: "i < 4"
    proof (rule ccontr)
      assume "\<not> i < 4"
      then have "i = 4" using 1(2) by simp
      with 1(3) \<open>128 \<le> unat x\<close> show False by simp
    qed
    have "32 - 7 * i = (32 - 7 * (i + 1)) + 7" using i by simp
    then have "unat x < 2 ^ (32 - 7 * (i + 1)) * 128"
      using 1(3) by (simp only: power_add) simp
    then have "unat ?y < 2 ^ (32 - 7 * (i + 1))"
      by (simp add: unat_drop_7 div_less_iff_less_mult)
    then have "decode_varint_loop (i + 1) (v OR push_bit (7 * i) (take_bit 7 x))
        (encode_varint ?y @ rest) =
      Some ((v OR push_bit (7 * i) (take_bit 7 x)) OR push_bit (7 * (i + 1)) ?y,
            i + 1 + length (encode_varint ?y))"
      using 1(1) [OF refl refl False, of "i + 1"] i by simp
    moreover define b where "b = (ucast (take_bit 7 x) OR 0x80 :: u8)"
    moreover have "encode_varint x = b # encode_varint ?y"
      using False by (simp add: encode_varint.simps [of x] Let_def low7 b_def)
    moreover have "b AND 0x80 \<noteq> 0" "ucast (b AND 0x7f) = take_bit 7 x"
      unfolding b_def by (rule varint_msb varint_payload)+
    ultimately show ?thesis
      using i varint_join [of v "7 * i" x] by (simp add: Let_def add.commute)
  qed
qed

lemma decode_encode_varint:
  "decode_varint (encode_varint x @ rest) = Some (x, length (encode_varint x))"
  using decode_encode_loop [of 0 x 0 rest] unat_lt_u32 [of x] by (simp add: decode_varint_def)

lemma decode_varint_loop_len:
  "decode_varint_loop i v bs = Some (x, n) \<Longrightarrow> i < n \<and> n \<le> 5 \<and> n \<le> i + length bs"
  by (induction i v bs arbitrary: x n rule: decode_varint_loop.induct)
    (force simp: Let_def split: if_splits)+

lemma encode_varint_length: "1 \<le> length (encode_varint x) \<and> length (encode_varint x) \<le> 5"
  using decode_encode_varint [of x "[]"] decode_varint_loop_len [of 0 0 "encode_varint x @ []"]
  by (simp add: decode_varint_def Suc_le_eq)

text \<open>An unfinished varint is reported as such, whatever follows its proper prefix.\<close>

lemma decode_varint_prefix:
  assumes "decode_varint_loop i v (xs @ ys) = Some (x, i + length (xs @ ys))" "ys \<noteq> []"
  shows "decode_varint_loop i v xs = None"
  using assms
proof (induction i v xs rule: decode_varint_loop.induct)
  case (2 i v b bs)
  then show ?case by (auto simp: Let_def split: if_splits)
qed simp

lemma decode_varint_take:
  assumes "k < length (encode_varint x)"
  shows "decode_varint (take k (encode_varint x)) = None"
proof -
  have "decode_varint_loop 0 0 (take k (encode_varint x) @ drop k (encode_varint x)) =
      Some (x, 0 + length (take k (encode_varint x) @ drop k (encode_varint x)))"
    using decode_encode_varint [of x "[]"] by (simp add: decode_varint_def)
  then show ?thesis
    unfolding decode_varint_def
    by (rule decode_varint_prefix) (use assms in simp)
qed

lemma parse_frame_header: "parse_frame (frame_header k sid @ payload) = Inr (k, sid, payload)"
  by (simp add: parse_frame_def frame_header_def kind_roundtrip decode_encode_varint)

lemma frame_header_length: "2 \<le> length (frame_header k sid) \<and> length (frame_header k sid) \<le> 6"
  using encode_varint_length [of sid] by (simp add: frame_header_def)

subsection \<open>Property\<close>

text \<open>
  Frames round-trip: a header encoded for any kind and stream id, followed by any payload,
  parses back to the three; the varint takes one to five bytes and decodes to its value whatever
  follows it, and none of its proper prefixes decodes.
\<close>

theorem mux_frame_roundtrip:
  "parse_frame (frame_header k sid @ payload) = Inr (k, sid, payload) \<and>
   decode_varint (encode_varint v @ rest) = Some (v, length (encode_varint v)) \<and>
   length (encode_varint v) \<in> {1..5} \<and>
   (n < length (encode_varint v) \<longrightarrow> decode_varint (take n (encode_varint v)) = None)"
  using parse_frame_header [of k sid payload] decode_encode_varint [of v rest]
    encode_varint_length [of v] decode_varint_take [of n v]
  by simp

theorem mux_frame_roundtrip_witness:
  "parse_frame (frame_header KData 300 @ [1, 2]) = Inr (KData, 300, [1, 2]) \<and>
   decode_varint (take 1 (encode_varint 300)) = None"
proof -
  have "(1::nat) < length (encode_varint 300)"
    by (simp add: encode_varint.simps [of 300] encode_varint.simps [of 2] Let_def)
  then show ?thesis using mux_frame_roundtrip [of KData 300 "[1, 2]" 300 "[]" 1] by simp
qed

end
