(* ===== verification/Tunnel.thy ===== *)
theory Tunnel
  imports Session Mux
begin

text \<open>
  \<^verbatim>\<open>crates/common/src/tunnel.rs\<close>: the writer and the reader of a tunnel.  The writer encodes
  queued multiplexing frames into session packets or length-prefixed messages, several per write;
  the reader reassembles them from whatever chunks the carrier delivers.
\<close>

subsection \<open>Outbound\<close>

definition PREFIX_MAX_FRAME :: nat where "PREFIX_MAX_FRAME = BASE94_MAX_FRAME"
definition WRITE_BATCH :: nat where [np_consts]: "WRITE_BATCH = 32"

lemma PREFIX_MAX_FRAME_val [np_consts]: "PREFIX_MAX_FRAME = 131136"
  by (simp add: PREFIX_MAX_FRAME_def np_consts)

record out_frame =
  of_header :: bytes
  of_payload :: bytes

definition out_frame_new :: "frame_kind \<Rightarrow> stream_id \<Rightarrow> bytes \<Rightarrow> out_frame" where
  "out_frame_new kind stream payload =
     \<lparr>of_header = frame_header kind stream, of_payload = payload\<rparr>"

definition out_frame_bare :: "frame_kind \<Rightarrow> stream_id \<Rightarrow> out_frame" where
  "out_frame_bare kind stream = out_frame_new kind stream []"

datatype 'r tx_wire = TxSession "'r tx_core" | TxPrefix

definition wire_encode ::
  "'r env_ops \<Rightarrow> 'r tx_wire \<Rightarrow> bytes \<Rightarrow> bytes \<Rightarrow> bytes \<Rightarrow> unit core_result \<times> 'r tx_wire \<times> bytes" where
  "wire_encode E wire out header payload =
     (case wire of
        TxSession tx \<Rightarrow>
          (let (r, tx', out') = encrypt_into_prefixed E tx out header payload
           in (r, TxSession tx', out'))
      | TxPrefix \<Rightarrow>
          (let tot = length header + length payload in
           if tot = 0 then (Inl ZeroLength, TxPrefix, out)
           else if tot > PREFIX_MAX_FRAME then (Inl (FrameTooLarge tot), TxPrefix, out)
           else (Inr (), TxPrefix, out @ encode_varint (of_nat tot) @ header @ payload)))"

text \<open>
  The frames of one round of \<open>run_writer\<close>: the one received and what \<open>try_recv\<close> found.  \<open>False\<close>
  stands for the \<open>break\<close> out of the outer loop when a frame cannot be encoded.
\<close>

fun encode_batch ::
  "'r env_ops \<Rightarrow> 'r tx_wire \<Rightarrow> bytes \<Rightarrow> out_frame list \<Rightarrow> bool \<times> 'r tx_wire \<times> bytes" where
  "encode_batch E wire out [] = (True, wire, out)"
| "encode_batch E wire out (f # fs) =
     (case wire_encode E wire out (of_header f) (of_payload f) of
        (Inl e, wire', out') \<Rightarrow> (False, wire', out')
      | (Inr _, wire', out') \<Rightarrow> encode_batch E wire' out' fs)"

text \<open>
  What \<open>recv\<close> and \<open>try_recv\<close> give in each round: \<open>arrivals\<close> lists what enters the channel up to the end of
  successive rounds, a round takes the frame it waited for and at most \<open>WRITE_BATCH - 1\<close> more, the rest
  stays queued.  After the last arrival the channel is closed and drained.
\<close>

function writer_rounds :: "'f list \<Rightarrow> 'f list list \<Rightarrow> 'f list list" where
  "writer_rounds queue [] =
     (if queue = [] then [] else take WRITE_BATCH queue # writer_rounds (drop WRITE_BATCH queue) [])"
| "writer_rounds queue (arrived # arrivals) =
     (let queue = queue @ arrived in
      if queue = [] then writer_rounds [] arrivals
      else take WRITE_BATCH queue # writer_rounds (drop WRITE_BATCH queue) arrivals)"
  by pat_completeness auto
termination by (relation "measures [\<lambda>(q, arr). length arr, \<lambda>(q, arr). length q]") (auto simp: WRITE_BATCH_def)

declare writer_rounds.simps [simp del]

fun write_rounds ::
  "'r env_ops \<Rightarrow> 'r tx_wire \<Rightarrow> transport \<Rightarrow> out_frame list list \<Rightarrow> 'r tx_wire \<times> transport" where
  "write_rounds E wire sock [] = (wire, sock)"
| "write_rounds E wire sock (b # bs) =
     (case encode_batch E wire [] b of
        (False, wire', out) \<Rightarrow> (wire', sock)
      | (True, wire', out) \<Rightarrow>
          (case write_all out sock of
             (Inl e, sock') \<Rightarrow> (wire', sock')
           | (Inr _, sock') \<Rightarrow> write_rounds E wire' sock' bs))"

text \<open>
  The writer task.  A failing flush has the effect of a failing write in the next round; the shutdown of
  the socket at the end writes nothing.
\<close>

definition run_writer ::
  "'r env_ops \<Rightarrow> 'r tx_wire \<Rightarrow> transport \<Rightarrow> out_frame list list \<Rightarrow> 'r tx_wire \<times> transport" where
  "run_writer E wire sock arrivals = write_rounds E wire sock (writer_rounds [] arrivals)"

text \<open>Batching loses and reorders nothing, and no write carries more than \<open>WRITE_BATCH\<close> frames.\<close>

lemma writer_rounds_Nil [simp]: "writer_rounds [] [] = []"
  by (simp add: writer_rounds.simps(1) [of "[]"])

lemma concat_writer_rounds: "concat (writer_rounds queue arrivals) = queue @ concat arrivals"
proof (induction queue arrivals rule: writer_rounds.induct)
  case (1 queue)
  then show ?case by (cases "queue = []") (simp_all add: writer_rounds.simps(1) [of queue])
next
  case (2 queue arrived arrivals)
  then show ?case
    by (cases "queue @ arrived = []")
      (simp_all add: writer_rounds.simps(2) [of queue] Let_def del: take_append drop_append append_is_Nil_conv)
qed

lemma writer_rounds_bounded: "list_all (\<lambda>b. b \<noteq> [] \<and> length b \<le> WRITE_BATCH) (writer_rounds queue arrivals)"
proof (induction queue arrivals rule: writer_rounds.induct)
  case (1 queue)
  then show ?case by (cases "queue = []") (simp_all add: writer_rounds.simps(1) [of queue] WRITE_BATCH_def)
next
  case (2 queue arrived arrivals)
  then show ?case
    by (cases "queue @ arrived = []")
      (simp_all add: writer_rounds.simps(2) [of queue] Let_def WRITE_BATCH_def del: take_append drop_append append_is_Nil_conv)
qed

subsection \<open>Inbound\<close>

datatype rx_wire = RxSession session_rx | RxPrefix

definition peek_prefix :: "bytes \<Rightarrow> (nat \<times> nat) option core_result" where
  "peek_prefix buf =
     (case decode_varint buf of
        Some (len, vlen) \<Rightarrow>
          if len = 0 then Inl ZeroLength
          else if unat len > PREFIX_MAX_FRAME then Inl (FrameTooLarge (unat len))
          else Inr (Some (unat len, vlen))
      | None \<Rightarrow> if length buf \<ge> 5 then Inl InvalidFrame else Inr None)"

definition prefix_step :: "unit decode_step" where
  "prefix_step s buf =
     (case peek_prefix buf of
        Inl e \<Rightarrow> (Inl e, s, buf)
      | Inr None \<Rightarrow> (Inr None, s, buf)
      | Inr (Some (tot, vlen)) \<Rightarrow>
          if length buf \<ge> vlen + tot
          then (Inr (Some (take tot (drop vlen buf))), s, drop (vlen + tot) buf)
          else (Inr None, s, buf))"

text \<open>One pass of the reader's loop body, by the carrier's framing.\<close>

definition reader_step :: "'r env_ops \<Rightarrow> rx_wire decode_step" where
  "reader_step E wire buf =
     (case wire of
        RxSession s \<Rightarrow>
          (let (r, s', buf') = session_step E s buf in (r, RxSession s', buf'))
      | RxPrefix \<Rightarrow> (let (r, _, buf') = prefix_step () buf in (r, RxPrefix, buf')))"

record frame_reader =
  rd_wire :: rx_wire
  rd_buf :: bytes

definition reader_new :: "session_rx \<Rightarrow> frame_reader" where
  "reader_new s = \<lparr>rd_wire = RxSession s, rd_buf = []\<rparr>"

definition reader_prefix :: frame_reader where
  "reader_prefix = \<lparr>rd_wire = RxPrefix, rd_buf = []\<rparr>"

definition reader_next ::
  "'r env_ops \<Rightarrow> frame_reader \<Rightarrow> carrier_read list \<Rightarrow>
   bytes option core_result \<times> frame_reader \<times> carrier_read list" where
  "reader_next E rd reads =
     (let (r, wire, buf, reads') = next_loop (reader_step E) (rd_wire rd) (rd_buf rd) reads
      in (r, \<lparr>rd_wire = wire, rd_buf = buf\<rparr>, reads'))"

subsection \<open>Prefix framing is a stream decoder\<close>

definition prefix_frame :: "unit \<Rightarrow> bytes \<Rightarrow> bytes \<Rightarrow> unit \<Rightarrow> bool" where
  "prefix_frame a w m a' \<longleftrightarrow>
     w = encode_varint (of_nat (length m)) @ m \<and> m \<noteq> [] \<and> length m \<le> PREFIX_MAX_FRAME"

definition prefix_rep :: "unit \<Rightarrow> bytes \<Rightarrow> unit \<Rightarrow> bytes \<Rightarrow> bool" where
  "prefix_rep s buf a p \<longleftrightarrow> buf = p"

lemma peek_prefix_frame:
  assumes "m \<noteq> []" "length m \<le> PREFIX_MAX_FRAME"
  defines "v \<equiv> encode_varint (of_nat (length m))"
  shows "peek_prefix (v @ rest) = Inr (Some (length m, length v))"
proof -
  have u: "unat (of_nat (length m) :: u32) = length m"
    using assms(2) by (intro unat_of_nat_small) (simp add: np_consts)
  then have "(of_nat (length m) :: u32) \<noteq> 0" using assms(1) by (metis length_0_conv unat_0)
  then show ?thesis
    using assms(2) u by (simp add: peek_prefix_def v_def decode_encode_varint)
qed

lemma prefix_complete:
  assumes "prefix_frame a w m a'"
  shows "prefix_step s (w @ rest) = (Inr (Some m), s, rest)"
  using assms peek_prefix_frame [of m "m @ rest"]
  by (simp add: prefix_frame_def prefix_step_def)

lemma prefix_partial:
  assumes "prefix_frame a (p @ q) m a'" "q \<noteq> []"
  shows "prefix_step s p = (Inr None, s, p)"
proof -
  let ?v = "encode_varint (of_nat (length m))"
  have w: "p @ q = ?v @ m" and m: "m \<noteq> []" "length m \<le> PREFIX_MAX_FRAME"
    using assms(1) by (auto simp: prefix_frame_def)
  show ?thesis
  proof (cases "length p < length ?v")
    case True
    then have "p = take (length p) ?v" using w by (metis append_eq_append_conv_if not_less less_imp_le)
    then have "decode_varint p = None" using decode_varint_take [OF True] by simp
    moreover have "length p < 5" using True encode_varint_length [of "of_nat (length m)"] by simp
    ultimately show ?thesis by (simp add: prefix_step_def peek_prefix_def)
  next
    case False
    then obtain r where r: "p = ?v @ r" using w by (metis append_eq_append_conv_if append_take_drop_id not_less)
    then have "length r < length m" using w assms(2) by auto
    then show ?thesis
      using peek_prefix_frame [OF m, of r] r by (simp add: prefix_step_def)
  qed
qed

interpretation pref: stream_decoder prefix_step prefix_rep prefix_frame
proof
  show "length w \<le> BUF_CAP" if "prefix_frame a w m a'" for a w m a'
    using that encode_varint_length [of "of_nat (length m)"] by (auto simp: prefix_frame_def np_consts)
qed (auto simp: prefix_rep_def prefix_complete prefix_partial)

text \<open>The reader of the sources, over either framing.\<close>

definition reader_session_rep ::
  "'r env_ops \<Rightarrow> rx_wire \<Rightarrow> bytes \<Rightarrow> rx_core \<Rightarrow> bytes \<Rightarrow> bool" where
  "reader_session_rep E wire buf a p \<longleftrightarrow> (\<exists>s. wire = RxSession s \<and> session_rep E s buf a p)"

definition reader_prefix_rep :: "rx_wire \<Rightarrow> bytes \<Rightarrow> unit \<Rightarrow> bytes \<Rightarrow> bool" where
  "reader_prefix_rep wire buf a p \<longleftrightarrow> wire = RxPrefix \<and> prefix_rep () buf a p"

interpretation rd_sess: stream_decoder "reader_step E" "reader_session_rep E" "wire_for E" for E
proof
  fix wire buf a w rest m a'
  assume "reader_session_rep E wire buf a (w @ rest)" "wire_for E a w m a'"
  then show "\<exists>s' buf'. reader_step E wire buf = (Inr (Some m), s', buf') \<and>
      reader_session_rep E s' buf' a' rest"
    using sess.complete by (fastforce simp: reader_session_rep_def reader_step_def)
next
  fix wire buf a p q m a'
  assume "reader_session_rep E wire buf a p" "wire_for E a (p @ q) m a'" "q \<noteq> []"
  then show "\<exists>s' buf'. reader_step E wire buf = (Inr None, s', buf') \<and>
      reader_session_rep E s' buf' a p"
    using sess.partial by (fastforce simp: reader_session_rep_def reader_step_def)
qed (auto simp: reader_session_rep_def sess.feed sess.size sess.bounded)

interpretation rd_pref: stream_decoder "reader_step E" reader_prefix_rep prefix_frame for E
proof
  fix wire buf a w rest m a'
  assume "reader_prefix_rep wire buf a (w @ rest)" "prefix_frame a w m a'"
  then show "\<exists>s' buf'. reader_step E wire buf = (Inr (Some m), s', buf') \<and>
      reader_prefix_rep s' buf' a' rest"
    using prefix_complete by (simp add: reader_prefix_rep_def reader_step_def prefix_rep_def)
next
  fix wire buf a p q m a'
  assume "reader_prefix_rep wire buf a p" "prefix_frame a (p @ q) m a'" "q \<noteq> []"
  then show "\<exists>s' buf'. reader_step E wire buf = (Inr None, s', buf') \<and>
      reader_prefix_rep s' buf' a p"
    using prefix_partial by (simp add: reader_prefix_rep_def reader_step_def prefix_rep_def)
qed (auto simp: reader_prefix_rep_def prefix_rep_def pref.bounded)

subsection \<open>What the writer puts on the wire\<close>

definition frame_msg :: "out_frame \<Rightarrow> bytes" where
  "frame_msg f = of_header f @ of_payload f"

definition frame_fits :: "out_frame \<Rightarrow> bool" where
  "frame_fits f \<longleftrightarrow> 0 < length (frame_msg f) \<and> length (frame_msg f) \<le> PPP_BUFFER_SIZE"

lemma frames_of_append:
  "frames_of fr a w1 ms a1 \<Longrightarrow> frames_of fr a1 w2 ns a2 \<Longrightarrow> frames_of fr a (w1 @ w2) (ms @ ns) a2"
proof (induction ms arbitrary: a w1)
  case (Cons m ms)
  then show ?case by (metis append_Cons append_assoc frames_of.simps(2))
qed simp

lemma encode_batch_session:
  assumes env: "env_ok E" and sync: "chan_sync tx rx" and fs: "list_all frame_fits fs"
  shows "\<exists>tx' w rx'. encode_batch E (TxSession tx) out fs = (True, TxSession tx', out @ w) \<and>
    frames_of (wire_for E) rx w (map frame_msg fs) rx' \<and> chan_sync tx' rx'"
  using sync fs
proof (induction fs arbitrary: tx rx out)
  case (Cons f fs)
  obtain w1 tx1 rx1 where 1:
    "encrypt_impl E tx out (of_header f) (of_payload f) = (Inr (), tx1, out @ w1)"
    "wire_for E rx w1 (frame_msg f) rx1" "chan_sync tx1 rx1"
    using encrypt_impl_ok [OF env Cons.prems(1), of "of_header f" "of_payload f" out] Cons.prems(2)
    by (auto simp: frame_fits_def frame_msg_def)
  obtain tx2 w2 rx2 where 2:
    "encode_batch E (TxSession tx1) (out @ w1) fs = (True, TxSession tx2, (out @ w1) @ w2)"
    "frames_of (wire_for E) rx1 w2 (map frame_msg fs) rx2" "chan_sync tx2 rx2"
    using Cons.IH [OF 1(3), of "out @ w1"] Cons.prems(2) by auto
  have "frames_of (wire_for E) rx (w1 @ w2) (map frame_msg (f # fs)) rx2"
    using 1(2) 2(2) by auto
  with 1 2 show ?case
    by (intro exI [of _ tx2] exI [of _ "w1 @ w2"] exI [of _ rx2])
      (simp add: wire_encode_def encrypt_into_prefixed_def)
qed auto

lemma write_rounds_session:
  assumes env: "env_ok E" and sync: "chan_sync tx rx" and room: "tr_out_room sock = None"
    and fs: "list_all frame_fits (concat bs)"
  shows "\<exists>tx' w rx'. write_rounds E (TxSession tx) sock bs =
      (TxSession tx', sock\<lparr>tr_out := tr_out sock @ w\<rparr>) \<and>
    frames_of (wire_for E) rx w (map frame_msg (concat bs)) rx' \<and> chan_sync tx' rx'"
  using sync room fs
proof (induction bs arbitrary: tx rx sock)
  case (Cons b bs)
  obtain tx1 w1 rx1 where 1: "encode_batch E (TxSession tx) [] b = (True, TxSession tx1, w1)"
    "frames_of (wire_for E) rx w1 (map frame_msg b) rx1" "chan_sync tx1 rx1"
    using encode_batch_session [OF env Cons.prems(1), of b "[]"] Cons.prems(3) by auto
  let ?sock1 = "sock\<lparr>tr_out := tr_out sock @ w1\<rparr>"
  obtain tx2 w2 rx2 where 2: "write_rounds E (TxSession tx1) ?sock1 bs =
      (TxSession tx2, ?sock1\<lparr>tr_out := tr_out ?sock1 @ w2\<rparr>)"
    "frames_of (wire_for E) rx1 w2 (map frame_msg (concat bs)) rx2" "chan_sync tx2 rx2"
    using Cons.IH [OF 1(3), of ?sock1] Cons.prems(2,3) by auto
  show ?case
    using 1 2 Cons.prems(2) frames_of_append [OF 1(2) 2(2)]
    by (intro exI [of _ tx2] exI [of _ "w1 @ w2"] exI [of _ rx2]) (simp add: write_all_def)
qed auto

lemma run_writer_session:
  assumes "env_ok E" and "chan_sync tx rx" and "tr_out_room sock = None" and "list_all frame_fits (concat arrivals)"
  shows "\<exists>tx' w rx'. run_writer E (TxSession tx) sock arrivals =
      (TxSession tx', sock\<lparr>tr_out := tr_out sock @ w\<rparr>) \<and>
    frames_of (wire_for E) rx w (map frame_msg (concat arrivals)) rx' \<and> chan_sync tx' rx'"
  using write_rounds_session [OF assms(1-3), of "writer_rounds [] arrivals"] assms(4)
  by (simp add: run_writer_def concat_writer_rounds)

lemma encode_batch_prefix:
  "list_all frame_fits fs \<Longrightarrow>
   \<exists>w. encode_batch E TxPrefix out fs = (True, TxPrefix, out @ w) \<and>
       frames_of prefix_frame () w (map frame_msg fs) ()"
proof (induction fs arbitrary: out)
  case (Cons f fs)
  let ?w1 = "encode_varint (of_nat (length (frame_msg f))) @ frame_msg f"
  have f: "frame_fits f" using Cons.prems by simp
  obtain w2 where 2: "encode_batch E TxPrefix (out @ ?w1) fs = (True, TxPrefix, (out @ ?w1) @ w2)"
    "frames_of prefix_frame () w2 (map frame_msg fs) ()"
    using Cons.IH [of "out @ ?w1"] Cons.prems by auto
  have "wire_encode E TxPrefix out (of_header f) (of_payload f) = (Inr (), TxPrefix, out @ ?w1)"
    using f by (auto simp: wire_encode_def Let_def frame_fits_def frame_msg_def np_consts)
  moreover have "prefix_frame () ?w1 (frame_msg f) ()"
    using f by (auto simp: prefix_frame_def frame_fits_def np_consts)
  then have "frames_of prefix_frame () (?w1 @ w2) (map frame_msg (f # fs)) ()"
    using 2(2) by (simp only: list.map frames_of.simps) blast
  ultimately show ?case
    using 2(1) by (intro exI [of _ "?w1 @ w2"]) simp
qed auto

lemma write_rounds_prefix:
  "tr_out_room sock = None \<Longrightarrow> list_all frame_fits (concat bs) \<Longrightarrow>
   \<exists>w. write_rounds E TxPrefix sock bs = (TxPrefix, sock\<lparr>tr_out := tr_out sock @ w\<rparr>) \<and>
       frames_of prefix_frame () w (map frame_msg (concat bs)) ()"
proof (induction bs arbitrary: sock)
  case (Cons b bs)
  obtain w1 where 1: "encode_batch E TxPrefix [] b = (True, TxPrefix, w1)"
    "frames_of prefix_frame () w1 (map frame_msg b) ()"
    using encode_batch_prefix [of b E "[]"] Cons.prems(2) by auto
  let ?sock1 = "sock\<lparr>tr_out := tr_out sock @ w1\<rparr>"
  obtain w2 where 2: "write_rounds E TxPrefix ?sock1 bs = (TxPrefix, ?sock1\<lparr>tr_out := tr_out ?sock1 @ w2\<rparr>)"
    "frames_of prefix_frame () w2 (map frame_msg (concat bs)) ()"
    using Cons.IH [of ?sock1] Cons.prems by auto
  show ?case
    using 1 2 Cons.prems(1) frames_of_append [OF 1(2) 2(2)]
    by (intro exI [of _ "w1 @ w2"]) (simp add: write_all_def)
qed auto

lemma run_writer_prefix:
  "tr_out_room sock = None \<Longrightarrow> list_all frame_fits (concat arrivals) \<Longrightarrow>
   \<exists>w. run_writer E TxPrefix sock arrivals = (TxPrefix, sock\<lparr>tr_out := tr_out sock @ w\<rparr>) \<and>
       frames_of prefix_frame () w (map frame_msg (concat arrivals)) ()"
  using write_rounds_prefix [of sock "writer_rounds [] arrivals" E]
  by (simp add: run_writer_def concat_writer_rounds)

subsection \<open>Frames by their content\<close>

definition to_out_frame :: "frame_kind \<times> stream_id \<times> bytes \<Rightarrow> out_frame" where
  "to_out_frame = (\<lambda>(k, sid, p). out_frame_new k sid p)"

lemma to_out_frame_fits:
  "length p \<le> PPP_BUFFER_SIZE - 6 \<Longrightarrow> frame_fits (to_out_frame (k, sid, p))"
  using frame_header_length [of k sid]
  by (auto simp: frame_fits_def frame_msg_def to_out_frame_def out_frame_new_def np_consts)

lemma parse_to_out_frame: "parse_frame (frame_msg (to_out_frame x)) = Inr x"
  by (cases x) (simp add: frame_msg_def to_out_frame_def out_frame_new_def parse_frame_header)

end
