(* ===== verification/Stream_Pump.thy ===== *)
theory Stream_Pump
  imports Pump Tunnel "HOL-Library.Sublist"
begin

text \<open>
  The pump of one proxied stream (\<open>common/src/tunnel.rs\<close>, from \<open>StreamEnd\<close> on): two tasks, one per
  direction, and the task that waits for them.  A schedule is the list of their turns; a turn of a
  direction is one iteration of its loop; an abort takes effect between two turns, or in the middle of a
  write to the local socket, of which it leaves any prefix written.  The sockets
  and the channels are values: what the local side will deliver, what it has accepted, the frames
  handed to the tunnel's writer, and how many more frames the writer takes before the tunnel closes.
\<close>

section \<open>Ends of a direction and of a stream\<close>

datatype dir_end = DirEof | DirClosed string | DirFault string

datatype stream_end = Graceful | Closed string | Fault string

fun end_cause :: "stream_end \<Rightarrow> string" where
  "end_cause Graceful = ''eof''"
| "end_cause (Closed why) = why"
| "end_cause (Fault e) = e"

fun is_fault :: "stream_end \<Rightarrow> bool" where
  "is_fault (Fault _) \<longleftrightarrow> True"
| "is_fault _ \<longleftrightarrow> False"

fun is_graceful :: "stream_end \<Rightarrow> bool" where
  "is_graceful Graceful \<longleftrightarrow> True"
| "is_graceful _ \<longleftrightarrow> False"

fun dir_graceful :: "dir_end \<Rightarrow> bool" where
  "dir_graceful DirEof \<longleftrightarrow> True"
| "dir_graceful _ \<longleftrightarrow> False"

definition classify_io_end :: "error_kind \<Rightarrow> string \<Rightarrow> dir_end" where
  "classify_io_end k msg =
     (case routine_cause k of Some cause \<Rightarrow> DirClosed cause | None \<Rightarrow> DirFault msg)"

section \<open>Channels and tasks\<close>

datatype stream_event = EvData bytes | EvEof | EvClose

record out_chan =
  ch_sent :: "out_frame list"
  ch_left :: "nat option"

text \<open>\<open>send\<close> waits for room and fails only when the receiver is gone.\<close>

definition chan_send :: "out_frame \<Rightarrow> out_chan \<Rightarrow> bool \<times> out_chan" where
  "chan_send f ch =
     (case ch_left ch of
        None \<Rightarrow> (True, ch\<lparr>ch_sent := ch_sent ch @ [f]\<rparr>)
      | Some 0 \<Rightarrow> (False, ch)
      | Some (Suc n) \<Rightarrow> (True, ch\<lparr>ch_sent := ch_sent ch @ [f], ch_left := Some n\<rparr>))"

text \<open>\<open>try_send\<close>, its result ignored: nothing happens when the channel is full or closed.\<close>

definition chan_try_send :: "bool \<Rightarrow> out_frame \<Rightarrow> out_chan \<Rightarrow> out_chan" where
  "chan_try_send full f ch = (if full then ch else snd (chan_send f ch))"

datatype local_read = LRead bytes | LErr error_kind string

datatype 'a pump_task = Running 'a | Ended dir_end | Aborted | Panicked

fun join_dir :: "'a pump_task \<Rightarrow> dir_end option" where
  "join_dir (Running _) = None"
| "join_dir (Ended e) = Some e"
| "join_dir Aborted = Some (DirClosed ''aborted'')"
| "join_dir Panicked = Some (DirFault ''stream pump panicked'')"

fun abort_task :: "'a pump_task \<Rightarrow> 'a pump_task" where
  "abort_task (Running _) = Aborted"
| "abort_task t = t"

datatype main_phase =
  Selecting
| AwaitDown dir_end
| AwaitUp dir_end
| PumpDone dir_end dir_end

record pump_state =
  ps_up :: "local_read list pump_task"
  ps_down :: "stream_event list pump_task"
  ps_ch :: out_chan
  ps_wr :: transport
  ps_shut :: bool
  ps_up_bytes :: u64
  ps_down_bytes :: u64
  ps_main :: main_phase

definition pump_init :: "local_read list \<Rightarrow> stream_event list \<Rightarrow> out_chan \<Rightarrow> transport \<Rightarrow> pump_state" where
  "pump_init reads evs ch wr =
     \<lparr>ps_up = Running reads, ps_down = Running evs, ps_ch = ch, ps_wr = wr, ps_shut = False,
      ps_up_bytes = 0, ps_down_bytes = 0, ps_main = Selecting\<rparr>"

section \<open>The three tasks\<close>

text \<open>The end of the local stream (\<open>read\<close> returned 0, or nothing is left to deliver).\<close>

definition up_eof :: "stream_id \<Rightarrow> pump_state \<Rightarrow> pump_state" where
  "up_eof sid s =
     (case chan_send (out_frame_bare KEof sid) (ps_ch s) of
        (True, ch) \<Rightarrow> s\<lparr>ps_up := Ended DirEof, ps_ch := ch\<rparr>
      | (False, ch) \<Rightarrow> s\<lparr>ps_up := Ended (DirClosed ''tunnel closed''), ps_ch := ch\<rparr>)"

definition pump_up :: "bool \<Rightarrow> stream_id \<Rightarrow> pump_state \<Rightarrow> pump_state" where
  "pump_up full sid s =
     (case ps_up s of
        Running [] \<Rightarrow> up_eof sid s
      | Running (LRead bs # rest) \<Rightarrow>
          if bs = [] then up_eof sid s
          else (case chan_send (out_frame_new KData sid bs) (ps_ch s) of
                  (True, ch) \<Rightarrow>
                    s\<lparr>ps_up := Running rest, ps_ch := ch,
                      ps_up_bytes := ps_up_bytes s + of_nat (length bs)\<rparr>
                | (False, ch) \<Rightarrow> s\<lparr>ps_up := Ended (DirClosed ''tunnel closed''), ps_ch := ch\<rparr>)
      | Running (LErr k msg # rest) \<Rightarrow>
          s\<lparr>ps_up := Ended (classify_io_end k msg),
            ps_ch := chan_try_send full (out_frame_bare KClose sid) (ps_ch s)\<rparr>
      | _ \<Rightarrow> s)"

definition pump_down :: "bool \<Rightarrow> string \<Rightarrow> stream_id \<Rightarrow> pump_state \<Rightarrow> pump_state" where
  "pump_down full msg sid s =
     (case ps_down s of
        Running [] \<Rightarrow> s\<lparr>ps_down := Ended (DirClosed ''tunnel closed'')\<rparr>
      | Running (EvData d # rest) \<Rightarrow>
          (case write_all d (ps_wr s) of
             (Inl (Io k), wr) \<Rightarrow>
               s\<lparr>ps_down := Ended (classify_io_end k msg), ps_wr := wr,
                 ps_ch := chan_try_send full (out_frame_bare KClose sid) (ps_ch s)\<rparr>
           | (_, wr) \<Rightarrow>
               s\<lparr>ps_down := Running rest, ps_wr := wr,
                 ps_down_bytes := ps_down_bytes s + of_nat (length d)\<rparr>)
      | Running (EvEof # rest) \<Rightarrow> s\<lparr>ps_down := Ended DirEof, ps_shut := True\<rparr>
      | Running (EvClose # rest) \<Rightarrow> s\<lparr>ps_down := Ended (DirClosed ''peer reset'')\<rparr>
      | _ \<Rightarrow> s)"

text \<open>
  One turn of \<open>pump_stream\<close>.  \<open>up_first\<close> says which of the two directions the \<open>select!\<close> looks at; a turn
  without a finished direction changes nothing.  An abort of the downward task may hit it inside
  \<open>write_all\<close>, after \<open>part\<close> bytes of the event it is writing; the upward task's only awaits are the read
  and the send on the channel, which take effect whole or not at all.
\<close>

definition abort_down :: "nat \<Rightarrow> pump_state \<Rightarrow> pump_state" where
  "abort_down part s =
     (case ps_down s of
        Running (EvData d # rest) \<Rightarrow>
          s\<lparr>ps_down := Aborted, ps_wr := snd (write_all (take part d) (ps_wr s))\<rparr>
      | _ \<Rightarrow> s\<lparr>ps_down := abort_task (ps_down s)\<rparr>)"

definition pump_main :: "bool \<Rightarrow> nat \<Rightarrow> pump_state \<Rightarrow> pump_state" where
  "pump_main up_first part s =
     (case ps_main s of
        Selecting \<Rightarrow>
          if up_first
          then (case join_dir (ps_up s) of
                  None \<Rightarrow> s
                | Some e \<Rightarrow>
                    if dir_graceful e then s\<lparr>ps_main := AwaitDown e\<rparr>
                    else abort_down part (s\<lparr>ps_main := AwaitDown e\<rparr>))
          else (case join_dir (ps_down s) of
                  None \<Rightarrow> s
                | Some e \<Rightarrow>
                    if dir_graceful e then s\<lparr>ps_main := AwaitUp e\<rparr>
                    else s\<lparr>ps_main := AwaitUp e, ps_up := abort_task (ps_up s)\<rparr>)
      | AwaitDown u \<Rightarrow>
          (case join_dir (ps_down s) of None \<Rightarrow> s | Some d \<Rightarrow> s\<lparr>ps_main := PumpDone u d\<rparr>)
      | AwaitUp d \<Rightarrow>
          (case join_dir (ps_up s) of None \<Rightarrow> s | Some u \<Rightarrow> s\<lparr>ps_main := PumpDone u d\<rparr>)
      | PumpDone u d \<Rightarrow> s)"

definition combine_ends :: "dir_end \<Rightarrow> dir_end \<Rightarrow> stream_end" where
  "combine_ends u d =
     (case (u, d) of
        (DirEof, DirEof) \<Rightarrow> Graceful
      | (DirFault e, _) \<Rightarrow> Fault e
      | (_, DirFault e) \<Rightarrow> Fault e
      | (DirClosed c, _) \<Rightarrow> Closed c
      | (_, DirClosed c) \<Rightarrow> Closed c)"

record pump_outcome =
  po_up :: u64
  po_down :: u64
  po_end :: stream_end

definition pump_result :: "pump_state \<Rightarrow> pump_outcome option" where
  "pump_result s =
     (case ps_main s of
        PumpDone u d \<Rightarrow> Some \<lparr>po_up = ps_up_bytes s, po_down = ps_down_bytes s, po_end = combine_ends u d\<rparr>
      | _ \<Rightarrow> None)"

datatype pump_turn = TurnUp bool | TurnDown bool string | TurnMain bool nat

fun pump_turn_step :: "stream_id \<Rightarrow> pump_turn \<Rightarrow> pump_state \<Rightarrow> pump_state" where
  "pump_turn_step sid (TurnUp full) s = pump_up full sid s"
| "pump_turn_step sid (TurnDown full msg) s = pump_down full msg sid s"
| "pump_turn_step sid (TurnMain up_first part) s = pump_main up_first part s"

definition pump_stream :: "stream_id \<Rightarrow> pump_turn list \<Rightarrow> pump_state \<Rightarrow> pump_state" where
  "pump_stream sid turns s = fold (pump_turn_step sid) turns s"

section \<open>Integrity of the stream\<close>

text \<open>The bytes the local side delivers before its end or first error, and those the tunnel delivers.\<close>

fun reads_bytes :: "local_read list \<Rightarrow> bytes" where
  "reads_bytes [] = []"
| "reads_bytes (LRead bs # rs) = (if bs = [] then [] else bs @ reads_bytes rs)"
| "reads_bytes (LErr _ _ # rs) = []"

fun ev_bytes :: "stream_event list \<Rightarrow> bytes" where
  "ev_bytes [] = []"
| "ev_bytes (EvData d # es) = d @ ev_bytes es"
| "ev_bytes (_ # es) = []"

type_synonym mux_frame = "frame_kind \<times> stream_id \<times> bytes"

fun data_bytes :: "mux_frame list \<Rightarrow> bytes" where
  "data_bytes [] = []"
| "data_bytes ((k, sid, p) # fs) = (if k = KData then p else []) @ data_bytes fs"

lemma data_bytes_append [simp]: "data_bytes (fs @ gs) = data_bytes fs @ data_bytes gs"
  by (induction fs rule: data_bytes.induct) auto

text \<open>The direction towards the tunnel: \<open>fs\<close> are the frames sent so far.\<close>

definition up_inv :: "stream_id \<Rightarrow> local_read list \<Rightarrow> mux_frame list \<Rightarrow> pump_state \<Rightarrow> bool" where
  "up_inv sid reads fs s \<longleftrightarrow>
     ps_up_bytes s = of_nat (length (data_bytes fs)) \<and>
     (\<forall>k i p. (k, i, p) \<in> set fs \<longrightarrow> i = sid) \<and>
     (case ps_up s of
        Running rem \<Rightarrow> data_bytes fs @ reads_bytes rem = reads_bytes reads
      | Ended DirEof \<Rightarrow> data_bytes fs = reads_bytes reads \<and> (KEof, sid, []) \<in> set fs
      | _ \<Rightarrow> prefix (data_bytes fs) (reads_bytes reads))"

text \<open>The direction towards the local socket: \<open>w\<close> are the bytes written so far.\<close>

definition down_inv :: "stream_event list \<Rightarrow> bytes \<Rightarrow> pump_state \<Rightarrow> bool" where
  "down_inv evs w s \<longleftrightarrow>
     (case ps_down s of
        Running rem \<Rightarrow> w @ ev_bytes rem = ev_bytes evs \<and> ps_down_bytes s = of_nat (length w)
      | Ended DirEof \<Rightarrow> w = ev_bytes evs \<and> ps_down_bytes s = of_nat (length w) \<and> ps_shut s
      | _ \<Rightarrow> prefix w (ev_bytes evs))"

definition main_inv :: "pump_state \<Rightarrow> bool" where
  "main_inv s \<longleftrightarrow>
     (case ps_main s of
        Selecting \<Rightarrow> True
      | AwaitDown u \<Rightarrow> join_dir (ps_up s) = Some u
      | AwaitUp d \<Rightarrow> join_dir (ps_down s) = Some d
      | PumpDone u d \<Rightarrow> join_dir (ps_up s) = Some u \<and> join_dir (ps_down s) = Some d)"

definition pump_inv ::
  "stream_id \<Rightarrow> local_read list \<Rightarrow> stream_event list \<Rightarrow> out_chan \<Rightarrow> transport \<Rightarrow> pump_state \<Rightarrow> bool" where
  "pump_inv sid reads evs ch wr s \<longleftrightarrow> main_inv s \<and>
     (\<exists>fs w. ch_sent (ps_ch s) = ch_sent ch @ map to_out_frame fs \<and> tr_out (ps_wr s) = tr_out wr @ w \<and>
        up_inv sid reads fs s \<and> down_inv evs w s)"

lemma chan_send_cases:
  "(\<exists>ch'. chan_send f ch = (True, ch') \<and> ch_sent ch' = ch_sent ch @ [f]) \<or> chan_send f ch = (False, ch)"
  by (simp add: chan_send_def split: option.split nat.split)

lemma chan_try_send_cases:
  "ch_sent (chan_try_send full f ch) = ch_sent ch @ [f] \<or> chan_try_send full f ch = ch"
  using chan_send_cases [of f ch] by (auto simp: chan_try_send_def)

lemma to_out_frame_simps:
  "out_frame_new k sid p = to_out_frame (k, sid, p)" "out_frame_bare k sid = to_out_frame (k, sid, [])"
  by (simp_all add: to_out_frame_def out_frame_bare_def)

lemma pump_inv_init: "pump_inv sid reads evs ch wr (pump_init reads evs ch wr)"
  by (auto simp: pump_inv_def pump_init_def main_inv_def up_inv_def down_inv_def
      intro!: exI [of _ "[]"])

lemma classify_not_eof: "classify_io_end k msg \<noteq> DirEof"
  by (simp add: classify_io_end_def split: option.split)

text \<open>A frame that carries no data leaves both directions as they are.\<close>

lemma up_inv_more:
  "up_inv sid reads fs s \<Longrightarrow> k \<noteq> KData \<Longrightarrow> up_inv sid reads (fs @ [(k, sid, [])]) s"
  by (auto simp: up_inv_def split: pump_task.splits dir_end.splits)

lemma pump_invI:
  assumes "main_inv s" and "ch_sent (ps_ch s) = ch_sent ch @ map to_out_frame fs"
    and "tr_out (ps_wr s) = tr_out wr @ w" and "up_inv sid reads fs s" and "down_inv evs w s"
  shows "pump_inv sid reads evs ch wr s"
  using assms unfolding pump_inv_def by blast

lemma main_inv_running_up:
  "main_inv s \<Longrightarrow> ps_up s = Running rem \<Longrightarrow> ps_down s' = ps_down s \<Longrightarrow> ps_main s' = ps_main s \<Longrightarrow> main_inv s'"
  by (auto simp: main_inv_def split: main_phase.splits)

lemma main_inv_running_down:
  "main_inv s \<Longrightarrow> ps_down s = Running rem \<Longrightarrow> ps_up s' = ps_up s \<Longrightarrow> ps_main s' = ps_main s \<Longrightarrow> main_inv s'"
  by (auto simp: main_inv_def split: main_phase.splits)

lemma down_inv_cong:
  "down_inv evs w s \<Longrightarrow> ps_down s' = ps_down s \<Longrightarrow> ps_down_bytes s' = ps_down_bytes s \<Longrightarrow>
    ps_shut s' = ps_shut s \<Longrightarrow> down_inv evs w s'"
  by (simp add: down_inv_def cong: pump_task.case_cong dir_end.case_cong)

lemma up_inv_cong:
  "up_inv sid reads fs s \<Longrightarrow> ps_up s' = ps_up s \<Longrightarrow> ps_up_bytes s' = ps_up_bytes s \<Longrightarrow> up_inv sid reads fs s'"
  by (simp add: up_inv_def)

lemma up_inv_end:
  assumes "up_inv sid reads fs s" and "ps_up s = Running rem" and "e \<noteq> DirEof"
    and "ps_up s' = Ended e" and "ps_up_bytes s' = ps_up_bytes s"
  shows "up_inv sid reads fs s'"
  using assms by (auto simp: up_inv_def split: dir_end.splits intro: prefixI sym)

lemma down_inv_end:
  assumes "down_inv evs w s" and "ps_down s = Running rem" and "e \<noteq> DirEof" and "ps_down s' = Ended e"
  shows "down_inv evs w s'"
  using assms by (auto simp: down_inv_def split: dir_end.splits intro: prefixI sym)

text \<open>A non-data frame may join the channel.\<close>

lemma frames_with_close:
  assumes "ch_sent c = ch_sent ch @ map to_out_frame fs" and "up_inv sid reads fs s"
  shows "\<exists>fs'. ch_sent (chan_try_send full (out_frame_bare KClose sid) c) = ch_sent ch @ map to_out_frame fs' \<and>
    up_inv sid reads fs' s"
proof (cases "chan_try_send full (out_frame_bare KClose sid) c = c")
  case True
  with assms show ?thesis by auto
next
  case False
  then have "ch_sent (chan_try_send full (out_frame_bare KClose sid) c) =
      ch_sent ch @ map to_out_frame (fs @ [(KClose, sid, [])])"
    using chan_try_send_cases [of full "out_frame_bare KClose sid" c] assms(1)
    by (simp add: to_out_frame_simps)
  with up_inv_more [OF assms(2), of KClose] show ?thesis by blast
qed

lemma pump_inv_up_eof:
  assumes inv: "pump_inv sid reads evs ch wr s" and up: "ps_up s = Running rem" and rem: "reads_bytes rem = []"
  shows "pump_inv sid reads evs ch wr (up_eof sid s)"
proof -
  obtain fs w where *: "main_inv s" "ch_sent (ps_ch s) = ch_sent ch @ map to_out_frame fs"
    "tr_out (ps_wr s) = tr_out wr @ w" "up_inv sid reads fs s" "down_inv evs w s"
    using inv by (auto simp: pump_inv_def)
  from chan_send_cases [of "out_frame_bare KEof sid" "ps_ch s"] show ?thesis
  proof (elim disjE exE conjE)
    fix ch' assume snd: "chan_send (out_frame_bare KEof sid) (ps_ch s) = (True, ch')"
      "ch_sent ch' = ch_sent (ps_ch s) @ [out_frame_bare KEof sid]"
    let ?s = "s\<lparr>ps_up := Ended DirEof, ps_ch := ch'\<rparr>"
    have "up_inv sid reads (fs @ [(KEof, sid, [])]) ?s"
      using *(4) up rem by (auto simp: up_inv_def)
    then have "pump_inv sid reads evs ch wr ?s"
      using * snd(2) up
      by (intro pump_invI [where fs = "fs @ [(KEof, sid, [])]" and w = w])
        (auto simp: to_out_frame_simps intro: main_inv_running_up down_inv_cong)
    with snd show ?thesis by (simp add: up_eof_def)
  next
    assume no: "chan_send (out_frame_bare KEof sid) (ps_ch s) = (False, ps_ch s)"
    let ?s = "s\<lparr>ps_up := Ended (DirClosed ''tunnel closed''), ps_ch := ps_ch s\<rparr>"
    have "pump_inv sid reads evs ch wr ?s"
      using * up by (intro pump_invI [where fs = fs and w = w])
        (auto intro: main_inv_running_up down_inv_cong up_inv_end)
    with no show ?thesis by (simp add: up_eof_def)
  qed
qed

lemma pump_inv_up_data:
  assumes inv: "pump_inv sid reads evs ch wr s" and up: "ps_up s = Running (LRead bs # rest)" and bs: "bs \<noteq> []"
  shows "pump_inv sid reads evs ch wr (pump_up full sid s)"
proof -
  obtain fs w where *: "main_inv s" "ch_sent (ps_ch s) = ch_sent ch @ map to_out_frame fs"
    "tr_out (ps_wr s) = tr_out wr @ w" "up_inv sid reads fs s" "down_inv evs w s"
    using inv by (auto simp: pump_inv_def)
  from chan_send_cases [of "out_frame_new KData sid bs" "ps_ch s"] show ?thesis
  proof (elim disjE exE conjE)
    fix ch' assume snd: "chan_send (out_frame_new KData sid bs) (ps_ch s) = (True, ch')"
      "ch_sent ch' = ch_sent (ps_ch s) @ [out_frame_new KData sid bs]"
    let ?s = "s\<lparr>ps_up := Running rest, ps_ch := ch', ps_up_bytes := ps_up_bytes s + of_nat (length bs)\<rparr>"
    have "up_inv sid reads (fs @ [(KData, sid, bs)]) ?s"
      using *(4) up bs by (auto simp: up_inv_def)
    then have "pump_inv sid reads evs ch wr ?s"
      using * snd(2) up
      by (intro pump_invI [where fs = "fs @ [(KData, sid, bs)]" and w = w])
        (auto simp: to_out_frame_simps intro: main_inv_running_up down_inv_cong)
    with snd up bs show ?thesis by (simp add: pump_up_def)
  next
    assume no: "chan_send (out_frame_new KData sid bs) (ps_ch s) = (False, ps_ch s)"
    let ?s = "s\<lparr>ps_up := Ended (DirClosed ''tunnel closed''), ps_ch := ps_ch s\<rparr>"
    have "pump_inv sid reads evs ch wr ?s"
      using * up by (intro pump_invI [where fs = fs and w = w])
        (auto intro: main_inv_running_up down_inv_cong up_inv_end)
    with no up bs show ?thesis by (simp add: pump_up_def)
  qed
qed

lemma pump_inv_up_err:
  assumes inv: "pump_inv sid reads evs ch wr s" and up: "ps_up s = Running (LErr k msg # rest)"
  shows "pump_inv sid reads evs ch wr (pump_up full sid s)"
proof -
  obtain fs w where *: "main_inv s" "ch_sent (ps_ch s) = ch_sent ch @ map to_out_frame fs"
    "tr_out (ps_wr s) = tr_out wr @ w" "up_inv sid reads fs s" "down_inv evs w s"
    using inv by (auto simp: pump_inv_def)
  let ?ch = "chan_try_send full (out_frame_bare KClose sid) (ps_ch s)"
  let ?s = "s\<lparr>ps_up := Ended (classify_io_end k msg), ps_ch := ?ch\<rparr>"
  obtain fs' where fs': "ch_sent ?ch = ch_sent ch @ map to_out_frame fs'" "up_inv sid reads fs' s"
    using frames_with_close [OF *(2,4)] by blast
  have "pump_inv sid reads evs ch wr ?s"
    using * fs' up classify_not_eof [of k msg] by (intro pump_invI [where fs = fs' and w = w])
      (auto intro: main_inv_running_up down_inv_cong up_inv_end)
  with up show ?thesis by (simp add: pump_up_def)
qed

lemma pump_inv_up:
  assumes "pump_inv sid reads evs ch wr s"
  shows "pump_inv sid reads evs ch wr (pump_up full sid s)"
proof (cases "ps_up s")
  case (Running rem)
  then consider "reads_bytes rem = []" "pump_up full sid s = up_eof sid s"
    | bs rest where "rem = LRead bs # rest" "bs \<noteq> []" | k msg rest where "rem = LErr k msg # rest"
    by (cases rem; cases "hd rem"; cases "hd rem = LRead []") (auto simp: pump_up_def)
  then show ?thesis
    using assms Running by cases (auto intro: pump_inv_up_eof pump_inv_up_data pump_inv_up_err)
qed (use assms in \<open>auto simp: pump_up_def\<close>)

lemma write_all_cases:
  "(\<exists>t'. write_all d t = (Inr (), t') \<and> tr_out t' = tr_out t @ d) \<or>
   (\<exists>k t' d'. write_all d t = (Inl (Io k), t') \<and> tr_out t' = tr_out t @ d' \<and> prefix d' d)"
  by (auto simp: write_all_def take_is_prefix split: option.split prod.split)

lemma pump_inv_down_data:
  assumes inv: "pump_inv sid reads evs ch wr s" and down: "ps_down s = Running (EvData d # rest)"
  shows "pump_inv sid reads evs ch wr (pump_down full msg sid s)"
proof -
  obtain fs w where *: "main_inv s" "ch_sent (ps_ch s) = ch_sent ch @ map to_out_frame fs"
    "tr_out (ps_wr s) = tr_out wr @ w" "up_inv sid reads fs s" "down_inv evs w s"
    using inv by (auto simp: pump_inv_def)
  from write_all_cases [of d "ps_wr s"] show ?thesis
  proof (elim disjE exE conjE)
    fix t' assume wrote: "write_all d (ps_wr s) = (Inr (), t')" "tr_out t' = tr_out (ps_wr s) @ d"
    let ?s = "s\<lparr>ps_down := Running rest, ps_wr := t', ps_down_bytes := ps_down_bytes s + of_nat (length d)\<rparr>"
    have "down_inv evs (w @ d) ?s" using *(5) down by (auto simp: down_inv_def)
    then have "pump_inv sid reads evs ch wr ?s"
      using * wrote(2) down by (intro pump_invI [where fs = fs and w = "w @ d"])
        (auto intro: main_inv_running_down up_inv_cong)
    with wrote down show ?thesis by (simp add: pump_down_def)
  next
    fix k t' d' assume failed: "write_all d (ps_wr s) = (Inl (Io k), t')"
      "tr_out t' = tr_out (ps_wr s) @ d'" "prefix d' d"
    let ?ch = "chan_try_send full (out_frame_bare KClose sid) (ps_ch s)"
    let ?s = "s\<lparr>ps_down := Ended (classify_io_end k msg), ps_wr := t', ps_ch := ?ch\<rparr>"
    obtain fs' where fs': "ch_sent ?ch = ch_sent ch @ map to_out_frame fs'" "up_inv sid reads fs' s"
      using frames_with_close [OF *(2,4)] by blast
    have "w @ d @ ev_bytes rest = ev_bytes evs" using *(5) down by (simp add: down_inv_def)
    then have "prefix (w @ d') (ev_bytes evs)"
      using failed(3) by (metis prefix_prefix same_prefix_prefix)
    then have "down_inv evs (w @ d') ?s"
      using classify_not_eof [of k msg] by (auto simp: down_inv_def split: dir_end.splits)
    then have "pump_inv sid reads evs ch wr ?s"
      using * failed fs' down by (intro pump_invI [where fs = fs' and w = "w @ d'"])
        (auto intro: main_inv_running_down up_inv_cong)
    with failed down show ?thesis by (simp add: pump_down_def)
  qed
qed

lemma pump_inv_down_end:
  assumes inv: "pump_inv sid reads evs ch wr s" and down: "ps_down s = Running rem"
    and s': "s' = s\<lparr>ps_down := Ended e, ps_shut := b\<rparr>" and e: "e = DirEof \<Longrightarrow> b \<and> ev_bytes rem = []"
  shows "pump_inv sid reads evs ch wr s'"
proof -
  obtain fs w where *: "main_inv s" "ch_sent (ps_ch s) = ch_sent ch @ map to_out_frame fs"
    "tr_out (ps_wr s) = tr_out wr @ w" "up_inv sid reads fs s" "down_inv evs w s"
    using inv by (auto simp: pump_inv_def)
  have "down_inv evs w s'"
    using *(5) down e by (cases e) (auto simp: s' down_inv_def intro: prefixI sym)
  then show ?thesis
    using * down by (intro pump_invI [where fs = fs and w = w])
      (auto simp: s' intro: main_inv_running_down up_inv_cong)
qed

lemma pump_inv_down:
  assumes "pump_inv sid reads evs ch wr s"
  shows "pump_inv sid reads evs ch wr (pump_down full msg sid s)"
proof (cases "ps_down s")
  case (Running rem)
  show ?thesis
  proof (cases rem)
    case Nil
    then show ?thesis
      using assms Running by (intro pump_inv_down_end [OF assms Running, where b = "ps_shut s"])
        (auto simp: pump_down_def)
  next
    case (Cons ev rest)
    show ?thesis
    proof (cases ev)
      case (EvData d)
      with Cons Running show ?thesis by (simp add: pump_inv_down_data [OF assms])
    next
      case EvEof
      with Cons Running show ?thesis
        by (intro pump_inv_down_end [OF assms Running, where e = DirEof and b = True]) (auto simp: pump_down_def)
    next
      case EvClose
      with Cons Running show ?thesis
        by (intro pump_inv_down_end [OF assms Running, where e = "DirClosed ''peer reset''" and b = "ps_shut s"])
          (auto simp: pump_down_def)
    qed
  qed
qed (use assms in \<open>auto simp: pump_down_def\<close>)

lemma up_inv_abort: "up_inv sid reads fs s \<Longrightarrow> up_inv sid reads fs (s\<lparr>ps_main := m, ps_up := abort_task (ps_up s)\<rparr>)"
  by (cases "ps_up s") (auto simp: up_inv_def intro: prefixI sym)

lemma write_all_prefix: "\<exists>d'. tr_out (snd (write_all d t)) = tr_out t @ d' \<and> prefix d' d"
  using write_all_cases [of d t] by fastforce

lemma abort_down_frame [simp]:
  "ps_up (abort_down part s) = ps_up s" "ps_ch (abort_down part s) = ps_ch s"
  "ps_up_bytes (abort_down part s) = ps_up_bytes s" "ps_main (abort_down part s) = ps_main s"
  by (simp_all add: abort_down_def split: pump_task.split list.split stream_event.split)

lemma abort_down_task: "ps_down (abort_down part s) = abort_task (ps_down s)"
  by (auto simp: abort_down_def split: pump_task.split list.split stream_event.split)

text \<open>An abort in the middle of a write leaves a longer prefix of the tunnel's bytes on the local socket.\<close>

lemma down_inv_abort:
  assumes "down_inv evs w s"
  shows "\<exists>w'. tr_out (ps_wr (abort_down part s)) = tr_out (ps_wr s) @ w' \<and> down_inv evs (w @ w') (abort_down part s)"
proof (cases "\<exists>d rest. ps_down s = Running (EvData d # rest)")
  case True
  then obtain d rest where down: "ps_down s = Running (EvData d # rest)" by blast
  obtain d' where d': "tr_out (snd (write_all (take part d) (ps_wr s))) = tr_out (ps_wr s) @ d'" "prefix d' (take part d)"
    using write_all_prefix by blast
  have "prefix d' d" using d'(2) take_is_prefix prefix_order.trans by blast
  moreover have "w @ d @ ev_bytes rest = ev_bytes evs" using assms down by (simp add: down_inv_def)
  ultimately have "prefix (w @ d') (ev_bytes evs)" by (metis prefix_prefix same_prefix_prefix)
  then show ?thesis using d'(1) down by (auto simp: abort_down_def down_inv_def)
next
  case False
  then have "abort_down part s = s\<lparr>ps_down := abort_task (ps_down s)\<rparr>"
    by (auto simp: abort_down_def split: pump_task.split list.split stream_event.split)
  then show ?thesis using assms
    by (cases "ps_down s") (auto simp: down_inv_def intro: prefixI sym split: dir_end.splits)
qed

lemma pump_inv_main_only:
  assumes inv: "pump_inv sid reads evs ch wr s" and "main_inv (s\<lparr>ps_main := m\<rparr>)"
  shows "pump_inv sid reads evs ch wr (s\<lparr>ps_main := m\<rparr>)"
  using assms by (fastforce simp: pump_inv_def intro: up_inv_cong down_inv_cong)

lemma pump_inv_abort_up:
  assumes inv: "pump_inv sid reads evs ch wr s" and m: "main_inv (s\<lparr>ps_main := m, ps_up := abort_task (ps_up s)\<rparr>)"
  shows "pump_inv sid reads evs ch wr (s\<lparr>ps_main := m, ps_up := abort_task (ps_up s)\<rparr>)"
proof -
  obtain fs w where *: "ch_sent (ps_ch s) = ch_sent ch @ map to_out_frame fs"
    "tr_out (ps_wr s) = tr_out wr @ w" "up_inv sid reads fs s" "down_inv evs w s"
    using inv by (auto simp: pump_inv_def)
  then show ?thesis using m up_inv_abort [OF *(3), of m]
    by (intro pump_invI [where fs = fs and w = w]) (auto intro: down_inv_cong)
qed

lemma pump_inv_abort_down:
  assumes inv: "pump_inv sid reads evs ch wr s" and m: "main_inv (abort_down part s)"
  shows "pump_inv sid reads evs ch wr (abort_down part s)"
proof -
  obtain fs w where *: "main_inv s" "ch_sent (ps_ch s) = ch_sent ch @ map to_out_frame fs"
    "tr_out (ps_wr s) = tr_out wr @ w" "up_inv sid reads fs s" "down_inv evs w s"
    using inv by (auto simp: pump_inv_def)
  obtain w' where "tr_out (ps_wr (abort_down part s)) = tr_out (ps_wr s) @ w'" "down_inv evs (w @ w') (abort_down part s)"
    using down_inv_abort [OF *(5)] by blast
  then show ?thesis
    using * m by (intro pump_invI [where fs = fs and w = "w @ w'"]) (auto intro: up_inv_cong)
qed

lemma pump_inv_main:
  assumes inv: "pump_inv sid reads evs ch wr s"
  shows "pump_inv sid reads evs ch wr (pump_main up_first part s)"
proof -
  have main: "main_inv s" using inv by (auto simp: pump_inv_def)
  show ?thesis
    using inv main
    by (auto simp: pump_main_def main_inv_def abort_down_task
        intro!: pump_inv_main_only pump_inv_abort_up pump_inv_abort_down
        split: main_phase.splits option.splits)
qed

lemma pump_inv_run:
  "pump_inv sid reads evs ch wr s \<Longrightarrow> pump_inv sid reads evs ch wr (pump_stream sid turns s)"
proof (induction turns arbitrary: s)
  case (Cons t turns)
  have "pump_inv sid reads evs ch wr (pump_turn_step sid t s)"
    using Cons.prems by (cases t) (auto intro: pump_inv_up pump_inv_down pump_inv_main)
  then show ?case using Cons.IH by (simp add: pump_stream_def)
qed (simp add: pump_stream_def)

lemma combine_graceful: "combine_ends u d = Graceful \<longleftrightarrow> u = DirEof \<and> d = DirEof"
  by (cases u; cases d) (simp_all add: combine_ends_def)

lemma join_eof: "join_dir t = Some DirEof \<longleftrightarrow> t = Ended DirEof"
  by (cases t) auto

text \<open>What either direction has moved, whatever happens to the other.\<close>

lemma to_out_frame_inj: "inj to_out_frame"
  by (rule injI) (metis parse_to_out_frame sum.inject(2))

lemma pump_up_prefix:
  assumes "ch_sent (ps_ch (pump_stream sid turns (pump_init reads evs ch wr))) = ch_sent ch @ map to_out_frame fs"
  shows "prefix (data_bytes fs) (reads_bytes reads)"
proof -
  let ?s = "pump_stream sid turns (pump_init reads evs ch wr)"
  obtain fs' where "ch_sent (ps_ch ?s) = ch_sent ch @ map to_out_frame fs'" "up_inv sid reads fs' ?s"
    using pump_inv_run [OF pump_inv_init] unfolding pump_inv_def by blast
  moreover from this assms have "fs' = fs" using map_injective [OF _ to_out_frame_inj] by simp
  ultimately show ?thesis
    by (auto simp: up_inv_def split: pump_task.splits dir_end.splits intro: prefixI sym)
qed

lemma pump_down_prefix:
  "\<exists>w. tr_out (ps_wr (pump_stream sid turns (pump_init reads evs ch wr))) = tr_out wr @ w \<and>
    prefix w (ev_bytes evs)"
proof -
  let ?s = "pump_stream sid turns (pump_init reads evs ch wr)"
  obtain w where "tr_out (ps_wr ?s) = tr_out wr @ w" "down_inv evs w ?s"
    using pump_inv_run [OF pump_inv_init] unfolding pump_inv_def by blast
  then show ?thesis
    by (auto simp: down_inv_def split: pump_task.splits dir_end.splits intro: prefixI sym)
qed

text \<open>
  C10.  A stream pump neither loses, invents nor reorders bytes, under every schedule of its two
  directions and every abort: the data frames sent to the tunnel carry, in order, a prefix of what the
  local socket delivered, and the local socket received a prefix of what the tunnel delivered; the
  upward byte counter is exact; and when the pump reports a graceful end, both are complete, the EOF
  frame is sent, the local side is shut down for writing and both counters are exact.
\<close>

theorem pump_stream_integrity:
  assumes "s = pump_stream sid turns (pump_init reads evs ch wr)"
  shows "\<exists>fs w. ch_sent (ps_ch s) = ch_sent ch @ map to_out_frame fs \<and>
    (\<forall>k i p. (k, i, p) \<in> set fs \<longrightarrow> i = sid) \<and> tr_out (ps_wr s) = tr_out wr @ w \<and>
    prefix (data_bytes fs) (reads_bytes reads) \<and> prefix w (ev_bytes evs) \<and>
    ps_up_bytes s = of_nat (length (data_bytes fs)) \<and>
    (\<forall>o'. pump_result s = Some o' \<and> po_end o' = Graceful \<longrightarrow>
       data_bytes fs = reads_bytes reads \<and> (KEof, sid, []) \<in> set fs \<and> w = ev_bytes evs \<and> ps_shut s \<and>
       po_up o' = of_nat (length (reads_bytes reads)) \<and> po_down o' = of_nat (length (ev_bytes evs)))"
proof -
  obtain fs w where *: "main_inv s" "ch_sent (ps_ch s) = ch_sent ch @ map to_out_frame fs"
    "tr_out (ps_wr s) = tr_out wr @ w" "up_inv sid reads fs s" "down_inv evs w s"
    using pump_inv_run [OF pump_inv_init] assms unfolding pump_inv_def by blast
  have "prefix (data_bytes fs) (reads_bytes reads)" "prefix w (ev_bytes evs)"
    using *(4,5) unfolding up_inv_def down_inv_def
    by (auto split: pump_task.splits dir_end.splits intro: prefixI sym)
  moreover have "ps_up s = Ended DirEof \<and> ps_down s = Ended DirEof"
    if "pump_result s = Some o'" "po_end o' = Graceful" for o'
    using that *(1)
    by (auto simp: pump_result_def main_inv_def combine_graceful join_eof split: main_phase.splits)
  ultimately show ?thesis
    using * by (intro exI [of _ fs] exI [of _ w])
      (fastforce simp: up_inv_def down_inv_def pump_result_def split: main_phase.splits)
qed

theorem pump_stream_integrity_witness:
  "\<exists>fs w. ch_sent (ps_ch (pump_stream 7
        [TurnUp False, TurnUp False, TurnDown False [], TurnDown False [], TurnMain True 0, TurnMain True 0]
      (pump_init [LRead [1, 2]] [EvData [3], EvEof] \<lparr>ch_sent = [], ch_left = None\<rparr>
        \<lparr>tr_in = [], tr_in_fail = None, tr_out = [], tr_out_room = None\<rparr>))) = map to_out_frame fs \<and>
    data_bytes fs = [1, 2] \<and> (KEof, 7, []) \<in> set fs \<and> w = [3]"
proof -
  let ?s = "pump_stream 7
        [TurnUp False, TurnUp False, TurnDown False [], TurnDown False [], TurnMain True 0, TurnMain True 0]
      (pump_init [LRead [1, 2]] [EvData [3], EvEof] \<lparr>ch_sent = [], ch_left = None\<rparr>
        \<lparr>tr_in = [], tr_in_fail = None, tr_out = [], tr_out_room = None\<rparr>)"
  have "pump_result ?s = Some \<lparr>po_up = 2, po_down = 1, po_end = Graceful\<rparr>"
    by (simp add: pump_stream_def pump_init_def pump_up_def pump_down_def pump_main_def up_eof_def
        pump_result_def combine_ends_def chan_send_def write_all_def)
  then show ?thesis
    using pump_stream_integrity [OF refl, of 7 "[TurnUp False, TurnUp False, TurnDown False [],
          TurnDown False [], TurnMain True 0, TurnMain True 0]" "[LRead [1, 2]]" "[EvData [3], EvEof]"
        "\<lparr>ch_sent = [], ch_left = None\<rparr>" "\<lparr>tr_in = [], tr_in_fail = None, tr_out = [], tr_out_room = None\<rparr>"]
    by auto
qed

text \<open>
  When the tunnel side ends a stream first, the pump does not report why: a tunnel that closes, or
  a peer reset, while the local side is still open is reported as \<open>aborted\<close>, the end of the other
  direction that the closing itself caused.
\<close>

theorem tunnel_close_reported_as_aborted:
  "pump_result (pump_stream sid [TurnDown full msg, TurnMain False part, TurnMain up_first part']
      (pump_init reads [] ch wr)) = Some \<lparr>po_up = 0, po_down = 0, po_end = Closed ''aborted''\<rparr> \<and>
   pump_result (pump_stream sid [TurnDown full msg, TurnMain False part, TurnMain up_first part']
      (pump_init reads (EvClose # evs) ch wr)) =
     Some \<lparr>po_up = 0, po_down = 0, po_end = Closed ''aborted''\<rparr>"
  by (simp add: pump_stream_def pump_init_def pump_down_def pump_main_def pump_result_def
      combine_ends_def)

end
