(* ===== verification/Server.thy ===== *)
theory Server
  imports App_Config Stream_Pump
begin

text \<open>
  The server (\<open>server/src/lib.rs\<close>): admission of connections and their counters, the demultiplexer of
  one tunnel with its stream registry, and the tasks of the streams.  Every turn of a task between two
  awaits is one operation, so an execution of a tunnel is a list of operations.  A sender in the
  registry is the number of the channel it feeds, which is the number of the stream task at its other
  end; the events accepted by a channel are logged.
\<close>

section \<open>Admission\<close>

record server_stats =
  st_active :: u64
  st_sessions :: u64
  st_handshake_failures :: u64
  st_handshaking :: u64
  st_rejected_overload :: u64
  st_bytes_to_targets :: u64
  st_bytes_to_clients :: u64

definition stats_default :: server_stats where
  "stats_default =
     \<lparr>st_active = 0, st_sessions = 0, st_handshake_failures = 0, st_handshaking = 0,
      st_rejected_overload = 0, st_bytes_to_targets = 0, st_bytes_to_clients = 0\<rparr>"

definition should_log_failure :: "u64 \<Rightarrow> bool" where
  "should_log_failure n \<longleftrightarrow> n = 1 \<or> n mod 64 = 0"

text \<open>
  One accepted connection in \<open>accept_loop\<close>: dropped, or served under the returned session id.  \<open>base\<close>
  is the random start of the ids, \<open>counter\<close> the number of connections served so far.
\<close>

definition session_id_for :: "u64 \<Rightarrow> u64 \<Rightarrow> u128" where
  "session_id_for base counter =
     (let sid = ucast base + ucast counter in if sid = 0 then 1 else sid)"

definition accept_conn ::
  "server_runtime \<Rightarrow> u64 \<Rightarrow> u64 \<Rightarrow> server_stats \<Rightarrow> u128 option \<times> u64 \<times> server_stats" where
  "accept_conn rt base counter st =
     (if (case sr_max_connections rt of Some mx \<Rightarrow> mx \<le> st_active st | None \<Rightarrow> False)
      then (None, counter, st\<lparr>st_rejected_overload := st_rejected_overload st + 1\<rparr>)
      else if (case sr_max_handshakes rt of Some mx \<Rightarrow> mx \<le> st_handshaking st | None \<Rightarrow> False)
      then (None, counter, st\<lparr>st_rejected_overload := st_rejected_overload st + 1\<rparr>)
      else (Some (session_id_for base counter), counter + 1, st))"

text \<open>
  The counters over the life of a served connection (\<open>handle_conn_inner\<close>, \<open>handshake_sync\<close>,
  \<open>register_link\<close>), one counter per step.  The handshake gauge covers the handshake, whose result is
  looked at after the gauge has been lowered; the slot in \<open>active\<close> is taken after a successful one
  and given back by a guard that exists only once the socket is converted for the asynchronous data
  plane (for a bond link: once the link is split).
\<close>

datatype conn_stage =
  StAccepted
| StHandshake
| StHandshaken
| StAuthenticated
| StSetupFailed
| StServing
| StClosed

inductive conn_step :: "conn_stage \<times> server_stats \<Rightarrow> conn_stage \<times> server_stats \<Rightarrow> bool" where
  early_error: "conn_step (StAccepted, st) (StClosed, st)"
| no_timeouts: "conn_step (StAccepted, st)
     (StClosed, st\<lparr>st_handshake_failures := st_handshake_failures st + 1\<rparr>)"
| hs_begin: "conn_step (StAccepted, st) (StHandshake, st\<lparr>st_handshaking := st_handshaking st + 1\<rparr>)"
| hs_panicked: "conn_step (StHandshake, st) (StClosed, st\<lparr>st_handshaking := st_handshaking st - 1\<rparr>)"
| hs_over: "conn_step (StHandshake, st) (StHandshaken, st\<lparr>st_handshaking := st_handshaking st - 1\<rparr>)"
| hs_failed: "conn_step (StHandshaken, st)
     (StClosed, st\<lparr>st_handshake_failures := st_handshake_failures st + 1\<rparr>)"
| hs_done: "conn_step (StHandshaken, st) (StAuthenticated, st\<lparr>st_active := st_active st + 1\<rparr>)"
| setup_failed: "conn_step (StAuthenticated, st) (StSetupFailed, st)"
| setup_done: "conn_step (StAuthenticated, st) (StServing, st)"
| conn_end: "conn_step (StServing, st) (StClosed, st\<lparr>st_active := st_active st - 1\<rparr>)"

inductive_cases conn_stepE [elim!]: "conn_step (g, st) (g', st')"

text \<open>The whole server: the stages of the connections served so far, in the order of acceptance.\<close>

inductive server_step :: "conn_stage list \<times> server_stats \<Rightarrow> conn_stage list \<times> server_stats \<Rightarrow> bool" where
  accept: "server_step (gs, st) (gs @ [StAccepted], st)"
| reject: "server_step (gs, st) (gs, st\<lparr>st_rejected_overload := st_rejected_overload st + 1\<rparr>)"
| advance: "i < length gs \<Longrightarrow> conn_step (gs ! i, st) (g', st') \<Longrightarrow>
    server_step (gs, st) (gs[i := g'], st')"

section \<open>The demultiplexer of one tunnel\<close>

definition REPLY_OK :: u8 where "REPLY_OK = 0x00"
definition REPLY_REFUSED :: u8 where "REPLY_REFUSED = 0x01"

datatype task_phase = TaskConnecting | TaskPumping | TaskLeaving | TaskDone

record stream_task =
  tk_stream :: stream_id
  tk_addr :: proxy_addr
  tk_phase :: task_phase

record server_conn =
  sv_registry :: "(stream_id, nat) hash_map"
  sv_tasks :: "stream_task list"
  sv_delivered :: "(nat \<times> stream_event) list"
  sv_out :: out_chan
  sv_stats :: server_stats
  sv_open :: bool

definition conn_new :: "out_chan \<Rightarrow> server_stats \<Rightarrow> server_conn" where
  "conn_new out st =
     \<lparr>sv_registry = [], sv_tasks = [], sv_delivered = [], sv_out = out, sv_stats = st, sv_open = True\<rparr>"

definition reg_remove :: "stream_id \<Rightarrow> server_conn \<Rightarrow> server_conn" where
  "reg_remove stream c = c\<lparr>sv_registry := hm_remove stream (sv_registry c)\<rparr>"

definition bounce :: "bool \<Rightarrow> stream_id \<Rightarrow> server_conn \<Rightarrow> server_conn" where
  "bounce full stream c = c\<lparr>sv_out := chan_try_send full (out_frame_bare KClose stream) (sv_out c)\<rparr>"

text \<open>How a send into a stream's bounded channel ends: taken, receiver gone, or no room for 60 s.\<close>

datatype send_outcome = SendOk | SendClosed | SendTimeout

definition route :: "send_outcome \<Rightarrow> bool \<Rightarrow> stream_id \<Rightarrow> stream_event \<Rightarrow> server_conn \<Rightarrow> server_conn" where
  "route outcome full stream ev c =
     (case hm_get (sv_registry c) stream of
        Some n \<Rightarrow>
          (case outcome of
             SendOk \<Rightarrow> c\<lparr>sv_delivered := sv_delivered c @ [(n, ev)]\<rparr>
           | SendClosed \<Rightarrow> bounce full stream (reg_remove stream c)
           | SendTimeout \<Rightarrow> bounce full stream (reg_remove stream c))
      | None \<Rightarrow> bounce full stream c)"

definition handle_open ::
  "server_runtime \<Rightarrow> bool \<Rightarrow> stream_id \<Rightarrow> bytes \<Rightarrow> server_conn \<Rightarrow> server_conn" where
  "handle_open rt full stream payload c =
     (if hm_contains (sv_registry c) stream then bounce full stream c
      else if (case sr_max_streams_per_conn rt of
                 Some cap \<Rightarrow> unat cap \<le> hm_len (sv_registry c) | None \<Rightarrow> False)
      then bounce full stream c
      else case addr_decode payload of
             Inl e \<Rightarrow> bounce full stream c
           | Inr addr \<Rightarrow>
               c\<lparr>sv_registry := hm_insert stream (length (sv_tasks c)) (sv_registry c),
                 sv_tasks := sv_tasks c @ [\<lparr>tk_stream = stream, tk_addr = addr, tk_phase = TaskConnecting\<rparr>]\<rparr>)"

text \<open>What the \<open>select!\<close> of \<open>run_demux\<close> sees: a frame, the end of the carrier, an error, or the writer's end.\<close>

datatype demux_input =
  DemuxFrame bytes send_outcome bool
| DemuxEof
| DemuxErr core_error
| DemuxWriterEnded

definition demux_break :: "server_conn \<Rightarrow> server_conn" where
  "demux_break c = c\<lparr>sv_open := False\<rparr>"

definition run_demux_step :: "server_runtime \<Rightarrow> demux_input \<Rightarrow> server_conn \<Rightarrow> server_conn" where
  "run_demux_step rt inp c =
     (if \<not> sv_open c then c
      else case inp of
        DemuxFrame msg outcome full \<Rightarrow>
          (case parse_frame msg of
             Inr (KOpen, stream, payload) \<Rightarrow> handle_open rt full stream payload c
           | Inr (KData, stream, payload) \<Rightarrow> route outcome full stream (EvData payload) c
           | Inr (KEof, stream, _) \<Rightarrow> route outcome full stream EvEof c
           | Inr (KClose, stream, _) \<Rightarrow> reg_remove stream c
           | Inr (KReply, _, _) \<Rightarrow> demux_break c
           | Inl e \<Rightarrow> demux_break c)
      | DemuxEof \<Rightarrow> demux_break c
      | DemuxErr e \<Rightarrow> demux_break c
      | DemuxWriterEnded \<Rightarrow> demux_break c)"

section \<open>Stream tasks\<close>

definition task_of :: "server_conn \<Rightarrow> nat \<Rightarrow> stream_task option" where
  "task_of c n = (if n < length (sv_tasks c) then Some (sv_tasks c ! n) else None)"

definition set_phase :: "nat \<Rightarrow> task_phase \<Rightarrow> server_conn \<Rightarrow> server_conn" where
  "set_phase n ph c = c\<lparr>sv_tasks := (sv_tasks c)[n := (sv_tasks c ! n)\<lparr>tk_phase := ph\<rparr>]\<rparr>"

text \<open>
  \<open>handle_stream\<close> up to the pump: the target is connected or not, and the verdict is sent; after a
  refusal, or a verdict that cannot be sent, the task has only its registry entry left to remove.
\<close>

definition handle_stream_connect :: "nat \<Rightarrow> bool \<Rightarrow> server_conn \<Rightarrow> server_conn" where
  "handle_stream_connect n connected c =
     (case task_of c n of
        Some t \<Rightarrow>
          if tk_phase t \<noteq> TaskConnecting then c
          else if \<not> connected
          then set_phase n TaskLeaving
                 (c\<lparr>sv_out := snd (chan_send (out_frame_new KReply (tk_stream t) [REPLY_REFUSED]) (sv_out c))\<rparr>)
          else (case chan_send (out_frame_new KReply (tk_stream t) [REPLY_OK]) (sv_out c) of
                  (False, ch) \<Rightarrow> set_phase n TaskLeaving (c\<lparr>sv_out := ch\<rparr>)
                | (True, ch) \<Rightarrow>
                    set_phase n TaskPumping
                      (c\<lparr>sv_out := ch,
                        sv_stats := (sv_stats c)\<lparr>st_sessions := st_sessions (sv_stats c) + 1\<rparr>\<rparr>))
      | None \<Rightarrow> c)"

text \<open>The end of the pump: the byte counters.\<close>

definition handle_stream_finish :: "nat \<Rightarrow> pump_outcome \<Rightarrow> server_conn \<Rightarrow> server_conn" where
  "handle_stream_finish n outcome c =
     (case task_of c n of
        Some t \<Rightarrow>
          if tk_phase t \<noteq> TaskPumping then c
          else set_phase n TaskLeaving
                 (c\<lparr>sv_stats := (sv_stats c)
                     \<lparr>st_bytes_to_clients := st_bytes_to_clients (sv_stats c) + po_up outcome,
                      st_bytes_to_targets := st_bytes_to_targets (sv_stats c) + po_down outcome\<rparr>\<rparr>)
      | None \<Rightarrow> c)"

text \<open>
  The last step on each of the three paths: the registry entry is removed by stream id under a lock of
  its own, after which the task and its handle of the registry are gone.
\<close>

definition handle_stream_leave :: "nat \<Rightarrow> server_conn \<Rightarrow> server_conn" where
  "handle_stream_leave n c =
     (case task_of c n of
        Some t \<Rightarrow>
          if tk_phase t \<noteq> TaskLeaving then c
          else set_phase n TaskDone (reg_remove (tk_stream t) c)
      | None \<Rightarrow> c)"

datatype server_op =
  OpDemux demux_input
| OpConnect nat bool
| OpFinish nat pump_outcome
| OpLeave nat

fun server_op_step :: "server_runtime \<Rightarrow> server_op \<Rightarrow> server_conn \<Rightarrow> server_conn" where
  "server_op_step rt (OpDemux inp) c = run_demux_step rt inp c"
| "server_op_step rt (OpConnect n connected) c = handle_stream_connect n connected c"
| "server_op_step rt (OpFinish n outcome) c = handle_stream_finish n outcome c"
| "server_op_step rt (OpLeave n) c = handle_stream_leave n c"

definition server_run :: "server_runtime \<Rightarrow> server_op list \<Rightarrow> server_conn \<Rightarrow> server_conn" where
  "server_run rt ops c = fold (server_op_step rt) ops c"

text \<open>
  The registry is shared by reference count between the demultiplexer and every stream task, so the
  senders in it are dropped only when all of them are gone.
\<close>

definition registry_dropped :: "server_conn \<Rightarrow> bool" where
  "registry_dropped c \<longleftrightarrow> \<not> sv_open c \<and> list_all (\<lambda>t. tk_phase t = TaskDone) (sv_tasks c)"

text \<open>A stream's event channel is closed once its only sender is out of the registry or dropped with it.\<close>

definition events_closed :: "nat \<Rightarrow> server_conn \<Rightarrow> bool" where
  "events_closed n c \<longleftrightarrow> registry_dropped c \<or> (\<forall>s. hm_get (sv_registry c) s \<noteq> Some n)"

section \<open>Properties of the admission\<close>

text \<open>Who holds a slot.\<close>

fun holds_slot :: "conn_stage \<Rightarrow> bool" where
  "holds_slot StAuthenticated \<longleftrightarrow> True"
| "holds_slot StSetupFailed \<longleftrightarrow> True"
| "holds_slot StServing \<longleftrightarrow> True"
| "holds_slot _ \<longleftrightarrow> False"

definition slots :: "conn_stage list \<Rightarrow> nat" where
  "slots gs = length (filter holds_slot gs)"

definition in_handshake :: "conn_stage list \<Rightarrow> nat" where
  "in_handshake gs = length (filter (\<lambda>g. g = StHandshake) gs)"

definition counters_ok :: "conn_stage list \<times> server_stats \<Rightarrow> bool" where
  "counters_ok x \<longleftrightarrow> (case x of (gs, st) \<Rightarrow>
     st_active st = of_nat (slots gs) \<and> st_handshaking st = of_nat (in_handshake gs))"

lemma filter_update_length:
  assumes "i < length gs"
  shows "length (filter P (gs[i := g])) + (if P (gs ! i) then 1 else 0) =
    length (filter P gs) + (if P g then 1 else 0)"
  using assms
proof (induction gs arbitrary: i)
  case (Cons x gs)
  show ?case
  proof (cases i)
    case (Suc j)
    with Cons.IH [of j] Cons.prems show ?thesis by (auto split: if_splits)
  qed simp
qed simp

lemma slots_update:
  "i < length gs \<Longrightarrow> slots (gs[i := g]) + (if holds_slot (gs ! i) then 1 else 0) =
    slots gs + (if holds_slot g then 1 else 0)"
  unfolding slots_def by (rule filter_update_length)

lemma in_handshake_update:
  "i < length gs \<Longrightarrow> in_handshake (gs[i := g]) + (if gs ! i = StHandshake then 1 else 0) =
    in_handshake gs + (if g = StHandshake then 1 else 0)"
  unfolding in_handshake_def by (rule filter_update_length)

lemma counters_ok_advance:
  assumes ok: "counters_ok (gs, st)" and i: "i < length gs" and step: "conn_step (gs ! i, st) (g', st')"
  shows "counters_ok (gs[i := g'], st')"
proof -
  have a: "(of_nat (slots (gs[i := g'])) :: u64) + (if holds_slot (gs ! i) then 1 else 0) =
      of_nat (slots gs) + (if holds_slot g' then 1 else 0)"
    using arg_cong [OF slots_update [OF i, of g'], of "of_nat :: nat \<Rightarrow> u64"] by (simp split: if_splits)
  have h: "(of_nat (in_handshake (gs[i := g'])) :: u64) + (if gs ! i = StHandshake then 1 else 0) =
      of_nat (in_handshake gs) + (if g' = StHandshake then 1 else 0)"
    using arg_cong [OF in_handshake_update [OF i, of g'], of "of_nat :: nat \<Rightarrow> u64"] by (simp split: if_splits)
  from step ok a h show ?thesis
    by (cases "gs ! i") (auto simp: counters_ok_def eq_diff_eq algebra_simps)
qed

lemma counters_ok_step: "server_step x y \<Longrightarrow> counters_ok x \<Longrightarrow> counters_ok y"
proof (induction rule: server_step.induct)
  case (advance i gs st g' st')
  then show ?case by (simp add: counters_ok_advance)
qed (auto simp: counters_ok_def slots_def in_handshake_def)

lemma counters_ok_reachable: "server_step\<^sup>*\<^sup>* ([], stats_default) x \<Longrightarrow> counters_ok x"
proof (induction rule: rtranclp_induct)
  case base
  show ?case by (simp add: counters_ok_def slots_def in_handshake_def stats_default_def)
qed (rule counters_ok_step)

text \<open>
  The admission counters are exact: in every reachable state of the server, whatever the
  interleaving of its connections, \<open>active\<close> is the number of connections that passed the handshake
  and have not been released, and \<open>handshaking\<close> the number of connections inside the handshake.
\<close>

theorem admission_counters_exact:
  assumes "server_step\<^sup>*\<^sup>* ([], stats_default) (gs, st)"
  shows "st_active st = of_nat (slots gs) \<and> st_handshaking st = of_nat (in_handshake gs)"
  using counters_ok_reachable [OF assms] by (simp add: counters_ok_def)

lemma server_step_single: "conn_step (g, st) (g', st') \<Longrightarrow> server_step ([g], st) ([g'], st')"
  using server_step.advance [of 0 "[g]" st g' st'] by simp

lemma conn_established:
  "server_step\<^sup>*\<^sup>* ([], stats_default) ([StAuthenticated], stats_default\<lparr>st_active := 1\<rparr>)"
proof -
  have "server_step ([], stats_default) ([StAccepted], stats_default)"
    using server_step.accept [of "[]" stats_default] by simp
  moreover have "server_step ([StAccepted], stats_default)
      ([StHandshake], stats_default\<lparr>st_handshaking := 1\<rparr>)"
    using server_step_single [OF conn_step.hs_begin, of stats_default]
    by (simp add: stats_default_def)
  moreover have "server_step ([StHandshake], stats_default\<lparr>st_handshaking := 1\<rparr>) ([StHandshaken], stats_default)"
    using server_step_single [OF conn_step.hs_over, of "stats_default\<lparr>st_handshaking := 1\<rparr>"]
    by (simp add: stats_default_def)
  moreover have "server_step ([StHandshaken], stats_default) ([StAuthenticated], stats_default\<lparr>st_active := 1\<rparr>)"
    using server_step_single [OF conn_step.hs_done, of stats_default] by (simp add: stats_default_def)
  ultimately show ?thesis by (meson rtranclp.rtrancl_refl rtranclp.rtrancl_into_rtrancl)
qed

lemma conn_setup_failed:
  "server_step\<^sup>*\<^sup>* ([], stats_default) ([StSetupFailed], stats_default\<lparr>st_active := 1\<rparr>)"
  using conn_established server_step_single [OF conn_step.setup_failed]
  by (rule rtranclp.rtrancl_into_rtrancl)

theorem admission_counters_exact_witness:
  "st_active (stats_default\<lparr>st_active := 1\<rparr>) = of_nat (slots [StAuthenticated])"
  using admission_counters_exact [OF conn_established] by simp

lemma setup_failed_stays:
  "server_step x y \<Longrightarrow> length (filter (\<lambda>g. g = StSetupFailed) (fst x)) \<le>
    length (filter (\<lambda>g. g = StSetupFailed) (fst y))"
proof (induction rule: server_step.induct)
  case (advance i gs st g' st')
  have "gs ! i \<noteq> StSetupFailed" using advance(2) by auto
  with filter_update_length [OF advance(1), of "\<lambda>g. g = StSetupFailed" g'] show ?case
    by (auto split: if_splits)
qed simp_all

lemma setup_failed_stays_star:
  "server_step\<^sup>*\<^sup>* x y \<Longrightarrow> length (filter (\<lambda>g. g = StSetupFailed) (fst x)) \<le>
    length (filter (\<lambda>g. g = StSetupFailed) (fst y))"
  by (induction rule: rtranclp_induct) (auto dest: setup_failed_stays)

lemma setup_failed_slots: "length (filter (\<lambda>g. g = StSetupFailed) gs) \<le> slots gs"
  by (induction gs) (auto simp: slots_def)

text \<open>
  C39.  A connection whose socket cannot be converted after the handshake keeps its slot for good: once
  as many connections as \<open>max_connections\<close> allows have ended this way, every later connection is
  rejected, in every state the server can reach from there.
\<close>

theorem failed_setup_leaks_slot:
  assumes "server_step\<^sup>*\<^sup>* ([], stats_default) (gs, st)" and "sr_max_connections rt = Some mx"
    and "unat mx \<le> length (filter (\<lambda>g. g = StSetupFailed) gs)"
    and "server_step\<^sup>*\<^sup>* (gs, st) (gs', st')" and "length gs' < 2 ^ 64"
  shows "fst (accept_conn rt base counter st') = None"
proof -
  have "unat mx \<le> slots gs'"
    using assms(3) setup_failed_stays_star [OF assms(4)] setup_failed_slots [of gs'] by simp
  moreover have "slots gs' < 2 ^ 64"
    using assms(5) length_filter_le [of holds_slot gs'] unfolding slots_def by linarith
  moreover have "st_active st' = of_nat (slots gs')"
    using counters_ok_reachable [OF rtranclp_trans [OF assms(1,4)]] by (simp add: counters_ok_def)
  ultimately have "mx \<le> st_active st'"
    by (simp add: word_le_nat_alt unat_of_nat_small)
  with assms(2) show ?thesis by (simp add: accept_conn_def)
qed

theorem failed_setup_leaks_slot_witness:
  "\<exists>rt st. sr_max_connections rt = Some 1 \<and>
    server_step\<^sup>*\<^sup>* ([], stats_default) ([StSetupFailed], st) \<and> fst (accept_conn rt 5 1 st) = None"
proof -
  define rt where "rt = \<lparr>sr_key = default_key, sr_connect_timeout = 10, sr_handshake_timeout = 15,
    sr_max_connections = Some 1, sr_max_handshakes = None, sr_max_streams_per_conn = None,
    sr_allow_bond = True\<rparr>"
  then have "sr_max_connections rt = Some 1" by simp
  then show ?thesis
    using conn_setup_failed
      failed_setup_leaks_slot [OF conn_setup_failed, of rt 1 "[StSetupFailed]" _ 5 1]
    by auto
qed

text \<open>
  Session ids are never zero and repeat only in one case: when the random base is zero, the first
  two connections both get id 1.
\<close>

theorem session_ids_unique:
  "session_id_for base i \<noteq> 0 \<and>
   (session_id_for base i = session_id_for base j \<longleftrightarrow> i = j \<or> (base = 0 \<and> {i, j} = {0, 1}))"
proof -
  have sum: "unat (ucast base + ucast k :: u128) = unat base + unat k" for k :: u64
  proof -
    have up: "unat (ucast x :: u128) = unat x" for x :: u64
      using unsigned_less [of x, where ?'a = nat] by (simp add: unsigned_ucast_eq take_bit_nat_eq_self)
    have "unat base + unat k < 2 ^ LENGTH(128)"
      using unsigned_less [of base, where ?'a = nat] unsigned_less [of k, where ?'a = nat] by simp
    then show ?thesis using unat_add_small [of "ucast base :: u128" "ucast k"] up by simp
  qed
  have eq: "(ucast base + ucast k :: u128) = ucast base + ucast l \<longleftrightarrow> k = l" for k l :: u64
    using sum [of k] sum [of l] by (metis add_left_cancel unsigned_word_eqI)
  have zero: "(ucast base + ucast k :: u128) = 0 \<longleftrightarrow> base = 0 \<and> k = 0" for k :: u64
    using sum [of k] by (metis add_is_0 unat_0 unat_eq_zero)
  have one: "(ucast base + ucast k :: u128) = 1 \<longleftrightarrow> k = 1" if "base = 0" for k :: u64
    using sum [of k] that by (metis add_0 unat_0 unat_1 unsigned_word_eqI)
  show ?thesis
    using eq zero one by (auto simp: session_id_for_def Let_def doubleton_eq_iff)
qed

section \<open>Properties of the demultiplexer\<close>

text \<open>
  The registry as a capped table: an OPEN inserts below the cap, everything else removes.
\<close>

datatype reg_op = RegOpen stream_id nat | RegRemove stream_id

fun apply_reg :: "nat \<Rightarrow> reg_op \<Rightarrow> (stream_id, nat) hash_map \<Rightarrow> (stream_id, nat) hash_map" where
  "apply_reg cap (RegOpen stream n) m =
     (if hm_contains m stream \<or> cap \<le> hm_len m then m else hm_insert stream n m)"
| "apply_reg cap (RegRemove stream) m = hm_remove stream m"

lemma apply_reg_len: "hm_len m \<le> cap \<Longrightarrow> hm_len (apply_reg cap op m) \<le> cap"
proof (cases op)
  case (RegRemove stream)
  then show "hm_len m \<le> cap \<Longrightarrow> ?thesis" by (simp add: le_trans [OF hm_len_remove])
qed (simp add: hm_len_insert)

interpretation reg_table: capped_table "apply_reg cap" cap
proof
  fix m :: "(stream_id, nat) hash_map" and op
  assume m: "hm_wf m" "hm_len m \<le> cap"
  then show "hm_wf (apply_reg cap op m)" by (cases op) simp_all
  show "hm_len (apply_reg cap op m) \<le> cap" using m(2) by (rule apply_reg_len)
qed

text \<open>The effect of every operation on the registry.\<close>

lemma bounce_simps [simp]:
  "sv_registry (bounce full s c) = sv_registry c" "sv_tasks (bounce full s c) = sv_tasks c"
  "sv_delivered (bounce full s c) = sv_delivered c" "sv_open (bounce full s c) = sv_open c"
  by (simp_all add: bounce_def)

lemma reg_remove_simps [simp]:
  "sv_registry (reg_remove s c) = hm_remove s (sv_registry c)" "sv_tasks (reg_remove s c) = sv_tasks c"
  "sv_delivered (reg_remove s c) = sv_delivered c" "sv_open (reg_remove s c) = sv_open c"
  by (simp_all add: reg_remove_def)

lemma demux_break_simps [simp]:
  "sv_registry (demux_break c) = sv_registry c" "sv_tasks (demux_break c) = sv_tasks c"
  "sv_delivered (demux_break c) = sv_delivered c" "sv_open (demux_break c) = False"
  by (simp_all add: demux_break_def)

lemma set_phase_simps [simp]:
  "sv_registry (set_phase n ph c) = sv_registry c" "length (sv_tasks (set_phase n ph c)) = length (sv_tasks c)"
  "sv_delivered (set_phase n ph c) = sv_delivered c" "sv_open (set_phase n ph c) = sv_open c"
  by (simp_all add: set_phase_def)

lemma handle_open_cases:
  "(sv_registry (handle_open rt full s p c) = sv_registry c \<and> sv_tasks (handle_open rt full s p c) = sv_tasks c) \<or>
   (\<not> hm_contains (sv_registry c) s \<and>
    (\<forall>cap. sr_max_streams_per_conn rt = Some cap \<longrightarrow> hm_len (sv_registry c) < unat cap) \<and>
    sv_registry (handle_open rt full s p c) = hm_insert s (length (sv_tasks c)) (sv_registry c) \<and>
    length (sv_tasks (handle_open rt full s p c)) = Suc (length (sv_tasks c)))"
  by (auto simp: handle_open_def not_le split: option.splits sum.splits)

lemma handle_open_simps [simp]:
  "sv_delivered (handle_open rt full s p c) = sv_delivered c" "sv_open (handle_open rt full s p c) = sv_open c"
  by (simp_all add: handle_open_def split: sum.split option.split)

lemma route_cases:
  "(sv_registry (route oc full s ev c) = sv_registry c \<or>
    sv_registry (route oc full s ev c) = hm_remove s (sv_registry c)) \<and>
   sv_tasks (route oc full s ev c) = sv_tasks c \<and> sv_open (route oc full s ev c) = sv_open c"
  by (simp add: route_def split: option.split send_outcome.split)

lemma stream_ops_cases:
  "sv_registry (handle_stream_connect n b c) = sv_registry c"
  "sv_registry (handle_stream_finish n po c) = sv_registry c"
  "sv_registry (handle_stream_leave n c) = sv_registry c \<or>
     (\<exists>s. sv_registry (handle_stream_leave n c) = hm_remove s (sv_registry c))"
  "length (sv_tasks (handle_stream_connect n b c)) = length (sv_tasks c)"
  "length (sv_tasks (handle_stream_finish n po c)) = length (sv_tasks c)"
  "length (sv_tasks (handle_stream_leave n c)) = length (sv_tasks c)"
  "sv_delivered (handle_stream_connect n b c) = sv_delivered c"
  "sv_delivered (handle_stream_finish n po c) = sv_delivered c"
  "sv_delivered (handle_stream_leave n c) = sv_delivered c"
  "sv_open (handle_stream_connect n b c) = sv_open c" "sv_open (handle_stream_finish n po c) = sv_open c"
  "sv_open (handle_stream_leave n c) = sv_open c"
  by (auto simp: handle_stream_connect_def handle_stream_finish_def handle_stream_leave_def
      split: option.split prod.split bool.split)

text \<open>
  The invariant of the registry: distinct stream ids, every sender feeds the channel of a task that was
  spawned, and no two ids share a channel.
\<close>

definition registry_ok :: "server_conn \<Rightarrow> bool" where
  "registry_ok c \<longleftrightarrow> hm_wf (sv_registry c) \<and>
     (\<forall>s n. hm_get (sv_registry c) s = Some n \<longrightarrow> n < length (sv_tasks c)) \<and>
     (\<forall>s s' n. hm_get (sv_registry c) s = Some n \<and> hm_get (sv_registry c) s' = Some n \<longrightarrow> s = s')"

text \<open>Every operation changes the registry in one of these ways.\<close>

lemma server_op_registry:
  fixes rt op c defines "c' \<equiv> server_op_step rt op c"
  shows "(sv_registry c' = sv_registry c \<and> length (sv_tasks c) \<le> length (sv_tasks c')) \<or>
    (\<exists>s. sv_registry c' = hm_remove s (sv_registry c) \<and> length (sv_tasks c) \<le> length (sv_tasks c')) \<or>
    (\<exists>s. \<not> hm_contains (sv_registry c) s \<and>
       (\<forall>cap. sr_max_streams_per_conn rt = Some cap \<longrightarrow> hm_len (sv_registry c) < unat cap) \<and>
       sv_registry c' = hm_insert s (length (sv_tasks c)) (sv_registry c) \<and>
       length (sv_tasks c') = Suc (length (sv_tasks c)))"
proof (cases op)
  case (OpDemux inp)
  show ?thesis
  proof (cases inp)
    case (DemuxFrame msg oc full)
    show ?thesis
    proof (cases "parse_frame msg")
      case (Inr f)
      obtain k s p where f: "f = (k, s, p)" by (cases f) auto
      show ?thesis
        using handle_open_cases [of rt full s p c] route_cases [of oc full s _ c] OpDemux DemuxFrame Inr f
        by (cases k) (auto simp: c'_def run_demux_step_def)
    qed (simp add: c'_def OpDemux DemuxFrame run_demux_step_def)
  qed (simp_all add: c'_def OpDemux run_demux_step_def)
next
  case (OpConnect n b)
  then show ?thesis by (simp add: c'_def stream_ops_cases)
next
  case (OpFinish n po)
  then show ?thesis by (simp add: c'_def stream_ops_cases)
next
  case (OpLeave n)
  then show ?thesis using stream_ops_cases(3,6) [of n c] by (auto simp: c'_def)
qed

lemma registry_ok_remove:
  "registry_ok c \<Longrightarrow> sv_registry c' = hm_remove s (sv_registry c) \<Longrightarrow>
    length (sv_tasks c) \<le> length (sv_tasks c') \<Longrightarrow> registry_ok c'"
  unfolding registry_ok_def by (auto split: if_splits) (meson order.strict_trans2)

lemma registry_ok_insert:
  assumes "registry_ok c" and "sv_registry c' = hm_insert s (length (sv_tasks c)) (sv_registry c)"
    and "length (sv_tasks c') = Suc (length (sv_tasks c))"
  shows "registry_ok c'"
proof -
  have fresh: "hm_get (sv_registry c) s' \<noteq> Some (length (sv_tasks c))" for s'
    using assms(1) unfolding registry_ok_def by (metis less_irrefl)
  have "n < Suc (length (sv_tasks c))" if "hm_get (sv_registry c) s' = Some n" for s' n
    using assms(1) that unfolding registry_ok_def by (metis less_Suc_eq)
  with assms fresh show ?thesis unfolding registry_ok_def by (auto split: if_splits)
qed

lemma registry_ok_step:
  assumes "registry_ok c"
  shows "registry_ok (server_op_step rt op c)"
proof -
  have "registry_ok c'" if "sv_registry c' = sv_registry c" "length (sv_tasks c) \<le> length (sv_tasks c')" for c'
    using assms that unfolding registry_ok_def by (metis order.strict_trans2)
  then show ?thesis
    using server_op_registry [of rt op c] registry_ok_remove [OF assms] registry_ok_insert [OF assms] by metis
qed

lemma registry_cap_step:
  assumes "registry_ok c" and "sr_max_streams_per_conn rt = Some cap" and "hm_len (sv_registry c) \<le> unat cap"
  shows "hm_len (sv_registry (server_op_step rt op c)) \<le> unat cap"
proof -
  have "\<exists>op'. sv_registry (server_op_step rt op c) = apply_reg (unat cap) op' (sv_registry c) \<or>
      sv_registry (server_op_step rt op c) = sv_registry c"
    using server_op_registry [of rt op c] assms(2)
    by (metis apply_reg.simps not_le)
  then show ?thesis
    using assms reg_table.op_cap [of "sv_registry c" "unat cap"] by (auto simp: registry_ok_def)
qed

lemma server_run_simps [simp]:
  "server_run rt [] c = c" "server_run rt (op # ops) c = server_run rt ops (server_op_step rt op c)"
  by (simp_all add: server_run_def)

lemma registry_run:
  assumes "registry_ok c"
  shows "registry_ok (server_run rt ops c) \<and>
    (\<forall>cap. sr_max_streams_per_conn rt = Some cap \<and> hm_len (sv_registry c) \<le> unat cap \<longrightarrow>
      hm_len (sv_registry (server_run rt ops c)) \<le> unat cap)"
  using assms by (induction ops arbitrary: c) (auto simp: registry_ok_step registry_cap_step)

text \<open>A tunnel whose first frame opens a stream, for the concrete runs below.\<close>

definition demo_runtime :: server_runtime where
  "demo_runtime =
     \<lparr>sr_key = default_key, sr_connect_timeout = 10, sr_handshake_timeout = 15, sr_max_connections = None,
      sr_max_handshakes = None, sr_max_streams_per_conn = Some 8, sr_allow_bond = True\<rparr>"

definition demo_addr :: proxy_addr where
  "demo_addr = \<lparr>pa_host = HostIp (IpV4 1), pa_port = 80\<rparr>"

definition demo_open :: server_op where
  "demo_open = OpDemux (DemuxFrame (frame_msg (to_out_frame (KOpen, 1, addr_encode demo_addr))) SendOk False)"

lemma demo_open_step:
  "server_run demo_runtime [demo_open] (conn_new out st) =
     (conn_new out st)\<lparr>sv_registry := [(1, 0)],
       sv_tasks := [\<lparr>tk_stream = 1, tk_addr = demo_addr, tk_phase = TaskConnecting\<rparr>]\<rparr>"
proof -
  have "addr_decode (addr_encode demo_addr) = Inr demo_addr"
    by (rule addr_decode_encode) (simp add: demo_addr_def)
  then show ?thesis
    by (simp add: demo_open_def run_demux_step_def parse_to_out_frame handle_open_def conn_new_def
        hm_insert_def demo_runtime_def)
qed

text \<open>
  C12.  The stream registry of a tunnel keeps its invariant and its bound in every execution, whatever
  the client sends and however the stream tasks interleave with the demultiplexer: stream ids are
  distinct, every entry feeds the channel of a spawned task, no two entries share one, and there are
  never more than \<open>max_streams_per_conn\<close> entries.
\<close>

theorem stream_registry_bounded:
  assumes "c = server_run rt ops (conn_new out st)"
  shows "registry_ok c \<and>
    (\<forall>cap. sr_max_streams_per_conn rt = Some cap \<longrightarrow> hm_len (sv_registry c) \<le> unat cap)"
proof -
  have "registry_ok (conn_new out st)" by (simp add: registry_ok_def conn_new_def)
  from registry_run [OF this, of rt ops] assms show ?thesis by (simp add: conn_new_def)
qed

theorem stream_registry_bounded_witness:
  "let c = server_run demo_runtime [demo_open, demo_open, OpConnect 0 True]
        (conn_new \<lparr>ch_sent = [], ch_left = None\<rparr> stats_default)
   in registry_ok c \<and> hm_get (sv_registry c) 1 = Some 0 \<and> hm_len (sv_registry c) \<le> 8"
proof -
  let ?ch = "\<lparr>ch_sent = [], ch_left = None\<rparr>"
  let ?c = "server_run demo_runtime [demo_open, demo_open, OpConnect 0 True] (conn_new ?ch stats_default)"
  have "?c = server_run demo_runtime [demo_open, OpConnect 0 True]
      (server_run demo_runtime [demo_open] (conn_new ?ch stats_default))"
    by simp
  also have "hm_get (sv_registry \<dots>) 1 = Some 0"
    unfolding demo_open_step
    by (simp add: demo_open_def run_demux_step_def parse_to_out_frame handle_open_def hm_contains_def
        hm_get_def stream_ops_cases)
  finally show ?thesis
    using stream_registry_bounded [OF refl, of demo_runtime "[demo_open, demo_open, OpConnect 0 True]" ?ch
        stats_default]
    by (simp add: Let_def demo_runtime_def del: server_run_simps)
qed

text \<open>The events a channel has accepted, and those the frames of a stream stand for.\<close>

definition delivered_to :: "nat \<Rightarrow> server_conn \<Rightarrow> stream_event list" where
  "delivered_to n c = map snd (filter (\<lambda>x. fst x = n) (sv_delivered c))"

definition frame_event :: "stream_id \<Rightarrow> mux_frame \<Rightarrow> stream_event list" where
  "frame_event sid f =
     (case f of (k, s, p) \<Rightarrow>
        if s \<noteq> sid then [] else if k = KData then [EvData p] else if k = KEof then [EvEof] else [])"

definition op_event :: "stream_id \<Rightarrow> server_op \<Rightarrow> stream_event list" where
  "op_event sid op =
     (case op of
        OpDemux (DemuxFrame msg oc full) \<Rightarrow>
          (case parse_frame msg of Inr f \<Rightarrow> frame_event sid f | Inl _ \<Rightarrow> [])
      | _ \<Rightarrow> [])"

text \<open>A channel that can no longer receive anything.\<close>

definition frozen :: "nat \<Rightarrow> server_conn \<Rightarrow> bool" where
  "frozen n c \<longleftrightarrow> n < length (sv_tasks c) \<and> (\<not> sv_open c \<or> (\<forall>s. hm_get (sv_registry c) s \<noteq> Some n))"

lemma server_op_tasks: "length (sv_tasks c) \<le> length (sv_tasks (server_op_step rt op c))"
  using server_op_registry [of rt op c] by auto

lemma server_op_closed:
  "\<not> sv_open c \<Longrightarrow> \<not> sv_open (server_op_step rt op c) \<and> sv_delivered (server_op_step rt op c) = sv_delivered c"
  by (cases op) (auto simp: run_demux_step_def stream_ops_cases)

text \<open>The only operation that delivers is the routing of a data or EOF frame to a registered stream.\<close>

lemma route_delivered:
  "sv_delivered (route oc full s ev c) =
     sv_delivered c @ (case hm_get (sv_registry c) s of
       Some n \<Rightarrow> if oc = SendOk then [(n, ev)] else [] | None \<Rightarrow> [])"
  by (simp add: route_def split: option.split send_outcome.split)

lemma server_op_delivered:
  "sv_delivered (server_op_step rt op c) = sv_delivered c \<or>
   (\<exists>s n ev msg full. sv_open c \<and> op = OpDemux (DemuxFrame msg SendOk full) \<and> op_event s op = [ev] \<and>
     hm_get (sv_registry c) s = Some n \<and> (\<forall>s'. s' \<noteq> s \<longrightarrow> op_event s' op = []) \<and>
     sv_registry (server_op_step rt op c) = sv_registry c \<and> sv_open (server_op_step rt op c) \<and>
     sv_delivered (server_op_step rt op c) = sv_delivered c @ [(n, ev)])"
proof (cases "\<exists>msg oc full k s p. sv_open c \<and> op = OpDemux (DemuxFrame msg oc full) \<and>
    parse_frame msg = Inr (k, s, p) \<and> (k = KData \<or> k = KEof) \<and> hm_get (sv_registry c) s \<noteq> None \<and> oc = SendOk")
  case True
  then obtain msg full k s p n where op: "sv_open c" "op = OpDemux (DemuxFrame msg SendOk full)"
    "parse_frame msg = Inr (k, s, p)" "k = KData \<or> k = KEof" "hm_get (sv_registry c) s = Some n"
    by blast
  let ?ev = "if k = KData then EvData p else EvEof"
  have "server_op_step rt op c = c\<lparr>sv_delivered := sv_delivered c @ [(n, ?ev)]\<rparr>"
    using op by (auto simp: run_demux_step_def route_def)
  moreover have "op_event s op = [?ev]" "\<forall>s'. s' \<noteq> s \<longrightarrow> op_event s' op = []"
    using op by (auto simp: op_event_def frame_event_def)
  ultimately show ?thesis using op by auto
next
  case False
  have "sv_delivered (server_op_step rt op c) = sv_delivered c"
  proof (cases op)
    case (OpDemux inp)
    with False show ?thesis
      by (cases inp) (auto simp: run_demux_step_def route_delivered
          split: sum.split frame_kind.split option.split)
  qed (simp_all add: stream_ops_cases)
  then show ?thesis ..
qed

lemma frozen_step:
  assumes "frozen n c"
  shows "frozen n (server_op_step rt op c) \<and> delivered_to n (server_op_step rt op c) = delivered_to n c"
proof (cases "sv_open c")
  case False
  then show ?thesis
    using assms server_op_closed [of c rt op] server_op_tasks [of c rt op]
    by (simp add: frozen_def delivered_to_def)
next
  case True
  then have un: "n < length (sv_tasks c)" "\<And>s. hm_get (sv_registry c) s \<noteq> Some n"
    using assms by (auto simp: frozen_def)
  have "hm_get (sv_registry (server_op_step rt op c)) s \<noteq> Some n" for s
    using server_op_registry [of rt op c] un by (auto split: if_splits)
  moreover have "delivered_to n (server_op_step rt op c) = delivered_to n c"
    using server_op_delivered [of rt op c] un(2) by (auto simp: delivered_to_def)
  ultimately show ?thesis
    using un(1) server_op_tasks [of c rt op] by (simp add: frozen_def)
qed

lemma frozen_run:
  "frozen n c \<Longrightarrow> frozen n (server_run rt ops c) \<and> delivered_to n (server_run rt ops c) = delivered_to n c"
  using frozen_step by (induction ops arbitrary: c) auto

text \<open>A registered stream: an operation either hands it all it has for it, or cuts it off for good.\<close>

lemma live_event:
  assumes "sv_open c" and "hm_get (sv_registry c) sid = Some n" and "op_event sid op \<noteq> []"
  shows "sv_delivered (server_op_step rt op c) \<noteq> sv_delivered c \<or>
    hm_get (sv_registry (server_op_step rt op c)) sid = None"
proof -
  obtain msg oc full k p where op: "op = OpDemux (DemuxFrame msg oc full)" "parse_frame msg = Inr (k, sid, p)"
    "k = KData \<or> k = KEof"
    using assms(3)
    by (auto simp: op_event_def frame_event_def split: server_op.splits demux_input.splits sum.splits if_splits)
  with assms(1,2) show ?thesis
    by (cases oc) (auto simp: run_demux_step_def route_def)
qed

lemma live_step:
  fixes rt op c
  defines "c' \<equiv> server_op_step rt op c"
  assumes ok: "registry_ok c" and reg: "hm_get (sv_registry c) sid = Some n" and op: "sv_open c"
  shows "(sv_open c' \<and> hm_get (sv_registry c') sid = Some n \<and>
      delivered_to n c' = delivered_to n c @ op_event sid op) \<or>
    (frozen n c' \<and> delivered_to n c' = delivered_to n c)"
proof -
  have n: "n < length (sv_tasks c)" using ok reg unfolding registry_ok_def by blast
  have uniq: "s = sid" if "hm_get (sv_registry c) s = Some n" for s
    using ok reg that unfolding registry_ok_def by blast
  have "s = sid" if "hm_get (sv_registry c') s = Some n" for s
    using server_op_registry [of rt op c] uniq n that by (auto simp: c'_def split: if_splits)
  then have live: "frozen n c' \<or> (sv_open c' \<and> hm_get (sv_registry c') sid = Some n)"
    using n server_op_tasks [of c rt op] unfolding frozen_def c'_def by fastforce
  from server_op_delivered [of rt op c] show ?thesis
  proof (elim disjE exE conjE)
    assume same: "sv_delivered (server_op_step rt op c) = sv_delivered c"
    then have "op_event sid op = [] \<or> hm_get (sv_registry c') sid = None"
      using live_event [OF op reg, of op rt] by (cases "op_event sid op = []") (auto simp: c'_def)
    with live same show ?thesis by (auto simp: delivered_to_def c'_def)
  next
    fix s m ev
    assume d: "op_event s op = [ev]" "hm_get (sv_registry c) s = Some m" "\<forall>s'. s' \<noteq> s \<longrightarrow> op_event s' op = []"
      "sv_registry (server_op_step rt op c) = sv_registry c" "sv_open (server_op_step rt op c)"
      "sv_delivered (server_op_step rt op c) = sv_delivered c @ [(m, ev)]"
    have left: "sv_open c'" "hm_get (sv_registry c') sid = Some n"
      "sv_delivered c' = sv_delivered c @ [(m, ev)]"
      using d(4-6) reg by (simp_all add: c'_def)
    show ?thesis
    proof (cases "s = sid")
      case True
      with d(1,2) reg left show ?thesis by (simp add: delivered_to_def)
    next
      case False
      moreover have "m \<noteq> n" using False d(2) uniq by blast
      ultimately show ?thesis using d(3) left by (simp add: delivered_to_def)
    qed
  qed
qed

lemma demux_prefix:
  "registry_ok c \<Longrightarrow> hm_get (sv_registry c) sid = Some n \<Longrightarrow> sv_open c \<Longrightarrow>
    \<exists>es. delivered_to n (server_run rt ops c) = delivered_to n c @ es \<and>
      prefix es (concat (map (op_event sid) ops)) \<and>
      (frozen n (server_run rt ops c) \<or> es = concat (map (op_event sid) ops))"
proof (induction ops arbitrary: c)
  case (Cons op ops)
  let ?c = "server_op_step rt op c"
  from live_step [OF Cons.prems, of rt op] show ?case
  proof
    assume live: "sv_open ?c \<and> hm_get (sv_registry ?c) sid = Some n \<and>
      delivered_to n ?c = delivered_to n c @ op_event sid op"
    then obtain es where "delivered_to n (server_run rt ops ?c) = delivered_to n ?c @ es"
      "prefix es (concat (map (op_event sid) ops))"
      "frozen n (server_run rt ops ?c) \<or> es = concat (map (op_event sid) ops)"
      using Cons.IH [of ?c] registry_ok_step [OF Cons.prems(1)] by blast
    with live show ?thesis by (intro exI [of _ "op_event sid op @ es"]) simp
  next
    assume "frozen n ?c \<and> delivered_to n ?c = delivered_to n c"
    then show ?thesis using frozen_run [of n ?c rt ops] by auto
  qed
qed simp

text \<open>
  C11.  The demultiplexer neither loses nor reorders what it hands to a stream: from the moment a stream
  is registered, the events its channel receives are a prefix of the data and EOF frames that arrive
  for its id, whatever other streams, the stream tasks and the channels do in between; the prefix ends
  only where the stream is taken out of the registry or the tunnel ends.
\<close>

theorem demux_delivers_in_order:
  assumes "c0 = server_run rt ops0 (conn_new out st)" and "hm_get (sv_registry c0) sid = Some n"
    and "sv_open c0"
  shows "\<exists>es. delivered_to n (server_run rt ops c0) = delivered_to n c0 @ es \<and>
    prefix es (concat (map (op_event sid) ops)) \<and>
    (sv_open (server_run rt ops c0) \<and> hm_get (sv_registry (server_run rt ops c0)) sid = Some n \<longrightarrow>
       es = concat (map (op_event sid) ops))"
proof -
  have "registry_ok (conn_new out st)" by (simp add: registry_ok_def conn_new_def)
  then have "registry_ok c0" using registry_run assms(1) by blast
  from demux_prefix [OF this assms(2,3), of rt ops] show ?thesis by (auto simp: frozen_def)
qed

theorem demux_delivers_in_order_witness:
  "delivered_to 0 (server_run demo_runtime
      [demo_open, OpDemux (DemuxFrame (frame_msg (to_out_frame (KData, 1, [5]))) SendOk False)]
      (conn_new \<lparr>ch_sent = [], ch_left = None\<rparr> stats_default)) = [EvData [5]]"
proof -
  let ?c = "conn_new \<lparr>ch_sent = [], ch_left = None\<rparr> stats_default"
  let ?c0 = "server_run demo_runtime [demo_open] ?c"
  let ?d = "OpDemux (DemuxFrame (frame_msg (to_out_frame (KData, 1, [5]))) SendOk False)"
  have reg: "hm_get (sv_registry ?c0) 1 = Some 0" "sv_open ?c0" "delivered_to 0 ?c0 = []"
    by (simp_all only: demo_open_step) (simp_all add: hm_get_def conn_new_def delivered_to_def)
  moreover have "sv_open (server_run demo_runtime [?d] ?c0)"
    "hm_get (sv_registry (server_run demo_runtime [?d] ?c0)) 1 = Some 0"
    unfolding demo_open_step
    by (simp_all add: run_demux_step_def parse_to_out_frame route_def conn_new_def hm_get_def)
  moreover have "concat (map (op_event 1) [?d]) = [EvData [5]]"
    by (simp add: op_event_def frame_event_def parse_to_out_frame)
  ultimately show ?thesis
    using demux_delivers_in_order [OF refl reg(1,2), of "[?d]"] by auto
qed

text \<open>A running stream of a tunnel whose demultiplexer has stopped.\<close>

definition stranded :: "stream_id \<Rightarrow> nat \<Rightarrow> server_conn \<Rightarrow> bool" where
  "stranded sid n c \<longleftrightarrow> \<not> sv_open c \<and> hm_get (sv_registry c) sid = Some n \<and> n < length (sv_tasks c) \<and>
     (tk_phase (sv_tasks c ! n) = TaskConnecting \<or> tk_phase (sv_tasks c ! n) = TaskPumping) \<and>
     (\<forall>m < length (sv_tasks c). m \<noteq> n \<longrightarrow> tk_stream (sv_tasks c ! m) \<noteq> sid)"

lemma stranded_open: "stranded sid n c \<Longrightarrow> \<not> events_closed n c"
  by (auto simp: stranded_def events_closed_def registry_dropped_def list_all_length)

lemma set_phase_nth:
  "tk_stream (sv_tasks (set_phase m ph c) ! k) = tk_stream (sv_tasks c ! k)"
  "m \<noteq> k \<Longrightarrow> sv_tasks (set_phase m ph c) ! k = sv_tasks c ! k"
  by (cases "m = k"; cases "k < length (sv_tasks c)"; simp add: set_phase_def list_update_beyond)+

lemma stranded_set_phase: "stranded sid n c \<Longrightarrow> m \<noteq> n \<Longrightarrow> stranded sid n (set_phase m ph c)"
  by (simp add: stranded_def set_phase_nth)

lemma stranded_reg_remove: "stranded sid n c \<Longrightarrow> s \<noteq> sid \<Longrightarrow> stranded sid n (reg_remove s c)"
  by (simp add: stranded_def)

lemma stranded_update:
  "stranded sid n c \<Longrightarrow> stranded sid n (c\<lparr>sv_out := ch\<rparr>)"
  "stranded sid n c \<Longrightarrow> stranded sid n (c\<lparr>sv_stats := st\<rparr>)"
  by (simp_all add: stranded_def)

lemma stranded_task: "stranded sid n c \<Longrightarrow> task_of c m = Some t \<Longrightarrow> m \<noteq> n \<Longrightarrow> tk_stream t \<noteq> sid"
  by (auto simp: stranded_def task_of_def split: if_splits)

lemmas stranded_intros = stranded_set_phase stranded_reg_remove stranded_update

lemma stranded_step:
  assumes "stranded sid n c" and "\<forall>b. op \<noteq> OpConnect n b" and "\<forall>po. op \<noteq> OpFinish n po"
  shows "stranded sid n (server_op_step rt op c)"
proof (cases op)
  case (OpDemux inp)
  with assms(1) show ?thesis by (simp add: run_demux_step_def stranded_def)
next
  case (OpConnect m b)
  with assms show ?thesis
    by (auto simp: handle_stream_connect_def intro!: stranded_intros dest: stranded_task
        split: option.split prod.split bool.split)
next
  case (OpFinish m po)
  with assms show ?thesis
    by (auto simp: handle_stream_finish_def intro!: stranded_intros dest: stranded_task split: option.split)
next
  case (OpLeave m)
  show ?thesis
  proof (cases "m = n")
    case True
    with assms(1) OpLeave show ?thesis
      by (auto simp: handle_stream_leave_def task_of_def stranded_def)
  next
    case False
    with assms(1) OpLeave show ?thesis
      by (auto simp: handle_stream_leave_def intro!: stranded_intros dest: stranded_task split: option.split)
  qed
qed

text \<open>
  C40.  A tunnel that ends does not end its idle streams: the registry is shared with the stream tasks,
  so when the demultiplexer has stopped, the event channel of a stream whose task is still running stays
  open, whatever the other streams of the tunnel do; its pump is never told that the tunnel is gone.
\<close>

theorem dead_tunnel_strands_streams:
  assumes "hm_get (sv_registry c) sid = Some n" and "n < length (sv_tasks c)"
    and "tk_phase (sv_tasks c ! n) = TaskConnecting \<or> tk_phase (sv_tasks c ! n) = TaskPumping"
    and "\<And>m. m < length (sv_tasks c) \<Longrightarrow> m \<noteq> n \<Longrightarrow> tk_stream (sv_tasks c ! m) \<noteq> sid"
    and "\<And>op b po. op \<in> set ops \<Longrightarrow> op \<noteq> OpConnect n b \<and> op \<noteq> OpFinish n po"
  shows "\<not> events_closed n (server_run rt ops (server_op_step rt (OpDemux DemuxEof) c))"
proof -
  have "stranded sid n (server_op_step rt (OpDemux DemuxEof) c)"
    using assms(1-4) by (simp add: run_demux_step_def stranded_def demux_break_def)
  then have "stranded sid n (server_run rt ops (server_op_step rt (OpDemux DemuxEof) c))"
    using assms(5) stranded_step
    by (induction ops arbitrary: c rule: rev_induct) (auto simp: server_run_def)
  then show ?thesis by (rule stranded_open)
qed

theorem dead_tunnel_strands_streams_witness:
  "\<not> events_closed 0 (server_run demo_runtime [OpDemux DemuxWriterEnded]
     (server_op_step demo_runtime (OpDemux DemuxEof) (server_run demo_runtime [demo_open]
       (conn_new \<lparr>ch_sent = [], ch_left = None\<rparr> stats_default))))"
  by (rule dead_tunnel_strands_streams [where sid = 1])
    (simp_all only: demo_open_step, simp_all add: hm_get_def conn_new_def)

end
