(* ===== verification/Base94_Reference.thy ===== *)
theory Base94_Reference
  imports Base94_Frame
begin

text \<open>
  The base94 coder as \<^verbatim>\<open>docs/openppp2-algo.md\<close> (sections 2.6 and 2.7) documents it.  The framing
  theory is stated for any coder with the properties \<open>base94_ok\<close>; this reference coder has them, so
  the hypothesis can hold, and the closed examples of the development run on it.
\<close>

definition b94_sym :: "nat \<Rightarrow> u8" where
  "b94_sym d = of_nat (0x20 + d)"

definition ref_encode_byte :: "u32 \<Rightarrow> u8 \<Rightarrow> bytes" where
  "ref_encode_byte kf b =
     (let v = unat (b - ucast kf)
      in if v \<ge> 93 then [b94_sym ((v div 93 - 1) + 93), b94_sym (v mod 93)] else [b94_sym v])"

definition ref_encode :: "bytes \<Rightarrow> u32 \<Rightarrow> bytes" where
  "ref_encode data kf = concat (map (ref_encode_byte kf) data)"

fun ref_decode :: "bytes \<Rightarrow> u32 \<Rightarrow> bytes option" where
  "ref_decode [] kf = Some []"
| "ref_decode (c # cs) kf =
     (let b = unat c - 0x20
      in
        if unat c < 0x20 \<or> b > 94 then None
        else if b \<ge> 93 then
          (case cs of
             [] \<Rightarrow> None
           | c2 # cs' \<Rightarrow>
               let b2 = unat c2 - 0x20; v = ((b - 93) + 1) * 93 + b2
               in if unat c2 < 0x20 \<or> b2 > 93 \<or> v > 255 then None
                  else map_option (Cons (of_nat v + ucast kf)) (ref_decode cs' kf))
        else map_option (Cons (of_nat b + ucast kf)) (ref_decode cs kf))"

fun ref_digits :: "nat \<Rightarrow> nat list" where
  "ref_digits n = (if n < 94 then [n] else ref_digits (n div 94) @ [n mod 94])"

declare ref_digits.simps [simp del]

definition ref_decimal_encode :: "u64 \<Rightarrow> bytes" where
  "ref_decimal_encode n = map b94_sym (ref_digits (unat n))"

definition ref_decimal_decode :: "bytes \<Rightarrow> u64 option" where
  "ref_decimal_decode ds =
     (if list_all (\<lambda>c. 0x20 \<le> unat c \<and> unat c - 0x20 < 94) ds
      then Some (of_nat (fold (\<lambda>c n. n * 94 + (unat c - 0x20)) ds 0)) else None)"

definition reference_b94 :: base94_ops where
  "reference_b94 =
     \<lparr>b94_encoded_len = (\<lambda>d kf. length (ref_encode d kf)),
      b94_encode = (\<lambda>d kf n. ref_encode d kf),
      b94_decode = ref_decode,
      b94_decimal_encode = ref_decimal_encode,
      b94_decimal_decode = ref_decimal_decode\<rparr>"

subsection \<open>The payload coder\<close>

lemma unat_sym: "d < 224 \<Longrightarrow> unat (b94_sym d) = 0x20 + d"
  unfolding b94_sym_def by (intro unat_of_nat_small) simp

lemma sym_bounds:
  fixes v :: nat
  assumes "v < 256" "93 \<le> v"
  shows "v div 93 - 1 + 93 < 224" "v div 93 - 1 + 93 \<le> 94" "v mod 93 < 224"
    "((v div 93 - 1 + 93 - 93) + 1) * 93 + v mod 93 = v"
proof -
  have "v div 93 \<le> 255 div 93" using assms(1) by (intro div_le_mono) simp
  then have d: "1 \<le> v div 93" "v div 93 \<le> 2" using assms(2) div_le_mono [of 93 v 93] by simp_all
  then show "v div 93 - 1 + 93 < 224" "v div 93 - 1 + 93 \<le> 94" by linarith+
  show "v mod 93 < 224" by (rule less_trans [of _ 93]) simp_all
  show "((v div 93 - 1 + 93 - 93) + 1) * 93 + v mod 93 = v"
    using d(1) div_mult_mod_eq [of v 93] by simp
qed

lemma ref_encode_byte_decode:
  "ref_decode (ref_encode_byte kf b @ cs) kf = map_option (Cons b) (ref_decode cs kf)"
proof -
  define v where "v = unat (b - ucast kf)"
  have v: "v < 256" unfolding v_def by (rule unat_lt_u8)
  have b: "of_nat v + ucast kf = b" by (simp add: v_def)
  show ?thesis
  proof (cases "93 \<le> v")
    case False
    then show ?thesis
      using b unat_sym [of v] by (simp add: ref_encode_byte_def Let_def v_def [symmetric])
  next
    case True
    define q r where "q = v div 93 - 1" and "r = v mod 93"
    note sb = sym_bounds [OF v True, folded q_def r_def]
    have q: "q \<le> 1" and r: "r < 93" using sb(2) by (simp_all add: r_def)
    have e: "(q + 1) * 93 + r = v" using sb(4) by simp
    have "ref_encode_byte kf b = [b94_sym (q + 93), b94_sym r]"
      using True by (simp add: ref_encode_byte_def Let_def v_def [symmetric] q_def r_def)
    moreover have "unat (b94_sym (q + 93)) = 125 + q" "unat (b94_sym r) = 32 + r"
      using q r unat_sym [of "q + 93"] unat_sym [of r] by simp_all
    ultimately show ?thesis
      using q r e v b by (simp add: Let_def add.commute)
  qed
qed

lemma ref_decode_encode: "ref_decode (ref_encode data kf) kf = Some data"
  by (induction data) (simp_all add: ref_encode_def ref_encode_byte_decode)

lemma length_ref_encode_byte: "1 \<le> length (ref_encode_byte kf b)" "length (ref_encode_byte kf b) \<le> 2"
  by (simp_all add: ref_encode_byte_def Let_def)

lemma length_ref_encode:
  "length data \<le> length (ref_encode data kf) \<and> length (ref_encode data kf) \<le> 2 * length data"
proof (induction data)
  case (Cons b data)
  then show ?case
    using length_ref_encode_byte [where kf = kf and b = b] by (simp add: ref_encode_def)
qed (simp add: ref_encode_def)

lemma printable_sym: "d \<le> 94 \<Longrightarrow> printable (b94_sym d)"
  using unat_sym [of d] by (simp add: printable_unat)

lemma printable_ref_encode_byte: "list_all printable (ref_encode_byte kf b)"
proof -
  define v where "v = unat (b - ucast kf)"
  have v: "v < 256" unfolding v_def by (rule unat_lt_u8)
  have "v mod 93 \<le> 94" by (rule less_imp_le, rule less_trans [of _ 93]) simp_all
  then show ?thesis
    using sym_bounds(2) [OF v]
    by (simp add: ref_encode_byte_def Let_def v_def [symmetric] printable_sym)
qed

lemma printable_ref_encode: "list_all printable (ref_encode data kf)"
  using printable_ref_encode_byte by (induction data) (simp_all add: ref_encode_def)

subsection \<open>The decimal coder\<close>

lemma ref_digits_3:
  assumes "n < 94 ^ 3"
  shows "ref_digits n =
    (if n < 94 then [n]
     else if n < 94 ^ 2 then [n div 94, n mod 94]
     else [n div 94 ^ 2, n div 94 mod 94, n mod 94])"
proof -
  have d1: "n div 94 < 94 \<longleftrightarrow> n < 94 ^ 2" by (simp add: div_less_iff_less_mult power2_eq_square)
  have d2: "n div 94 div 94 < 94"
    using assms by (simp add: div_mult2_eq [symmetric] div_less_iff_less_mult)
  show ?thesis
    using d1 d2
    by (simp add: ref_digits.simps [of n] ref_digits.simps [of "n div 94"]
        ref_digits.simps [of "n div 8836"] div_mult2_eq [symmetric] power2_eq_square)
qed

lemma ref_decimal_value:
  assumes "\<forall>d \<in> set ds. d < 94"
  shows "ref_decimal_decode (map b94_sym ds) = Some (of_nat (fold (\<lambda>d n. n * 94 + d) ds 0))"
proof -
  have u: "unat (b94_sym d) = 0x20 + d" if "d \<in> set ds" for d
    using assms that by (intro unat_sym) force
  then have "list_all (\<lambda>c. 0x20 \<le> unat c \<and> unat c - 0x20 < 94) (map b94_sym ds)"
    using assms by (auto simp: list_all_iff)
  moreover have "fold (\<lambda>c n. n * 94 + (unat c - 0x20)) (map b94_sym ds) a =
      fold (\<lambda>d n. n * 94 + d) ds a" for a
    using u by (induction ds arbitrary: a) simp_all
  ultimately show ?thesis by (simp add: ref_decimal_decode_def)
qed

lemma three_digit_value:
  fixes n :: nat
  shows "(n div 94 ^ 2 * 94 + n div 94 mod 94) * 94 + n mod 94 = n"
proof -
  have "n div 94 ^ 2 * 94 + n div 94 mod 94 = n div 94"
    by (metis div_mult2_eq div_mult_mod_eq power2_eq_square)
  then show ?thesis by simp
qed

lemma reference_decimal_ok: "b94_decimal_ok reference_b94"
  unfolding b94_decimal_ok_def Let_def
proof (intro allI impI)
  fix n :: u64
  assume n: "unat n < 94 ^ 3"
  let ?ds = "ref_digits (unat n)"
  let ?pad = "replicate (3 - length ?ds) 0 @ ?ds"
  have hi: "unat n div 94 ^ 2 < 94" using n by (simp add: div_less_iff_less_mult)
  have len: "1 \<le> length ?ds" "length ?ds \<le> 3" by (simp_all add: ref_digits_3 [OF n])
  have small: "\<forall>d \<in> set ?ds. d < 94"
    using hi n by (auto simp: ref_digits_3 [OF n] div_less_iff_less_mult power2_eq_square)
  have val: "fold (\<lambda>d n. n * 94 + d) ?pad 0 = unat n"
    using three_digit_value [of "unat n"] by (simp add: ref_digits_3 [OF n] numeral_2_eq_2)
  have lead: "length ?ds = 3 \<longrightarrow> hd ?ds \<noteq> 0 \<and> hd ?ds < 94"
    using hi by (auto simp: ref_digits_3 [OF n] div_eq_0_iff)
  have s0: "b94_sym 0 = 0x20" by (simp add: b94_sym_def)
  have pad: "replicate k 0x20 @ map b94_sym ?ds = map b94_sym (replicate k 0 @ ?ds)" for k
    by (simp add: s0)
  have "\<forall>d \<in> set ?pad. d < 94" using small by auto
  then have dec: "ref_decimal_decode (map b94_sym ?pad) = Some n"
    using ref_decimal_value [of ?pad] by (simp only: val) simp
  have nz: "b94_sym d \<noteq> 0x20" if "d \<noteq> 0" "d < 94" for d
    using unat_sym [of d] that by auto
  show "1 \<le> length (b94_decimal_encode reference_b94 n) \<and>
      length (b94_decimal_encode reference_b94 n) \<le> 3 \<and>
      list_all printable (b94_decimal_encode reference_b94 n) \<and>
      (length (b94_decimal_encode reference_b94 n) = 3 \<longrightarrow>
         hd (b94_decimal_encode reference_b94 n) \<noteq> 0x20) \<and>
      b94_decimal_decode reference_b94
        (replicate (3 - length (b94_decimal_encode reference_b94 n)) 0x20 @
         b94_decimal_encode reference_b94 n) = Some n"
  proof (intro conjI impI)
    show "list_all printable (b94_decimal_encode reference_b94 n)"
      using small by (force simp: reference_b94_def ref_decimal_encode_def list_all_iff
          intro: printable_sym)
    assume "length (b94_decimal_encode reference_b94 n) = 3"
    then show "hd (b94_decimal_encode reference_b94 n) \<noteq> 0x20"
      using lead nz by (cases ?ds) (auto simp: reference_b94_def ref_decimal_encode_def)
  next
    show "b94_decimal_decode reference_b94
        (replicate (3 - length (b94_decimal_encode reference_b94 n)) 0x20 @
         b94_decimal_encode reference_b94 n) = Some n"
      using dec by (simp add: reference_b94_def ref_decimal_encode_def s0)
  qed (use len in \<open>simp_all add: reference_b94_def ref_decimal_encode_def\<close>)
qed

lemma reference_b94_ok: "base94_ok reference_b94"
  using reference_decimal_ok length_ref_encode printable_ref_encode ref_decode_encode
  by (simp add: base94_ok_def b94_payload_ok_def reference_b94_def)

end
