(* ===== verification/Core_Properties.thy ===== *)
theory Core_Properties
  imports Tunnel Base94_Reference
begin

text \<open>
  The properties of the protocol core and of the tunnel over it, with closed examples on a concrete
  environment: the reference base94 coder, a counting generator and simple arithmetic in place of
  the cryptographic primitives.
\<close>

subsection \<open>A concrete environment\<close>

definition demo_env :: "nat env_ops" where
  "demo_env = \<lparr>e_crypto = demo_crypto, e_b94 = reference_b94, e_rng = counter_rng\<rparr>"

lemma demo_env_ok: "env_ok demo_env"
  by (simp add: demo_env_def env_ok_def reference_b94_ok counter_rng_ok)

lemma demo_sync: "chan_sync (tx_new demo_env default_key r) (rx_new demo_env default_key)"
  by (rule tx_new_sync) (simp add: key_agree_def)

lemma default_key_valid: "validate default_key = Inr ()"
  by (simp add: validate_Inr default_key_def)

subsection \<open>Frames\<close>

text \<open>
  The encrypted three-byte header carries the length and the per-packet key: the receiver
  whose protocol cipher is in step recovers both, for every length the encoder accepts, and the
  ciphers stay in step.
\<close>

theorem binary_header_roundtrip:
  assumes "opt_sync e d" and "1 \<le> n" and "n \<le> PPP_BUFFER_SIZE"
  shows "\<exists>hdr hk rng' e' d'. header_encrypt cr R rng kf e n = (Inr (hdr, hk), rng', e') \<and>
    length hdr = HEADER_SIZE \<and> header_decrypt cr kf d hdr = (Inr (n, hk), d') \<and> opt_sync e' d'"
proof -
  obtain hdr hk rng' e' where enc: "header_encrypt cr R rng kf e n = (Inr (hdr, hk), rng', e')"
    using header_encrypt_ok [of n cr R rng kf e] assms(2,3) by auto
  then show ?thesis using header_roundtrip_lemma [OF assms(1) enc] by blast
qed

theorem binary_header_roundtrip_witness:
  "\<exists>hdr hk rng' e' d'. header_encrypt demo_crypto counter_rng 3 77 None 1500 =
      (Inr (hdr, hk), rng', e') \<and> length hdr = HEADER_SIZE \<and>
    header_decrypt demo_crypto 77 None hdr = (Inr (1500, hk), d') \<and> opt_sync e' d'"
  using binary_header_roundtrip [of None None 1500 demo_crypto counter_rng 3 77]
  by (simp add: np_consts)

text \<open>
  The payload chain (mask, shuffle, delta, each switched by its flag) is undone by its reverse,
  for every setting of the flags and every packet the protocol can carry, and keeps the length.
\<close>

theorem payload_chain_roundtrip:
  assumes "length xs \<le> PPP_BUFFER_SIZE"
  shows "payload_deobfuscate (payload_obfuscate xs fl hk kf) fl hk kf = xs \<and>
         payload_obfuscate (payload_deobfuscate xs fl hk kf) fl hk kf = xs \<and>
         length (payload_obfuscate xs fl hk kf) = length xs"
  using assms payload.dec_enc [of xs "(fl, hk, kf)"] payload.enc_dec [of xs "(fl, hk, kf)"]
  by (simp add: np_consts)

theorem payload_chain_roundtrip_witness:
  "payload_deobfuscate (payload_obfuscate [1, 2, 3, 4, 5] FLAGS_SAFEST 9 7) FLAGS_SAFEST 9 7 =
   [1, 2, 3, 4, 5]"
  using payload_chain_roundtrip [of "[1, 2, 3, 4, 5]" FLAGS_SAFEST 9 7] by (simp add: np_consts)

text \<open>
  C20.  A framed packet is delivered: the frame is printable ASCII throughout, the receiver's peek
  knows its exact length even with more bytes behind it, the blocking reader and the in-memory
  decoder both return the packet, and the two framers agree again on what the next frame looks like.
\<close>

theorem base94_frame_delivery:
  assumes "base94_ok B" and "rng_ok R" and "framer_sync fr rx"
    and "bin \<noteq> []" and "2 * length bin \<le> BASE94_MAX_FRAME"
  shows "\<exists>frame rng' fr' rx'. encode_frame B R fr rng out bin = (Inr (), rng', fr', out @ frame) \<and>
    list_all printable frame \<and>
    peek_frame_len B rx (frame @ rest) = Inr (Some (length frame)) \<and>
    decode_packet_into B rx frame = (Inr bin, rx') \<and>
    (tr_in io = frame @ rest \<longrightarrow> read_frame_into B rx io = (Inr bin, rx', io\<lparr>tr_in := rest\<rparr>)) \<and>
    framer_sync fr' rx'"
  using encode_frame_ok [OF assms, of rng out] frame_for_peek [of B rx _ bin rest]
    frame_for_decode_packet [of B rx _ bin] frame_for_read_frame [of B rx _ bin io rest]
    framer_sync_advance [OF assms(3)]
  by metis

theorem base94_frame_delivery_witness:
  "\<exists>frame rng' fr' rx'. encode_frame reference_b94 counter_rng (framer_new 5) 0 [] [1, 2, 200] =
      (Inr (), rng', fr', frame) \<and> list_all printable frame \<and>
    decode_packet_into reference_b94 (framer_new 5) frame = (Inr [1, 2, 200], rx')"
  using base94_frame_delivery [OF reference_b94_ok counter_rng_ok framer_new_sync, of "[1, 2, 200]"
      5 0 "[]" "[]" fresh_io]
  by (auto simp: np_consts)

text \<open>
  For every \<open>kf\<close> the length modulus lies between its documented bounds and exceeds the residue
  added to the lengths, so that no length field of a legal frame ever aliases another.
\<close>

theorem framer_modulus_bounds:
  "unat MOD_MIN \<le> unat (fr_mod (framer_new kf)) \<and> unat (fr_mod (framer_new kf)) \<le> unat MOD_MAX \<and>
   unat (fr_kf_mod (framer_new kf)) < unat (fr_mod (framer_new kf))"
  using framer_new_wf [of kf] by (simp add: framer_wf_def)

text \<open>
  A failed receive leaves the framer as it was: neither the in-memory decoder nor the blocking
  reader advances the first-frame flag unless the whole frame validated.
\<close>

theorem failed_receive_keeps_framer:
  "(\<forall>e rx'. decode_packet_into B rx p = (Inl e, rx') \<longrightarrow> rx' = rx) \<and>
   (\<forall>e rx' io'. read_frame_into B rx io = (Inl e, rx', io') \<longrightarrow> rx' = rx)"
  using decode_packet_error_keeps_framer [of B rx p] read_frame_error_keeps_framer [of B rx io]
  by blast

theorem failed_receive_keeps_framer_witness:
  "decode_packet_into reference_b94 (framer_new 5) [0x20] = (Inl InvalidFrame, framer_new 5)"
proof -
  have "decode_packet_into reference_b94 (framer_new 5) [0x20] =
      (Inl InvalidFrame, snd (decode_packet_into reference_b94 (framer_new 5) [0x20]))"
    by (simp add: decode_packet_into_def rx_header_len_def np_consts)
  then show ?thesis
    using failed_receive_keeps_framer [of reference_b94 "framer_new 5" "[0x20]" fresh_io] by metis
qed

subsection \<open>The handshake vocabulary\<close>

lemma unat_canary_kf: "unat (canary_kf key) = unat (take_bit 12 (ok_kf key))"
proof -
  have "canary_kf key = ucast (take_bit 12 (ok_kf key))"
    by (simp add: canary_kf_def take_bit_eq_mask mask_numeral)
  then show ?thesis by (simp only:) (rule unat_ucast_up, simp)
qed

text \<open>
  The flag canary carries its 48-bit magic and agrees between two keys exactly when the four
  data-plane switches and the low twelve bits of \<open>kf\<close> agree: no other field influences it.
\<close>

theorem flag_canary_separates:
  "flag_canary k1 AND CANARY_MAGIC_MASK = CANARY_MAGIC \<and>
   (flag_canary k1 = flag_canary k2 \<longleftrightarrow>
      ok_masked k1 = ok_masked k2 \<and> ok_plaintext k1 = ok_plaintext k2 \<and>
      ok_delta_encode k1 = ok_delta_encode k2 \<and> ok_shuffle_data k1 = ok_shuffle_data k2 \<and>
      take_bit 12 (ok_kf k1) = take_bit 12 (ok_kf k2))"
proof -
  have "canary_kf k1 = canary_kf k2 \<longleftrightarrow> take_bit 12 (ok_kf k1) = take_bit 12 (ok_kf k2)"
    by (simp add: word_unat_eq_iff unat_canary_kf)
  then show ?thesis
    using flag_canary_magic [of k1] flag_canary_eq_iff [of k1 k2] canary_switches_eq [of k1 k2]
    by auto
qed

text \<open>
  A session-id packet unpacks to its id and a noise packet to a dummy, under every receiver
  key: the configured \<open>kf\<close> cancels out of the exclusive-or rounds, as the sources remark.  The
  packet, padding included, stays far below the frame limit.
\<close>

theorem session_packet_roundtrip:
  assumes "rng_ok R" and "pack_session_id R rng key sid = (packet, rng')"
  shows "unpack_session_id key' packet = Inr (if sid = 0 then Dummy else Session sid) \<and>
         5 \<le> length packet \<and> length packet \<le> 1500"
  using pack_real_unpack [OF assms(1) _ assms(2)] pack_dummy_unpack [OF assms(1)]
    pack_length [OF assms] assms(2)
  by auto

theorem session_packet_roundtrip_witness:
  "unpack_session_id (default_key\<lparr>ok_kf := 1\<rparr>) (fst (pack_session_id counter_rng 0 default_key 42)) =
   Inr (Session 42)"
  using session_packet_roundtrip [OF counter_rng_ok, of 0 default_key 42
      "fst (pack_session_id counter_rng 0 default_key 42)"
      "snd (pack_session_id counter_rng 0 default_key 42)" "default_key\<lparr>ok_kf := 1\<rparr>"]
  by simp

text \<open>
  The noise prelude of a validated key has between 1 and 749 packets, and never more than the
  number of dummies a receiver with the same exponents is willing to skip.
\<close>

theorem nop_prelude_within_budget:
  assumes "rng_ok R" and "validate key = Inr ()"
  shows "1 \<le> fst (nop_rounds R rng key) \<and> fst (nop_rounds R rng key) \<le> 749 \<and>
         fst (nop_rounds R rng key) \<le> max_nop_packets key"
  using nop_rounds_bounds [OF assms prod.collapse [symmetric]] by simp

theorem nop_prelude_within_budget_witness:
  "fst (nop_rounds counter_rng 0 default_key) \<le> max_nop_packets default_key"
  using nop_prelude_within_budget [OF counter_rng_ok default_key_valid, of 0] by simp

subsection \<open>The data plane\<close>

text \<open>
  Message delivery: a non-empty message of at most \<open>PPP_BUFFER_SIZE\<close> bytes is always encrypted;
  the peer's blocking reader and in-memory decrypter return exactly that message, both consume
  exactly the packet, and the two cores are in step again.  It holds before and after the
  handshake and in both framings; in base94 framing every wire byte is printable.
\<close>

theorem message_delivery:
  assumes "env_ok E" and "chan_sync tx rx"
    and "0 < length prefix + length payload" and "length prefix + length payload \<le> PPP_BUFFER_SIZE"
  shows "\<exists>wire tx' rx'. encrypt_into_prefixed E tx out prefix payload = (Inr (), tx', out @ wire) \<and>
    rx_decrypt E rx wire = (Inr (prefix @ payload), rx') \<and>
    (\<forall>io rest. tr_in io = wire @ rest \<longrightarrow>
       rx_read_buf E rx io = (Inr (prefix @ payload), rx', io\<lparr>tr_in := rest\<rparr>)) \<and>
    chan_sync tx' rx' \<and> (base94_mode rx \<longrightarrow> list_all printable wire)"
proof -
  obtain wire tx' rx' where w: "encrypt_impl E tx out prefix payload = (Inr (), tx', out @ wire)"
    "wire_for E rx wire (prefix @ payload) rx'" "chan_sync tx' rx'"
    "base94_mode rx \<longrightarrow> list_all printable wire"
    using encrypt_impl_ok [OF assms] by blast
  then show ?thesis
    using wire_for_decrypt [OF w(2)] wire_for_read_buf [OF w(2)]
    by (intro exI [of _ wire] exI [of _ tx'] exI [of _ rx']) (simp add: encrypt_into_prefixed_def)
qed

theorem message_delivery_witness:
  "\<exists>wire tx' rx'.
     encrypt_into_prefixed demo_env (tx_new demo_env default_key 0) [] [7] [1, 2, 3] =
       (Inr (), tx', wire) \<and>
     rx_decrypt demo_env (rx_new demo_env default_key) wire = (Inr [7, 1, 2, 3], rx') \<and>
     list_all printable wire"
  using message_delivery [OF demo_env_ok demo_sync, of "[7]" "[1, 2, 3]" 0 "[]"]
  by (auto simp: np_consts base94_mode_def rx_new_def)

text \<open>
  Messages that cannot be framed are refused before anything happens: the empty message with
  \<open>ZeroLength\<close>, a longer one than \<open>PPP_BUFFER_SIZE\<close> with its length; ciphers, generator and output
  are untouched.
\<close>

theorem unframeable_messages_refused:
  "encrypt_into E tx out [] = (Inl ZeroLength, tx, out) \<and>
   (PPP_BUFFER_SIZE < length m \<longrightarrow>
      encrypt_into E tx out m = (Inl (FrameTooLarge (length m)), tx, out))"
  using encrypt_impl_errors(1) [of E tx out] encrypt_impl_errors(2) [of "[]" m E tx out]
  by (simp add: encrypt_into_def)

theorem unframeable_messages_refused_witness:
  "encrypt_into demo_env (tx_new demo_env default_key 0) [] (replicate 65537 0) =
   (Inl (FrameTooLarge 65537), tx_new demo_env default_key 0, [])"
proof -
  have "length (replicate 65537 (0 :: u8)) = 65537" by (rule length_replicate)
  then show ?thesis
    using unframeable_messages_refused [of demo_env "tx_new demo_env default_key 0" "[]"
        "replicate 65537 0"]
    by (simp only: np_consts)
qed

text \<open>
  C4.  Stream delivery: any sequence of sendable messages encrypted one after the other is read back
  in order from the concatenated bytes, with exactly the bytes behind them left over.
\<close>

theorem message_stream_delivery:
  assumes "env_ok E" and "chan_sync tx rx" and "list_all sendable ms"
  shows "\<exists>wires tx' rx'. encrypt_seq E tx out ms = (Inr (), tx', out @ wires) \<and> chan_sync tx' rx' \<and>
    (\<forall>io rest. tr_in io = wires @ rest \<longrightarrow>
       read_seq E rx io (length ms) = (ms, rx', io\<lparr>tr_in := rest\<rparr>))"
  by (rule stream_delivery [OF assms])

theorem message_stream_delivery_witness:
  "\<exists>wires tx' rx'. encrypt_seq demo_env (tx_new demo_env default_key 0) [] [[1], [2, 3]] =
      (Inr (), tx', wires) \<and>
    read_seq demo_env (rx_new demo_env default_key) (fresh_io\<lparr>tr_in := wires\<rparr>) 2 =
      ([[1], [2, 3]], rx', fresh_io)"
proof -
  have "list_all sendable [[1], [2, 3]]" by (simp add: sendable_def np_consts)
  from message_stream_delivery [OF demo_env_ok demo_sync this, of 0 "[]"]
  obtain wires tx' rx' where
    "encrypt_seq demo_env (tx_new demo_env default_key 0) [] [[1], [2, 3]] = (Inr (), tx', wires)"
    "read_seq demo_env (rx_new demo_env default_key) (fresh_io\<lparr>tr_in := wires\<rparr>) (Suc (Suc 0)) =
      ([[1], [2, 3]], rx', fresh_io\<lparr>tr_in := wires, tr_in := []\<rparr>)"
    by (auto simp del: read_seq.simps)
  then show ?thesis by (auto simp: numeral_2_eq_2 fresh_io_def simp del: read_seq.simps)
qed

subsection \<open>The handshake\<close>

text \<open>The canary only depends on fields that two agreeing keys share.\<close>

lemma key_agree_flag_canary: "key_agree True kc ks \<Longrightarrow> flag_canary ks = flag_canary kc"
  by (simp add: key_agree_def flag_canary_def)

text \<open>
  C5.  The handshake establishes a session: with agreeing keys and a role the server allows, the
  client's send phase, the server and the client's confirm phase all succeed; both ends know the
  server's session id, both switched to the data plane, and both directions are in step.  The client's
  send phase chose a nonzero \<open>ivv\<close> that carries the role, and all eight ciphers of the two ends are
  the ones derived from the passwords and that \<open>ivv\<close>: none of the pre-handshake ciphers is left.
\<close>

theorem handshake_establishes_session:
  assumes "env_ok E" and "key_agree True kc ks" and "max_nop_packets kc = max_nop_packets ks"
    and "validate kc = Inr ()" and "validate ks = Inr ()" and "sid \<noteq> 0"
    and "role = MuxTunnel \<or> allow_bond"
  shows "\<exists>c s c1 ivv. run_handshake E kc ks rc rs role sid allow_bond =
      (Inr (), Inr role, Inr sid, c, s) \<and>
    handshake_client_send E role (with_rng E fresh_io kc rc) = (Inr (), c1) \<and>
    t_pending c1 = Some (ivv, role) \<and> ivv \<noteq> 0 \<and> role_from_ivv ivv = role \<and>
    keyed_by E kc ivv c \<and> keyed_by E ks ivv s \<and>
    chan_sync (t_tx c) (t_rx s) \<and> chan_sync (t_tx s) (t_rx c) \<and>
    is_handshaked c \<and> is_handshaked s \<and> t_session_id c = sid \<and> t_session_id s = sid"
proof -
  have "key_agree False kc ks" using assms(2) by (simp add: key_agree_def)
  moreover have "effective_role role allow_bond = role"
    using assms(7) by (auto simp: effective_role_def)
  ultimately show ?thesis
    using run_handshake_full [OF assms(1) _ assms(3-6), where role = role and allow_bond = allow_bond and rc = rc and rs = rs]
      key_agree_flag_canary [OF assms(2)]
    by simp blast
qed

theorem handshake_establishes_session_witness:
  "\<exists>c s ivv. run_handshake demo_env default_key default_key 0 1 BondLink 77 True =
      (Inr (), Inr BondLink, Inr 77, c, s) \<and> chan_sync (t_tx c) (t_rx s) \<and>
     ivv \<noteq> 0 \<and> keyed_by demo_env default_key ivv c \<and> keyed_by demo_env default_key ivv s"
  using handshake_establishes_session [OF demo_env_ok _ _ default_key_valid default_key_valid,
      of 77 BondLink True 0 1]
  by (auto simp: key_agree_def)



text \<open>
  C33.  A bond link is refused by a server that does not allow bonding: the server downgrades the
  session to a plain tunnel and says so in the parity, and the client ends with \<open>RoleRefused\<close>.
\<close>

theorem handshake_refuses_bond_role:
  assumes "env_ok E" and "key_agree True kc ks" and "max_nop_packets kc = max_nop_packets ks"
    and "validate kc = Inr ()" and "validate ks = Inr ()" and "sid \<noteq> 0"
  shows "\<exists>c s. run_handshake E kc ks rc rs BondLink sid False =
      (Inr (), Inr MuxTunnel, Inl RoleRefused, c, s)"
proof -
  have "key_agree False kc ks" using assms(2) by (simp add: key_agree_def)
  then show ?thesis
    using run_handshake_result [OF assms(1) _ assms(3-6), where role = BondLink and allow_bond = False and rc = rc and rs = rs]
      key_agree_flag_canary [OF assms(2)]
    by (auto simp: effective_role_def)
qed

theorem handshake_refuses_bond_role_witness:
  "\<exists>c s. run_handshake demo_env default_key default_key 3 4 BondLink 9 False =
      (Inr (), Inr MuxTunnel, Inl RoleRefused, c, s)"
  using handshake_refuses_bond_role [OF demo_env_ok _ _ default_key_valid default_key_valid,
      of 9 3 4]
  by (auto simp: key_agree_def)

text \<open>
  C34.  A peer cannot hold the handshake open with noise: a reader that receives one dummy packet
  more than its budget gives up with the documented error.
\<close>

theorem dummy_flood_is_bounded:
  assumes "env_ok E" and "chan_sync (t_tx a) (t_rx b)" and "tr_out_room (t_io a) = None"
    and "tr_out (t_io a) = []"
    and "send_nops E (Suc (max_nop_packets (tx_key (t_tx b)))) a = (r, a')"
  shows "r = Inr () \<and>
    (\<exists>b'. read_session_id E (b\<lparr>t_io := (t_io b)\<lparr>tr_in := tr_out (t_io a') @ rest\<rparr>\<rparr>) =
       (Inl (HandshakeFailed ''too many dummy packets''), b'))"
proof -
  obtain w ps rx' where w: "r = Inr ()" "wrote a a' w" "stream_for E (t_rx b) w ps rx'"
    "length ps = Suc (max_nop_packets (tx_key (t_tx b)))" "list_all (\<lambda>p. means_id p 0) ps"
    using send_nops_ok [OF assms(1-3), of "Suc (max_nop_packets (tx_key (t_tx b)))"] assms(5) by auto
  have "tr_out (t_io a') = w" using wroteD(4) [OF w(2)] assms(4) by simp
  then show ?thesis
    using w(1) read_session_id_loop_flood [of E "b\<lparr>t_io := (t_io b)\<lparr>tr_in := w @ rest\<rparr>\<rparr>" w ps rx' rest,
        OF _ _ w(5,4)] w(3)
    by (simp add: read_session_id_def)
qed

theorem dummy_flood_is_bounded_witness:
  "\<exists>b'. read_session_id demo_env
      ((with_rng demo_env fresh_io default_key 0)\<lparr>t_io := fresh_io\<lparr>tr_in := tr_out (t_io (snd
         (send_nops demo_env (Suc (max_nop_packets default_key))
            (with_rng demo_env fresh_io default_key 5))))\<rparr>\<rparr>) =
    (Inl (HandshakeFailed ''too many dummy packets''), b')"
proof -
  let ?a = "with_rng demo_env fresh_io default_key 5" and ?b = "with_rng demo_env fresh_io default_key 0"
  let ?n = "Suc (max_nop_packets (tx_key (t_tx ?b)))"
  have "chan_sync (t_tx ?a) (t_rx ?b)" using demo_sync by simp
  then show ?thesis
    using dummy_flood_is_bounded [OF demo_env_ok, of ?a ?b "fst (send_nops demo_env ?n ?a)"
        "snd (send_nops demo_env ?n ?a)" "[]"]
    by simp
qed

subsection \<open>The event-driven paths\<close>

text \<open>
  C7.  Incremental decoding does not depend on how the carrier cuts the stream: for every division
  of the bytes of a message sequence into non-empty chunks, polling and draining as the
  callers do yields exactly the messages in order, ends with an empty buffer, and never trips the
  reassembly limit.
\<close>

theorem session_any_chunking:
  assumes "env_ok E" and "chan_sync tx rx" and "list_all sendable ms"
    and "encrypt_seq E tx [] ms = (r, tx', wires)" and "concat cs = wires" and "[] \<notin> set cs"
  shows "r = Inr () \<and>
    (\<exists>s'. next_seq (session_step E) (length ms) (ss_rx (from_cores tx0 rx sid)) [] (map Chunk cs) =
       (ms, s', [], []))"
proof -
  obtain w rx' where w: "r = Inr ()" "wires = w" "frames_of (wire_for E) rx w ms rx'"
    using encrypt_seq_frames [OF assms(1-3), of "[]"] assms(4) by auto
  obtain s' buf' p' cs' where n: "next_seq (session_step E) (length ms) (ss_rx (from_cores tx0 rx sid)) []
      (map Chunk cs @ []) = (ms, s', buf', map Chunk cs' @ [])"
    "session_rep E s' buf' rx' p'" "p' @ concat cs' = []" "[] \<notin> set cs'"
    using sess.next_messages [OF session_rep_new [of E tx0 rx sid] w(3), where cs = cs and rest = "[]" and tail = "[]"]
      assms(5,6) w(2) by auto
  have "cs' = []" using n(3,4) by (cases cs') auto
  moreover have "buf' = []" using session_size [OF n(2)] n(3) by simp
  ultimately show ?thesis using n(1) w(1) by auto
qed

theorem session_any_chunking_witness:
  "\<exists>s'. next_seq (session_step demo_env) 2
      (ss_rx (from_cores (tx_new demo_env default_key 0) (rx_new demo_env default_key) 1)) []
      (map (\<lambda>b. Chunk [b]) (snd (snd (encrypt_seq demo_env (tx_new demo_env default_key 0) []
         [[1], [2, 3]])))) = ([[1], [2, 3]], s', [], [])"
proof -
  let ?x = "encrypt_seq demo_env (tx_new demo_env default_key 0) [] [[1], [2, 3]]"
  let ?cs = "map (\<lambda>b. [b]) (snd (snd ?x))"
  have "list_all sendable [[1], [2, 3]]" by (simp add: sendable_def np_consts)
  moreover have "concat ?cs = snd (snd ?x)" "[] \<notin> set ?cs" by auto
  ultimately show ?thesis
    using session_any_chunking [OF demo_env_ok demo_sync, of "[[1], [2, 3]]" 0 "fst ?x"
        "fst (snd ?x)" "snd (snd ?x)" ?cs "tx_new demo_env default_key 0" 1]
    by (simp add: numeral_2_eq_2 comp_def del: next_seq.simps encrypt_seq.simps)
qed

lemma tunnel_frames_arrive:
  assumes "env_ok E" and "chan_sync tx rx" and "tr_out_room sock = None" and "tr_out sock = []"
    and "list_all (\<lambda>(k, sid, p). length p \<le> PPP_BUFFER_SIZE - 6) (concat reqs)"
    and "run_writer E (TxSession tx) sock (map (map to_out_frame) reqs) = (wire, sock')"
    and "concat cs = tr_out sock'" and "[] \<notin> set cs"
  shows "\<exists>msgs s'. next_seq (reader_step E) (length (concat reqs))
      (RxSession (ss_rx (from_cores tx0 rx sid))) [] (map Chunk cs) = (msgs, s', [], []) \<and>
    map parse_frame msgs = map Inr (concat reqs)"
proof -
  let ?fs = "concat (map (map to_out_frame) reqs)"
  have fs: "?fs = map to_out_frame (concat reqs)" by (simp add: map_concat)
  have "list_all frame_fits ?fs"
    using assms(5) to_out_frame_fits unfolding fs by (fastforce simp: list_all_iff)
  then obtain w rx' where w: "sock' = sock\<lparr>tr_out := w\<rparr>"
    "frames_of (wire_for E) rx w (map frame_msg ?fs) rx'"
    using run_writer_session [OF assms(1-3), of "map (map to_out_frame) reqs"] assms(4,6) by auto
  have rep: "reader_session_rep E (RxSession (ss_rx (from_cores tx0 rx sid))) [] rx []"
    using session_rep_new by (auto simp: reader_session_rep_def)
  obtain s' buf' p' cs' where n: "next_seq (reader_step E) (length (map frame_msg ?fs))
      (RxSession (ss_rx (from_cores tx0 rx sid))) [] (map Chunk cs @ []) =
        (map frame_msg ?fs, s', buf', map Chunk cs' @ [])"
    "reader_session_rep E s' buf' rx' p'" "p' @ concat cs' = []" "[] \<notin> set cs'"
    using rd_sess.next_messages [OF rep w(2), of cs "[]" "[]"] assms(7,8) w(1) by auto
  have "cs' = []" using n(3,4) by (cases cs') auto
  moreover have "buf' = []" using rd_sess.size [OF n(2)] n(3) by simp
  moreover have "map parse_frame (map frame_msg ?fs) = map Inr (concat reqs)"
    unfolding fs by (simp add: parse_to_out_frame)
  moreover have "length (map frame_msg ?fs) = length (concat reqs)" unfolding fs by simp
  ultimately show ?thesis using n(1) by auto
qed

text \<open>
  Multiplexed frames queued at one end of a session tunnel arrive at the other: however the
  writer batches them into writes and however the carrier cuts the bytes, the reader returns one
  message per frame, in order, and each parses to the kind, stream and payload queued.
\<close>

theorem tunnel_delivers_mux_frames:
  assumes "env_ok E" and "chan_sync tx rx" and "tr_out_room sock = None" and "tr_out sock = []"
    and "list_all (\<lambda>(k, sid, p). length p \<le> PPP_BUFFER_SIZE - 6) (concat reqs)"
    and "run_writer E (TxSession tx) sock (map (map to_out_frame) reqs) = (wire, sock')"
    and "concat cs = tr_out sock'" and "[] \<notin> set cs"
  shows "\<exists>msgs s'. next_seq (reader_step E) (length (concat reqs))
      (RxSession (ss_rx (from_cores tx0 rx sid))) [] (map Chunk cs) = (msgs, s', [], []) \<and>
    map parse_frame msgs = map Inr (concat reqs)"
  by (rule tunnel_frames_arrive [OF assms])

theorem tunnel_delivers_mux_frames_witness:
  "\<exists>msgs s'. next_seq (reader_step demo_env) 2
      (RxSession (ss_rx (from_cores (tx_new demo_env default_key 0) (rx_new demo_env default_key) 1)))
      [] (map (\<lambda>b. Chunk [b]) (tr_out (snd (run_writer demo_env
         (TxSession (tx_new demo_env default_key 0)) fresh_io
         (map (map to_out_frame) [[(KData, 1, [5]), (KEof, 1, [])]]))))) = (msgs, s', [], []) \<and>
    map parse_frame msgs = [Inr (KData, 1, [5]), Inr (KEof, 1, [])]"
proof -
  let ?reqs = "[[(KData, 1, [5]), (KEof, 1, [])]] :: (frame_kind \<times> stream_id \<times> bytes) list list"
  let ?x = "run_writer demo_env (TxSession (tx_new demo_env default_key 0)) fresh_io
         (map (map to_out_frame) ?reqs)"
  let ?cs = "map (\<lambda>b. [b]) (tr_out (snd ?x))"
  have "concat ?cs = tr_out (snd ?x)" "[] \<notin> set ?cs" by auto
  moreover have "list_all (\<lambda>(k, sid, p). length p \<le> PPP_BUFFER_SIZE - 6) (concat ?reqs)"
    by (simp add: np_consts)
  ultimately show ?thesis
    using tunnel_delivers_mux_frames [OF demo_env_ok demo_sync, of fresh_io ?reqs 0 "fst ?x" "snd ?x"
        ?cs "tx_new demo_env default_key 0" 1]
    by (simp add: numeral_2_eq_2 comp_def del: next_seq.simps)
qed

lemma prefix_frames_arrive:
  assumes w: "frames_of prefix_frame () out (map frame_msg (map to_out_frame reqs)) ()"
    and "concat cs = out" and "[] \<notin> set cs"
  shows "\<exists>msgs s'. next_seq (reader_step E) (length reqs) RxPrefix [] (map Chunk cs) = (msgs, s', [], []) \<and>
    map parse_frame msgs = map Inr reqs"
proof -
  let ?fs = "map to_out_frame reqs"
  have rep: "reader_prefix_rep RxPrefix [] () []" by (simp add: reader_prefix_rep_def prefix_rep_def)
  obtain s' buf' p' cs' where n: "next_seq (reader_step E) (length (map frame_msg ?fs)) RxPrefix []
      (map Chunk cs @ []) = (map frame_msg ?fs, s', buf', map Chunk cs' @ [])"
    "reader_prefix_rep s' buf' () p'" "p' @ concat cs' = []" "[] \<notin> set cs'"
    using rd_pref.next_messages [OF rep w, of cs "[]" E "[]"] assms(2,3) by auto
  have "cs' = []" using n(3,4) by (cases cs') auto
  moreover have "buf' = []" using rd_pref.size [OF n(2)] n(3) by simp
  moreover have "map parse_frame (map frame_msg ?fs) = map Inr reqs"
    by (simp add: parse_to_out_frame)
  ultimately show ?thesis using n(1) by auto
qed

lemma to_out_frames_fit:
  "list_all (\<lambda>(k, sid, p). length p \<le> PPP_BUFFER_SIZE - 6) reqs \<Longrightarrow> list_all frame_fits (map to_out_frame reqs)"
  using to_out_frame_fits by (fastforce simp: list_all_iff)

text \<open>
  The same for the length-prefix framing of bonded carriers: one round of the writer followed
  by any chunking of its bytes yields the frames, and they parse to what was queued.
\<close>

theorem prefix_tunnel_delivers_mux_frames:
  assumes "list_all (\<lambda>(k, sid, p). length p \<le> PPP_BUFFER_SIZE - 6) reqs"
    and "encode_batch E TxPrefix [] (map to_out_frame reqs) = (ok, wire, out)"
    and "concat cs = out" and "[] \<notin> set cs"
  shows "ok \<and> (\<exists>msgs s'. next_seq (reader_step E) (length reqs) RxPrefix [] (map Chunk cs) =
      (msgs, s', [], []) \<and> map parse_frame msgs = map Inr reqs)"
proof -
  have "ok" "frames_of prefix_frame () out (map frame_msg (map to_out_frame reqs)) ()"
    using encode_batch_prefix [OF to_out_frames_fit [OF assms(1)], of E "[]"] assms(2) by auto
  then show ?thesis using prefix_frames_arrive [OF _ assms(3,4)] by blast
qed

theorem prefix_tunnel_delivers_mux_frames_witness:
  "\<exists>msgs s'. next_seq (reader_step demo_env) 1 RxPrefix []
      [Chunk (snd (snd (encode_batch demo_env TxPrefix [] (map to_out_frame [(KData, 3, [8])]))))] =
      (msgs, s', [], []) \<and> map parse_frame msgs = [Inr (KData, 3, [8])]"
proof -
  let ?x = "encode_batch demo_env TxPrefix [] (map to_out_frame [(KData, 3, [8])])"
  have "snd (snd ?x) \<noteq> []"
    by (simp add: to_out_frame_def wire_encode_def Let_def out_frame_new_def frame_header_def np_consts
        encode_varint.simps [of 3])
  then show ?thesis
    using prefix_tunnel_delivers_mux_frames [of "[(KData, 3, [8])]" demo_env "fst ?x" "fst (snd ?x)"
        "snd (snd ?x)" "[snd (snd ?x)]"]
    by (simp add: np_consts del: next_seq.simps encode_batch.simps)
qed

end
