(* ===== verification/Proxy_Stream.thy ===== *)
theory Proxy_Stream
  imports Server Core_Properties
begin

text \<open>
  One proxied stream across the whole system: the pump at the sending end, the tunnel that carries its
  frames among those of other streams, the demultiplexer and the pump at the receiving end.
\<close>

section \<open>From frames to events\<close>

definition of_stream :: "stream_id \<Rightarrow> mux_frame list \<Rightarrow> mux_frame list" where
  "of_stream sid fs = filter (\<lambda>f. fst (snd f) = sid) fs"

lemma ev_bytes_prefix: "prefix es es' \<Longrightarrow> prefix (ev_bytes es) (ev_bytes es')"
proof (induction es arbitrary: es')
  case (Cons e es)
  then show ?case by (cases es'; cases e) auto
qed simp

lemma stream_event_bytes:
  "prefix (ev_bytes (concat (map (frame_event sid) fs))) (data_bytes (of_stream sid fs))"
  by (induction fs) (auto simp: of_stream_def frame_event_def split: prod.split)

text \<open>The messages the demultiplexer sees in an execution.\<close>

fun demux_msgs :: "server_op list \<Rightarrow> bytes list" where
  "demux_msgs [] = []"
| "demux_msgs (OpDemux (DemuxFrame msg oc full) # ops) = msg # demux_msgs ops"
| "demux_msgs (_ # ops) = demux_msgs ops"

lemma op_events_of_msgs:
  "map parse_frame (demux_msgs ops) = map Inr fs \<Longrightarrow>
    concat (map (op_event sid) ops) = concat (map (frame_event sid) fs)"
proof (induction ops arbitrary: fs rule: demux_msgs.induct)
  case (2 msg oc full ops)
  then show ?case by (cases fs) (auto simp: op_event_def)
qed (auto simp: op_event_def)

text \<open>The receiving end: what the target gets is a prefix of the data that arrived for the stream.\<close>

lemma receiver_prefix:
  assumes "registry_ok c0" and "hm_get (sv_registry c0) sid = Some n" and "sv_open c0"
    and "delivered_to n c0 = []" and "map parse_frame (demux_msgs ops) = map Inr fs"
  shows "\<exists>w. tr_out (ps_wr (pump_stream sid turns
      (pump_init reads (delivered_to n (server_run rt ops c0)) ch wr))) = tr_out wr @ w \<and>
    prefix w (data_bytes (of_stream sid fs))"
proof -
  have "prefix (delivered_to n (server_run rt ops c0)) (concat (map (frame_event sid) fs))"
    using demux_prefix [OF assms(1-3), of rt ops] assms(4) op_events_of_msgs [OF assms(5)] by auto
  then have "prefix (ev_bytes (delivered_to n (server_run rt ops c0))) (data_bytes (of_stream sid fs))"
    using ev_bytes_prefix stream_event_bytes prefix_order.trans by blast
  with pump_down_prefix show ?thesis using prefix_order.trans by blast
qed

end
