(* ===== verification/Pool.thy ===== *)
theory Pool
  imports Server
begin

text \<open>
  The client's tunnel pool (\<open>client/src/pool.rs\<close>).  First one tunnel: its stream table, its waiters for
  OPEN replies and its load counter, changed by the callers that open and drop streams and by the reader
  task.  Then the pool: the choice of a tunnel, from counters and two looks at the list that other threads
  may change in between, and the maintainer that refills it while dial tasks finish on other threads.
\<close>

section \<open>One tunnel\<close>

text \<open>
  A caller of \<open>open\<close>, from the allocation of its stream id to the drop of the stream it got: begun (the
  id is registered, OPEN not yet queued), waiting for the reply, holding the stream, done.
\<close>

datatype call_phase = CallBegun | CallWaiting | CallOpen | CallDone

record open_call =
  cl_sid :: stream_id
  cl_phase :: call_phase

record tunnel =
  tn_out :: out_chan
  tn_registry :: "(stream_id, nat) hash_map"
  tn_pending :: "(stream_id, nat) hash_map"
  tn_next_stream :: u32
  tn_streams :: u32
  tn_alive :: bool
  tn_reader :: bool
  tn_teardown :: bool
  tn_pooled :: bool
  tn_calls :: "open_call list"
  tn_delivered :: "(nat \<times> stream_event) list"
  tn_replies :: "(nat \<times> bool) list"
  tn_died :: nat

definition spawn_tunnel :: "out_chan \<Rightarrow> bool \<Rightarrow> bool \<Rightarrow> tunnel" where
  "spawn_tunnel out teardown pooled =
     \<lparr>tn_out = out, tn_registry = [], tn_pending = [], tn_next_stream = 0, tn_streams = 0,
      tn_alive = True, tn_reader = True, tn_teardown = teardown, tn_pooled = pooled, tn_calls = [],
      tn_delivered = [], tn_replies = [], tn_died = 0\<rparr>"

text \<open>\<open>died\<close> counts the wake-ups of the maintainer; a dedicated tunnel has no pool to notify.\<close>

definition mark_dead :: "tunnel \<Rightarrow> tunnel" where
  "mark_dead t =
     (if \<not> tn_alive t then t
      else t\<lparr>tn_alive := False, tn_pending := [], tn_registry := [],
             tn_died := (if tn_pooled t then Suc (tn_died t) else tn_died t)\<rparr>)"

definition kill :: "tunnel \<Rightarrow> tunnel" where
  "kill t = (mark_dead t)\<lparr>tn_teardown := False, tn_reader := False\<rparr>"

definition alloc_stream :: "tunnel \<Rightarrow> stream_id \<times> tunnel" where
  "alloc_stream t = (tn_next_stream t + 1, t\<lparr>tn_next_stream := tn_next_stream t + 1\<rparr>)"

definition unregister :: "stream_id \<Rightarrow> tunnel \<Rightarrow> tunnel" where
  "unregister sid t =
     t\<lparr>tn_pending := hm_remove sid (tn_pending t), tn_registry := hm_remove sid (tn_registry t),
       tn_streams := tn_streams t - 1\<rparr>"

definition call_of :: "tunnel \<Rightarrow> nat \<Rightarrow> open_call option" where
  "call_of t i = (if i < length (tn_calls t) then Some (tn_calls t ! i) else None)"

definition set_call :: "nat \<Rightarrow> call_phase \<Rightarrow> tunnel \<Rightarrow> tunnel" where
  "set_call i ph t = t\<lparr>tn_calls := (tn_calls t)[i := (tn_calls t ! i)\<lparr>cl_phase := ph\<rparr>]\<rparr>"

text \<open>\<open>open\<close> in three parts: registration, the queued OPEN, and the reply, its absence or its time-out.\<close>

definition open_begin :: "tunnel \<Rightarrow> tunnel" where
  "open_begin t =
     (let (sid, t1) = alloc_stream t; i = length (tn_calls t)
      in t1\<lparr>tn_pending := hm_insert sid i (tn_pending t1), tn_registry := hm_insert sid i (tn_registry t1),
            tn_streams := tn_streams t1 + 1,
            tn_calls := tn_calls t1 @ [\<lparr>cl_sid = sid, cl_phase = CallBegun\<rparr>]\<rparr>)"

definition open_send :: "nat \<Rightarrow> proxy_addr \<Rightarrow> tunnel \<Rightarrow> tunnel" where
  "open_send i addr t =
     (case call_of t i of
        Some c \<Rightarrow>
          if cl_phase c \<noteq> CallBegun then t
          else (case chan_send (out_frame_new KOpen (cl_sid c) (addr_encode_into addr [])) (tn_out t) of
                  (True, ch) \<Rightarrow> set_call i CallWaiting (t\<lparr>tn_out := ch\<rparr>)
                | (False, ch) \<Rightarrow> set_call i CallDone (mark_dead (unregister (cl_sid c) (t\<lparr>tn_out := ch\<rparr>))))
      | None \<Rightarrow> t)"

datatype open_outcome = ReplyOk | ReplyRefused | WaiterDropped | ReplyTimeout

definition open_finish :: "nat \<Rightarrow> open_outcome \<Rightarrow> bool \<Rightarrow> tunnel \<Rightarrow> tunnel" where
  "open_finish i outcome full t =
     (case call_of t i of
        Some c \<Rightarrow>
          if cl_phase c \<noteq> CallWaiting then t
          else (case outcome of
                  ReplyOk \<Rightarrow> set_call i CallOpen t
                | ReplyRefused \<Rightarrow> set_call i CallDone (unregister (cl_sid c) t)
                | WaiterDropped \<Rightarrow> set_call i CallDone (unregister (cl_sid c) t)
                | ReplyTimeout \<Rightarrow>
                    (let t1 = unregister (cl_sid c) t
                     in set_call i CallDone
                          (t1\<lparr>tn_out := chan_try_send full (out_frame_bare KClose (cl_sid c)) (tn_out t1)\<rparr>)))
      | None \<Rightarrow> t)"

text \<open>The drop of a stream.\<close>

definition stream_drop :: "nat \<Rightarrow> bool \<Rightarrow> bool \<Rightarrow> tunnel \<Rightarrow> tunnel" where
  "stream_drop i graceful full t =
     (case call_of t i of
        Some c \<Rightarrow>
          if cl_phase c \<noteq> CallOpen then t
          else let t1 = unregister (cl_sid c) t;
                   t2 = (if graceful then t1
                         else t1\<lparr>tn_out := chan_try_send full (out_frame_bare KClose (cl_sid c)) (tn_out t1)\<rparr>);
                   t3 = (if tn_pooled t2 then t2 else kill t2)
               in set_call i CallDone t3
      | None \<Rightarrow> t)"

text \<open>The reader task.\<close>

definition route_event :: "send_outcome \<Rightarrow> bool \<Rightarrow> stream_id \<Rightarrow> stream_event \<Rightarrow> tunnel \<Rightarrow> tunnel" where
  "route_event outcome full sid ev t =
     (let close = (\<lambda>t. t\<lparr>tn_out := chan_try_send full (out_frame_bare KClose sid) (tn_out t)\<rparr>)
      in case hm_get (tn_registry t) sid of
           Some i \<Rightarrow>
             (case outcome of
                SendOk \<Rightarrow> t\<lparr>tn_delivered := tn_delivered t @ [(i, ev)]\<rparr>
              | SendClosed \<Rightarrow> close (t\<lparr>tn_registry := hm_remove sid (tn_registry t)\<rparr>)
              | SendTimeout \<Rightarrow> close (t\<lparr>tn_registry := hm_remove sid (tn_registry t)\<rparr>))
         | None \<Rightarrow> close t)"

definition run_reader_step :: "demux_input \<Rightarrow> tunnel \<Rightarrow> tunnel" where
  "run_reader_step inp t =
     (if \<not> tn_reader t then t
      else let stop = (\<lambda>t. (mark_dead t)\<lparr>tn_reader := False\<rparr>)
      in case inp of
        DemuxFrame msg outcome full \<Rightarrow>
          (case parse_frame msg of
             Inr (KReply, sid, payload) \<Rightarrow>
               (case hm_get (tn_pending t) sid of
                  Some i \<Rightarrow>
                    t\<lparr>tn_pending := hm_remove sid (tn_pending t),
                      tn_replies := tn_replies t @ [(i, payload \<noteq> [] \<and> hd payload = REPLY_OK)]\<rparr>
                | None \<Rightarrow> t)
           | Inr (KData, sid, payload) \<Rightarrow> route_event outcome full sid (EvData payload) t
           | Inr (KEof, sid, _) \<Rightarrow> route_event outcome full sid EvEof t
           | Inr (KClose, sid, _) \<Rightarrow> t\<lparr>tn_registry := hm_remove sid (tn_registry t)\<rparr>
           | Inr (KOpen, _, _) \<Rightarrow> stop t
           | Inl e \<Rightarrow> stop t)
      | DemuxEof \<Rightarrow> stop t
      | DemuxErr e \<Rightarrow> stop t
      | DemuxWriterEnded \<Rightarrow> stop t)"

datatype tunnel_op =
  TopBegin
| TopSend nat proxy_addr
| TopFinish nat open_outcome bool
| TopDrop nat bool bool
| TopReader demux_input
| TopKill

fun tunnel_op_step :: "tunnel_op \<Rightarrow> tunnel \<Rightarrow> tunnel" where
  "tunnel_op_step TopBegin t = open_begin t"
| "tunnel_op_step (TopSend i addr) t = open_send i addr t"
| "tunnel_op_step (TopFinish i outcome full) t = open_finish i outcome full t"
| "tunnel_op_step (TopDrop i graceful full) t = stream_drop i graceful full t"
| "tunnel_op_step (TopReader inp) t = run_reader_step inp t"
| "tunnel_op_step TopKill t = kill t"

definition tunnel_run :: "tunnel_op list \<Rightarrow> tunnel \<Rightarrow> tunnel" where
  "tunnel_run ops t = fold tunnel_op_step ops t"

section \<open>The load counter and the stream tables\<close>

definition live_calls :: "tunnel \<Rightarrow> open_call list" where
  "live_calls t = filter (\<lambda>c. cl_phase c \<noteq> CallDone) (tn_calls t)"

definition live_sids :: "tunnel \<Rightarrow> stream_id set" where
  "live_sids t = cl_sid ` set (live_calls t)"

text \<open>
  The counter is the number of callers that are neither done nor failed, and every entry of the two
  tables belongs to one of them.
\<close>

definition tunnel_ok :: "tunnel \<Rightarrow> bool" where
  "tunnel_ok t \<longleftrightarrow>
     tn_streams t = of_nat (length (live_calls t)) \<and>
     {sid. hm_contains (tn_pending t) sid} \<subseteq> live_sids t \<and>
     {sid. hm_contains (tn_registry t) sid} \<subseteq> live_sids t"

lemma tunnel_ok_new: "tunnel_ok (spawn_tunnel out td pooled)"
  by (simp add: tunnel_ok_def spawn_tunnel_def live_calls_def)

lemma call_split:
  assumes "call_of t i = Some c"
  obtains xs ys where "tn_calls t = xs @ c # ys"
    "\<And>ph t'. tn_calls t' = tn_calls t \<Longrightarrow> tn_calls (set_call i ph t') = xs @ c\<lparr>cl_phase := ph\<rparr> # ys"
proof -
  have i: "i < length (tn_calls t)" "c = tn_calls t ! i"
    using assms by (auto simp: call_of_def split: if_splits)
  then have eq: "tn_calls t = take i (tn_calls t) @ c # drop (Suc i) (tn_calls t)"
    by (simp add: id_take_nth_drop)
  show ?thesis
    by (rule that [OF eq]) (use i in \<open>simp add: set_call_def upd_conv_take_nth_drop\<close>)
qed

lemma set_call_simps [simp]:
  "tn_streams (set_call i ph t) = tn_streams t" "tn_pending (set_call i ph t) = tn_pending t"
  "tn_registry (set_call i ph t) = tn_registry t"
  by (simp_all add: set_call_def)

text \<open>A caller moves on without ending.\<close>

lemma tunnel_ok_advance:
  assumes ok: "tunnel_ok t" and call: "call_of t i = Some c" "cl_phase c \<noteq> CallDone" "ph \<noteq> CallDone"
    and t': "tn_calls t' = tn_calls t" "tn_streams t' = tn_streams t" "tn_pending t' = tn_pending t"
      "tn_registry t' = tn_registry t"
  shows "tunnel_ok (set_call i ph t')"
proof -
  obtain xs ys where "tn_calls t = xs @ c # ys" "tn_calls (set_call i ph t') = xs @ c\<lparr>cl_phase := ph\<rparr> # ys"
    using call_split [OF call(1)] t'(1) by metis
  with ok call t' show ?thesis by (auto simp: tunnel_ok_def live_sids_def live_calls_def)
qed

text \<open>A caller ends: its load slot is freed and its entries are gone.\<close>

lemma tunnel_ok_done:
  assumes ok: "tunnel_ok t" and call: "call_of t i = Some c" "cl_phase c \<noteq> CallDone"
    and t': "tn_calls t' = tn_calls t" "tn_streams t' = tn_streams t - 1"
      "\<And>sid. hm_contains (tn_pending t') sid \<Longrightarrow> sid \<noteq> cl_sid c \<and> hm_contains (tn_pending t) sid"
      "\<And>sid. hm_contains (tn_registry t') sid \<Longrightarrow> sid \<noteq> cl_sid c \<and> hm_contains (tn_registry t) sid"
  shows "tunnel_ok (set_call i CallDone t')"
proof -
  obtain xs ys where xs: "tn_calls t = xs @ c # ys"
    "tn_calls (set_call i CallDone t') = xs @ c\<lparr>cl_phase := CallDone\<rparr> # ys"
    using call_split [OF call(1)] t'(1) by metis
  then have "live_sids t \<subseteq> insert (cl_sid c) (live_sids (set_call i CallDone t'))"
    "length (live_calls t) = Suc (length (live_calls (set_call i CallDone t')))"
    using call(2) by (auto simp: live_sids_def live_calls_def)
  with ok t' show ?thesis by (fastforce simp: tunnel_ok_def)
qed

text \<open>Everything else leaves the callers alone and only shrinks the tables.\<close>

lemma tunnel_ok_shrink:
  assumes "tunnel_ok t" and "tn_calls t' = tn_calls t" and "tn_streams t' = tn_streams t"
    and "\<And>sid. hm_contains (tn_pending t') sid \<Longrightarrow> hm_contains (tn_pending t) sid"
    and "\<And>sid. hm_contains (tn_registry t') sid \<Longrightarrow> hm_contains (tn_registry t) sid"
  shows "tunnel_ok t'"
  using assms by (auto simp: tunnel_ok_def live_sids_def live_calls_def)

lemma mark_dead_simps [simp]:
  "tn_calls (mark_dead t) = tn_calls t" "tn_streams (mark_dead t) = tn_streams t"
  "hm_contains (tn_pending (mark_dead t)) sid \<longleftrightarrow> \<not> tn_alive t \<and> hm_contains (tn_pending t) sid"
  "hm_contains (tn_registry (mark_dead t)) sid \<longleftrightarrow> \<not> tn_alive t \<and> hm_contains (tn_registry t) sid"
  by (simp_all add: mark_dead_def)

lemma kill_simps [simp]:
  "tn_calls (kill t) = tn_calls t" "tn_streams (kill t) = tn_streams t"
  "tn_pending (kill t) = tn_pending (mark_dead t)" "tn_registry (kill t) = tn_registry (mark_dead t)"
  by (simp_all add: kill_def)

lemma unregister_simps [simp]:
  "tn_calls (unregister sid t) = tn_calls t" "tn_streams (unregister sid t) = tn_streams t - 1"
  "tn_pending (unregister sid t) = hm_remove sid (tn_pending t)"
  "tn_registry (unregister sid t) = hm_remove sid (tn_registry t)"
  by (simp_all add: unregister_def)

lemma tunnel_ok_begin: "tunnel_ok t \<Longrightarrow> tunnel_ok (open_begin t)"
  by (auto simp: tunnel_ok_def open_begin_def alloc_stream_def live_sids_def live_calls_def Let_def)

lemma tunnel_ok_send: "tunnel_ok t \<Longrightarrow> tunnel_ok (open_send i addr t)"
  by (auto simp: open_send_def intro!: tunnel_ok_advance tunnel_ok_done [where t = t]
      split: option.split prod.split bool.split)

lemma tunnel_ok_finish: "tunnel_ok t \<Longrightarrow> tunnel_ok (open_finish i outcome full t)"
  by (auto simp: open_finish_def Let_def intro!: tunnel_ok_advance tunnel_ok_done [where t = t]
      split: option.split open_outcome.split)

lemma tunnel_ok_drop: "tunnel_ok t \<Longrightarrow> tunnel_ok (stream_drop i graceful full t)"
  by (auto simp: stream_drop_def Let_def intro!: tunnel_ok_done [where t = t]
      split: option.split)

lemma tunnel_ok_reader: "tunnel_ok t \<Longrightarrow> tunnel_ok (run_reader_step inp t)"
  by (auto simp: run_reader_step_def route_event_def Let_def intro!: tunnel_ok_shrink [where t = t]
      split: demux_input.split sum.split frame_kind.split option.split send_outcome.split)

lemma tunnel_ok_run: "tunnel_ok t \<Longrightarrow> tunnel_ok (tunnel_run ops t)"
proof (induction ops arbitrary: t)
  case (Cons op ops)
  have "tunnel_ok (kill t)" by (rule tunnel_ok_shrink [OF Cons.prems]) auto
  then have "tunnel_ok (tunnel_op_step op t)"
    using Cons.prems
    by (cases op) (auto simp: tunnel_ok_begin tunnel_ok_send tunnel_ok_finish tunnel_ok_drop tunnel_ok_reader)
  then show ?case using Cons.IH by (simp add: tunnel_run_def)
qed (simp add: tunnel_run_def)

text \<open>
  C13.  A client tunnel accounts for its streams exactly, in every interleaving of callers, reader and
  teardown: the load counter is the number of opens in progress and streams held, every entry of the
  reply and stream tables belongs to one of them, and once all of them are done the counter is zero
  and both tables are empty.
\<close>

theorem tunnel_load_exact:
  assumes "t = tunnel_run ops (spawn_tunnel out td pooled)"
  shows "tn_streams t = of_nat (length (live_calls t)) \<and>
    (\<forall>sid. hm_contains (tn_pending t) sid \<or> hm_contains (tn_registry t) sid \<longrightarrow> sid \<in> live_sids t) \<and>
    (live_calls t = [] \<longrightarrow> tn_streams t = 0 \<and>
      (\<forall>sid. hm_get (tn_pending t) sid = None \<and> hm_get (tn_registry t) sid = None))"
proof -
  have "tunnel_ok t" unfolding assms by (rule tunnel_ok_run) (rule tunnel_ok_new)
  then show ?thesis by (fastforce simp: tunnel_ok_def live_sids_def hm_contains_def)
qed

theorem tunnel_load_exact_witness:
  "tn_streams (tunnel_run [TopBegin, TopSend 0 demo_addr, TopFinish 0 ReplyOk False, TopDrop 0 True False]
     (spawn_tunnel \<lparr>ch_sent = [], ch_left = None\<rparr> False True)) = 0"
proof -
  let ?t = "tunnel_run [TopBegin, TopSend 0 demo_addr, TopFinish 0 ReplyOk False, TopDrop 0 True False]
     (spawn_tunnel \<lparr>ch_sent = [], ch_left = None\<rparr> False True)"
  have "live_calls ?t = []"
    by (simp add: tunnel_run_def spawn_tunnel_def open_begin_def alloc_stream_def open_send_def
        open_finish_def stream_drop_def call_of_def set_call_def chan_send_def unregister_def
        live_calls_def Let_def)
  then show ?thesis using tunnel_load_exact [OF refl] by blast
qed

section \<open>Choosing a tunnel\<close>

text \<open>\<open>Iterator::min_by_key\<close>: the first of the smallest.\<close>

fun min_by_key :: "('a \<Rightarrow> 'k::linorder) \<Rightarrow> 'a list \<Rightarrow> 'a option" where
  "min_by_key key [] = None"
| "min_by_key key (x # xs) =
     (case min_by_key key xs of
        None \<Rightarrow> Some x
      | Some y \<Rightarrow> if key y < key x then Some y else Some x)"

text \<open>
  One look at a tunnel of the list: the tunnel as \<open>alive\<close> found it, the load the filter read and the
  load the key function read.  The counters are atomics of the tunnels, not protected by the lock on the
  list, so the three reads are separate.
\<close>

record tunnel_look =
  lk_tunnel :: tunnel
  lk_load :: u32
  lk_key :: u32

definition pick :: "u32 \<Rightarrow> tunnel_look list \<Rightarrow> tunnel option" where
  "pick max_streams seen =
     map_option lk_tunnel
       (min_by_key lk_key (filter (\<lambda>l. tn_alive (lk_tunnel l) \<and> lk_load l < max_streams) seen))"

definition any_live :: "tunnel list \<Rightarrow> bool" where
  "any_live ts \<longleftrightarrow> list_ex tn_alive ts"

text \<open>
  One round of \<open>open_stream\<close>; \<open>remaining\<close> is what is left of the time to wait for a tunnel.  \<open>pick\<close> and
  \<open>any_live\<close> lock the list one after the other, so the tunnels \<open>live\<close> of the second look need not be
  those \<open>seen\<close> at the first.
\<close>

datatype open_round = RoundDedicated | RoundUse tunnel | RoundWait | RoundGiveUp

definition open_stream_round ::
  "u32 \<Rightarrow> u32 \<Rightarrow> nat \<Rightarrow> tunnel_look list \<Rightarrow> tunnel list \<Rightarrow> open_round" where
  "open_stream_round pool_size max_streams remaining seen live =
     (if pool_size = 0 then RoundDedicated
      else case pick max_streams seen of
             Some t \<Rightarrow> RoundUse t
           | None \<Rightarrow>
               if any_live live then RoundDedicated
               else if remaining = 0 then RoundGiveUp
               else RoundWait)"

lemma min_by_key_None: "min_by_key key xs = None \<longleftrightarrow> xs = []"
  by (cases xs) (auto split: option.split)

lemma min_by_key_Some: "min_by_key key xs = Some x \<Longrightarrow> x \<in> set xs \<and> (\<forall>y \<in> set xs. key x \<le> key y)"
proof (induction xs arbitrary: x)
  case (Cons a xs)
  show ?case
  proof (cases "min_by_key key xs")
    case None
    with Cons.prems show ?thesis by (simp add: min_by_key_None)
  next
    case (Some y)
    have y: "y \<in> set xs" "\<And>z. z \<in> set xs \<Longrightarrow> key y \<le> key z" using Cons.IH [OF Some] by auto
    show ?thesis
    proof (cases "key y < key a")
      case True
      with Cons.prems Some y show ?thesis by auto
    next
      case False
      then have "key a \<le> key z" if "z \<in> set xs" for z
        using y(2) [OF that] by (meson le_less_linear order_trans)
      with Cons.prems Some False show ?thesis by auto
    qed
  qed
qed simp

text \<open>Whether \<open>pick\<close> may take a tunnel, and the look at a tunnel that does not change meanwhile.\<close>

definition eligible :: "u32 \<Rightarrow> tunnel_look \<Rightarrow> bool" where
  "eligible max_streams l \<longleftrightarrow> tn_alive (lk_tunnel l) \<and> lk_load l < max_streams"

definition still :: "tunnel \<Rightarrow> tunnel_look" where
  "still t = \<lparr>lk_tunnel = t, lk_load = tn_streams t, lk_key = tn_streams t\<rparr>"

lemma still_sel [simp]: "lk_tunnel (still t) = t" "lk_load (still t) = tn_streams t" "lk_key (still t) = tn_streams t"
  by (simp_all add: still_def)

lemma pick_None: "pick max_streams seen = None \<longleftrightarrow> (\<forall>l \<in> set seen. \<not> eligible max_streams l)"
  by (auto simp: pick_def min_by_key_None filter_empty_conv eligible_def)

lemma pick_Some:
  assumes "pick max_streams seen = Some t"
  shows "\<exists>l \<in> set seen. lk_tunnel l = t \<and> eligible max_streams l \<and>
    (\<forall>l' \<in> set seen. eligible max_streams l' \<longrightarrow> lk_key l \<le> lk_key l')"
proof -
  from assms obtain l where "min_by_key lk_key (filter (eligible max_streams) seen) = Some l" "lk_tunnel l = t"
    by (auto simp: pick_def eligible_def [abs_def])
  with min_by_key_Some [OF this(1)] show ?thesis by auto
qed

text \<open>
  C14.  The pool serves a stream on a live tunnel below the stream cap whenever \<open>pick\<close> sees one, and on
  one with the smallest load it reads; it dials a dedicated tunnel only when every live tunnel of the
  first look was full and the second look finds a live one; and it waits or gives up only when every live
  tunnel of the first look was full and the second look finds no live tunnel.  When the pool does not move between the reads, the tunnel chosen is
  a least-loaded one of the pool, a dedicated tunnel means that all live tunnels are full, and waiting
  means that there is none.
\<close>

theorem pool_pick_least_loaded:
  assumes "pool_size \<noteq> 0"
  shows "(case open_stream_round pool_size max_streams remaining seen live of
      RoundUse t \<Rightarrow> \<exists>l \<in> set seen. lk_tunnel l = t \<and> tn_alive t \<and> lk_load l < max_streams \<and>
        (\<forall>l' \<in> set seen. tn_alive (lk_tunnel l') \<and> lk_load l' < max_streams \<longrightarrow> lk_key l \<le> lk_key l')
    | RoundDedicated \<Rightarrow> (\<exists>t \<in> set live. tn_alive t) \<and>
        (\<forall>l \<in> set seen. tn_alive (lk_tunnel l) \<longrightarrow> max_streams \<le> lk_load l)
    | RoundWait \<Rightarrow> (\<forall>l \<in> set seen. tn_alive (lk_tunnel l) \<longrightarrow> max_streams \<le> lk_load l) \<and>
        (\<forall>t \<in> set live. \<not> tn_alive t) \<and> 0 < remaining
    | RoundGiveUp \<Rightarrow> (\<forall>l \<in> set seen. tn_alive (lk_tunnel l) \<longrightarrow> max_streams \<le> lk_load l) \<and>
        (\<forall>t \<in> set live. \<not> tn_alive t) \<and> remaining = 0) \<and>
   (case open_stream_round pool_size max_streams remaining (map still ts) ts of
      RoundUse t \<Rightarrow> t \<in> set ts \<and> tn_alive t \<and> tn_streams t < max_streams \<and>
        (\<forall>t' \<in> set ts. tn_alive t' \<and> tn_streams t' < max_streams \<longrightarrow> tn_streams t \<le> tn_streams t')
    | RoundDedicated \<Rightarrow> (\<exists>t \<in> set ts. tn_alive t) \<and> (\<forall>t \<in> set ts. tn_alive t \<longrightarrow> max_streams \<le> tn_streams t)
    | RoundWait \<Rightarrow> (\<forall>t \<in> set ts. \<not> tn_alive t) \<and> 0 < remaining
    | RoundGiveUp \<Rightarrow> (\<forall>t \<in> set ts. \<not> tn_alive t) \<and> remaining = 0)"
proof -
  have moving: "case open_stream_round pool_size max_streams remaining seen live of
      RoundUse t \<Rightarrow> \<exists>l \<in> set seen. lk_tunnel l = t \<and> tn_alive t \<and> lk_load l < max_streams \<and>
        (\<forall>l' \<in> set seen. tn_alive (lk_tunnel l') \<and> lk_load l' < max_streams \<longrightarrow> lk_key l \<le> lk_key l')
    | RoundDedicated \<Rightarrow> (\<exists>t \<in> set live. tn_alive t) \<and>
        (\<forall>l \<in> set seen. tn_alive (lk_tunnel l) \<longrightarrow> max_streams \<le> lk_load l)
    | RoundWait \<Rightarrow> (\<forall>l \<in> set seen. tn_alive (lk_tunnel l) \<longrightarrow> max_streams \<le> lk_load l) \<and>
        (\<forall>t \<in> set live. \<not> tn_alive t) \<and> 0 < remaining
    | RoundGiveUp \<Rightarrow> (\<forall>l \<in> set seen. tn_alive (lk_tunnel l) \<longrightarrow> max_streams \<le> lk_load l) \<and>
        (\<forall>t \<in> set live. \<not> tn_alive t) \<and> remaining = 0" for seen live
  proof (cases "pick max_streams seen")
    case None
    then have "\<forall>l \<in> set seen. tn_alive (lk_tunnel l) \<longrightarrow> max_streams \<le> lk_load l"
      by (auto simp: pick_None eligible_def not_less)
    with None assms show ?thesis by (auto simp: open_stream_round_def any_live_def list_ex_iff)
  next
    case (Some t)
    with pick_Some [OF Some] assms show ?thesis
      by (simp add: open_stream_round_def eligible_def) blast
  qed
  show ?thesis
    using moving [where seen = seen and live = live] moving [where seen = "map still ts" and live = ts] by (auto split: open_round.split)
qed

theorem pool_pick_least_loaded_witness:
  "\<exists>t. open_stream_round 1 1 0 [still (spawn_tunnel \<lparr>ch_sent = [], ch_left = None\<rparr> False True)] [] = RoundUse t \<and>
    tn_alive t"
proof -
  let ?t = "spawn_tunnel \<lparr>ch_sent = [], ch_left = None\<rparr> False True"
  have "open_stream_round 1 1 0 [still ?t] [] = RoundUse ?t"
    by (simp add: open_stream_round_def pick_def spawn_tunnel_def)
  then show ?thesis
    using pool_pick_least_loaded [where pool_size = 1 and max_streams = 1 and remaining = 0
        and seen = "[still ?t]" and live = "[]"] by auto
qed

text \<open>
  The two looks do not add up to \<open>every live tunnel is full\<close>: with a dial task pushing its tunnel between
  them, \<open>open_stream\<close> dials a dedicated tunnel although the pool now holds a live and empty one.
\<close>

lemma dedicated_despite_idle_tunnel:
  assumes "pool_size \<noteq> 0" and "\<forall>t \<in> set ts. \<not> tn_alive t" and "t = spawn_tunnel out td True"
  shows "tn_alive t" and "tn_streams t = 0"
    and "open_stream_round pool_size max_streams remaining (map still ts) (ts @ [t]) = RoundDedicated"
  using assms
  by (auto simp: spawn_tunnel_def open_stream_round_def any_live_def list_ex_iff pick_def filter_map
      comp_def filter_empty_conv cong: filter_cong)

section \<open>The maintainer\<close>

text \<open>
  The pool by its numbers: live tunnels, the \<open>dialing\<close> counter, and how many dial tasks have pushed
  their tunnel but not yet given their count back (the push comes first, the guard drops at the end of
  the task).  The maintainer counts the live tunnels under the lock, then loads \<open>dialing\<close>, then raises
  the counter once per dial it spawns: atomic steps of their own, with the tasks on other threads running
  in between.  The sum of the two counts is a \<open>u32\<close> in the source; \<open>pool_sum_exact\<close> below shows that it does
  not wrap for a \<open>pool_size\<close> up to a third of that range, beyond which the model is not meant.
\<close>

datatype maintain_phase = MaintainIdle | Counted nat | Spawning nat

record pool_state =
  pl_live :: nat
  pl_dialing :: nat
  pl_pushed :: nat
  pl_phase :: maintain_phase

definition pool_new :: pool_state where
  "pool_new = \<lparr>pl_live = 0, pl_dialing = 0, pl_pushed = 0, pl_phase = MaintainIdle\<rparr>"

inductive pool_step :: "nat \<Rightarrow> pool_state \<Rightarrow> pool_state \<Rightarrow> bool" for pool_size where
  count: "pl_phase s = MaintainIdle \<Longrightarrow> pool_step pool_size s (s\<lparr>pl_phase := Counted (pl_live s)\<rparr>)"
| load: "pl_phase s = Counted live \<Longrightarrow>
    pool_step pool_size s (s\<lparr>pl_phase := Spawning (pool_size - (live + pl_dialing s))\<rparr>)"
| spawn: "pl_phase s = Spawning (Suc short) \<Longrightarrow>
    pool_step pool_size s (s\<lparr>pl_phase := Spawning short, pl_dialing := Suc (pl_dialing s)\<rparr>)"
| round_end: "pl_phase s = Spawning 0 \<Longrightarrow> pool_step pool_size s (s\<lparr>pl_phase := MaintainIdle\<rparr>)"
| push: "pl_pushed s < pl_dialing s \<Longrightarrow>
    pool_step pool_size s (s\<lparr>pl_live := Suc (pl_live s), pl_pushed := Suc (pl_pushed s)\<rparr>)"
| dial_failed: "pl_pushed s < pl_dialing s \<Longrightarrow>
    pool_step pool_size s (s\<lparr>pl_dialing := pl_dialing s - 1\<rparr>)"
| guard_drop: "0 < pl_pushed s \<Longrightarrow>
    pool_step pool_size s (s\<lparr>pl_pushed := pl_pushed s - 1, pl_dialing := pl_dialing s - 1\<rparr>)"
| tunnel_died: "0 < pl_live s \<Longrightarrow> pool_step pool_size s (s\<lparr>pl_live := pl_live s - 1\<rparr>)"

text \<open>Tunnels that live plus dials that may still add one.\<close>

definition pool_total :: "pool_state \<Rightarrow> nat" where
  "pool_total s = pl_live s + (pl_dialing s - pl_pushed s)"

definition pool_inv :: "nat \<Rightarrow> pool_state \<Rightarrow> bool" where
  "pool_inv pool_size s \<longleftrightarrow> pl_pushed s \<le> pl_dialing s \<and> pl_dialing s \<le> pool_size \<and>
     pool_total s \<le> 2 * pool_size \<and>
     (case pl_phase s of
        MaintainIdle \<Rightarrow> True
      | Counted live \<Rightarrow> pool_total s \<le> live + pool_size \<and> live \<le> 2 * pool_size
      | Spawning short \<Rightarrow> pl_dialing s + short \<le> pool_size \<and> pool_total s + short \<le> 2 * pool_size)"

lemma pool_inv_step: "pool_step P s s' \<Longrightarrow> pool_inv P s \<Longrightarrow> pool_inv P s'"
  by (induction rule: pool_step.induct) (auto simp: pool_inv_def pool_total_def split: maintain_phase.splits)

lemma pool_inv_reachable: "(pool_step P)\<^sup>*\<^sup>* pool_new s \<Longrightarrow> pool_inv P s"
proof (induction rule: rtranclp_induct)
  case base
  show ?case by (simp add: pool_inv_def pool_total_def pool_new_def)
next
  case (step y z)
  then show ?case by (blast intro: pool_inv_step)
qed

text \<open>The 32-bit sum of the maintainer is the sum of the numbers.\<close>

lemma pool_sum_exact:
  assumes "(pool_step P)\<^sup>*\<^sup>* pool_new s" and "pl_phase s = Counted live" and "3 * P < 2 ^ 32"
  shows "unat ((of_nat live :: u32) + of_nat (pl_dialing s)) = live + pl_dialing s"
proof -
  have "live + pl_dialing s < 2 ^ 32"
    using pool_inv_reachable [OF assms(1)] assms(2,3) by (simp add: pool_inv_def)
  then show ?thesis by (simp add: unat_of_nat take_bit_nat_eq_self flip: of_nat_add)
qed

text \<open>A run that ends with two live tunnels in a pool of one.\<close>

definition pool_at :: "nat \<Rightarrow> nat \<Rightarrow> nat \<Rightarrow> maintain_phase \<Rightarrow> pool_state" where
  "pool_at live dialing pushed ph = \<lparr>pl_live = live, pl_dialing = dialing, pl_pushed = pushed, pl_phase = ph\<rparr>"

lemma pool_at_steps:
  "pool_step P (pool_at l d p MaintainIdle) (pool_at l d p (Counted l))"
  "pool_step P (pool_at l d p (Counted k)) (pool_at l d p (Spawning (P - (k + d))))"
  "pool_step P (pool_at l d p (Spawning (Suc n))) (pool_at l (Suc d) p (Spawning n))"
  "pool_step P (pool_at l d p (Spawning 0)) (pool_at l d p MaintainIdle)"
  "p < d \<Longrightarrow> pool_step P (pool_at l d p ph) (pool_at (Suc l) d (Suc p) ph)"
  "pool_step P (pool_at l (Suc d) (Suc p) ph) (pool_at l d p ph)"
  using pool_step.count [of "pool_at l d p MaintainIdle" P] pool_step.load [of "pool_at l d p (Counted k)" k P]
    pool_step.spawn [of "pool_at l d p (Spawning (Suc n))" n P] pool_step.round_end [of "pool_at l d p (Spawning 0)" P]
    pool_step.push [of "pool_at l d p ph" P] pool_step.guard_drop [of "pool_at l (Suc d) (Suc p) ph" P]
  by (simp_all add: pool_at_def)

lemma pool_overshoot: "(pool_step 1)\<^sup>*\<^sup>* pool_new (pool_at 2 1 1 (Spawning 0))"
proof -
  have "(pool_step 1)\<^sup>*\<^sup>* (pool_at 0 0 0 MaintainIdle) (pool_at 0 1 0 (Spawning 0))"
    using pool_at_steps(1) [of 1 0 0 0] pool_at_steps(2) [of 1 0 0 0 0] pool_at_steps(3) [of 1 0 0 0 0]
    by (simp add: rtranclp.rtrancl_into_rtrancl [OF rtranclp.rtrancl_into_rtrancl [OF r_into_rtranclp]])
  moreover have "(pool_step 1)\<^sup>*\<^sup>* (pool_at 0 1 0 (Spawning 0)) (pool_at 0 1 0 (Counted 0))"
    using pool_at_steps(4) [of 1 0 1 0] pool_at_steps(1) [of 1 0 1 0]
    by (rule rtranclp.rtrancl_into_rtrancl [OF r_into_rtranclp])
  moreover have "(pool_step 1)\<^sup>*\<^sup>* (pool_at 0 1 0 (Counted 0)) (pool_at 1 0 0 (Counted 0))"
    using pool_at_steps(5) [of 0 1 1 0 "Counted 0"] pool_at_steps(6) [of 1 1 0 0 "Counted 0"]
    by (simp add: rtranclp.rtrancl_into_rtrancl [OF r_into_rtranclp])
  moreover have "(pool_step 1)\<^sup>*\<^sup>* (pool_at 1 0 0 (Counted 0)) (pool_at 2 1 1 (Spawning 0))"
    using pool_at_steps(2) [of 1 1 0 0 0] pool_at_steps(3) [of 1 1 0 0 0] pool_at_steps(5) [of 0 1 1 1 "Spawning 0"]
    by (simp add: numeral_2_eq_2 rtranclp.rtrancl_into_rtrancl [OF rtranclp.rtrancl_into_rtrancl [OF r_into_rtranclp]])
  moreover have "pool_new = pool_at 0 0 0 MaintainIdle" by (simp add: pool_new_def pool_at_def)
  ultimately show ?thesis by (metis rtranclp_trans)
qed

text \<open>
  C15.  The refill of the pool is bounded but not exact: in every interleaving of the maintainer, the
  dial tasks and dying tunnels there are at most \<open>pool_size\<close> dials in flight, and live tunnels and
  running dials together stay within twice \<open>pool_size\<close>; and the pool can exceed its size, because a
  dial that completes between the count of live tunnels and the load of \<open>dialing\<close> is counted by neither
  (a pool of one grows to two tunnels).
\<close>

theorem pool_refill_bounds:
  "((pool_step P)\<^sup>*\<^sup>* pool_new s \<longrightarrow> pl_dialing s \<le> P \<and> pl_live s + (pl_dialing s - pl_pushed s) \<le> 2 * P) \<and>
   (\<exists>s'. (pool_step 1)\<^sup>*\<^sup>* pool_new s' \<and> pl_live s' = 2)"
  using pool_inv_reachable [of P s] pool_overshoot
  by (auto simp: pool_inv_def pool_total_def intro!: exI [of _ "pool_at 2 1 1 (Spawning 0)"])
    (simp add: pool_at_def)

theorem pool_refill_bounds_witness:
  "(pool_step 1)\<^sup>*\<^sup>* pool_new (pool_at 2 1 1 (Spawning 0)) \<and> pl_live (pool_at 2 1 1 (Spawning 0)) = 2 \<and>
   pl_live (pool_at 2 1 1 (Spawning 0)) + (pl_dialing (pool_at 2 1 1 (Spawning 0)) -
     pl_pushed (pool_at 2 1 1 (Spawning 0))) \<le> 2 * 1"
  using pool_refill_bounds [of 1 "pool_at 2 1 1 (Spawning 0)"] pool_overshoot by (simp add: pool_at_def)

section \<open>Dialing\<close>

text \<open>The causes of an error of the core library: an I/O error is its own source.\<close>

definition core_causes :: "core_error \<Rightarrow> cause list" where
  "core_causes e = CauseCore e # (case e of Io k \<Rightarrow> [CauseIo k] | _ \<Rightarrow> [])"

text \<open>
  One attempt under the time left of the whole phase: connect, then the handshake.  A context added on
  the way is one more cause of the chain.
\<close>

definition dial_once ::
  "'r env_ops \<Rightarrow> obfuscation_key \<Rightarrow> session_role \<Rightarrow> 'r \<Rightarrow> (nat \<Rightarrow> error_kind + transport) \<Rightarrow> nat \<Rightarrow> nat \<Rightarrow>
   cause list + ('r session \<times> transport)" where
  "dial_once E key role rng connect connect_timeout remaining =
     (if remaining = 0 then Inl [CauseIo TimedOut]
      else case connect (min remaining connect_timeout) of
             Inl k \<Rightarrow> Inl [CauseOther, CauseIo k]
           | Inr io \<Rightarrow>
               (case handshake_client E role (with_rng E io key rng) of
                  (Inl e, t) \<Rightarrow> Inl (CauseOther # core_causes e)
                | (Inr _, t) \<Rightarrow> Inr (into_session t)))"

text \<open>\<open>dial_sync\<close>: \<open>attempt i\<close> is the outcome of the \<open>i\<close>-th attempt, \<open>clock i\<close> the time before it.\<close>

function dial_sync ::
  "(nat \<Rightarrow> cause list + 's) \<Rightarrow> (nat \<Rightarrow> nat) \<Rightarrow> nat \<Rightarrow> nat \<Rightarrow> nat \<Rightarrow> cause list option \<Rightarrow> cause list + 's" where
  "dial_sync attempt clock deadline retries i prev =
     (if clock i < deadline
      then case attempt i of
             Inr v \<Rightarrow> Inr v
           | Inl e \<Rightarrow>
               if retries \<le> i \<or> \<not> retryable e then Inl e
               else dial_sync attempt clock deadline retries (Suc i) (Some e)
      else Inl (CauseOther # (case prev of Some e \<Rightarrow> e | None \<Rightarrow> [CauseOther])))"
  by pat_completeness auto
termination by (relation "measure (\<lambda>(attempt, clock, deadline, retries, i, prev). Suc retries - i)") auto

declare dial_sync.simps [simp del]

lemma misconfiguration_not_retried:
  "\<not> retryable (CauseOther # core_causes FlagsMismatch)" "\<not> retryable (CauseOther # core_causes RoleRefused)"
  "\<not> retryable (CauseOther # core_causes ChecksumMismatch)"
  by (simp_all add: retryable_def is_clean_close_def core_causes_def protocol_faults_not_routine)

lemma dial_sync_success:
  "i \<le> retries \<Longrightarrow> dial_sync attempt clock deadline retries i prev = Inr v \<Longrightarrow>
    \<exists>k. i \<le> k \<and> k \<le> retries \<and> attempt k = Inr v \<and> clock k < deadline \<and>
      (\<forall>j. i \<le> j \<and> j < k \<longrightarrow> (\<exists>e. attempt j = Inl e \<and> retryable e))"
proof (induction attempt clock deadline retries i prev rule: dial_sync.induct)
  case (1 attempt clock deadline retries i prev)
  show ?case
  proof (cases "attempt i")
    case (Inr w)
    with "1.prems" show ?thesis
      by (intro exI [of _ i]) (auto simp: dial_sync.simps [of _ _ _ _ i] split: if_splits)
  next
    case (Inl e)
    with "1.prems"(2) have step: "clock i < deadline" "i < retries" "retryable e"
      "dial_sync attempt clock deadline retries (Suc i) (Some e) = Inr v"
      by (auto simp: dial_sync.simps [of _ _ _ _ i] split: if_splits)
    then obtain k where "Suc i \<le> k" "k \<le> retries" "attempt k = Inr v" "clock k < deadline"
      "\<forall>j. Suc i \<le> j \<and> j < k \<longrightarrow> (\<exists>e. attempt j = Inl e \<and> retryable e)"
      using "1.IH" Inl by auto
    with Inl step show ?thesis
      by (intro exI [of _ k]) (metis Suc_leD Suc_leI le_neq_implies_less)
  qed
qed

end
