(* ===== verification/Open_Stream.thy ===== *)
theory Open_Stream
  imports Pool
begin

text \<open>
  Opening a stream through the pool (\<open>Pool::open_stream\<close>, \<open>open_dedicated\<close> in \<open>client/src/pool.rs\<close>), over
  the tunnel operations and the choice of a tunnel.
\<close>

section \<open>The loop of open\_stream\<close>

text \<open>
  What one pass of the loop meets: the tunnels of the pool as \<open>pick\<close> and then as \<open>any_live\<close> look at
  them, the time left to wait, the result of \<open>open\<close> on the chosen tunnel and whether that tunnel is alive
  afterwards.
\<close>

record ('e, 's) open_pass =
  op_seen :: "tunnel_look list"
  op_live :: "tunnel list"
  op_remaining :: nat
  op_result :: "'e + 's"
  op_alive :: bool

datatype 'e open_error = NoPoolTunnel | OpenError 'e

text \<open>No passes left means that the call still waits.\<close>

fun open_stream ::
  "u32 \<Rightarrow> u32 \<Rightarrow> ('e + 's) \<Rightarrow> ('e, 's) open_pass list \<Rightarrow> ('e open_error + 's) option" where
  "open_stream pool_size max_streams dedicated [] = None"
| "open_stream pool_size max_streams dedicated (p # ps) =
     (case open_stream_round pool_size max_streams (op_remaining p) (op_seen p) (op_live p) of
        RoundDedicated \<Rightarrow> Some (case dedicated of Inl e \<Rightarrow> Inl (OpenError e) | Inr s \<Rightarrow> Inr s)
      | RoundGiveUp \<Rightarrow> Some (Inl NoPoolTunnel)
      | RoundWait \<Rightarrow> open_stream pool_size max_streams dedicated ps
      | RoundUse t \<Rightarrow>
          (case op_result p of
             Inr s \<Rightarrow> Some (Inr s)
           | Inl e \<Rightarrow>
               if \<not> op_alive p then open_stream pool_size max_streams dedicated ps
               else Some (Inl (OpenError e))))"

section \<open>Dedicated tunnels\<close>

text \<open>
  \<open>open_dedicated\<close> on a dialed tunnel: OPEN is queued, the reader task runs (\<open>inps\<close>), the reply arrives or
  not; a failed open kills the tunnel.
\<close>

definition call_holds :: "nat \<Rightarrow> tunnel \<Rightarrow> bool" where
  "call_holds i t \<longleftrightarrow> (case call_of t i of Some c \<Rightarrow> cl_phase c = CallOpen | None \<Rightarrow> False)"

definition open_dedicated ::
  "('e + out_chan \<times> bool) \<Rightarrow> proxy_addr \<Rightarrow> demux_input list \<Rightarrow> open_outcome \<Rightarrow> bool \<Rightarrow> ('e option + tunnel) \<times> tunnel option" where
  "open_dedicated dialed addr inps outcome full =
     (case dialed of
        Inl e \<Rightarrow> (Inl (Some e), None)
      | Inr (out, teardown) \<Rightarrow>
          let t = tunnel_run ([TopBegin, TopSend 0 addr] @ map TopReader inps @ [TopFinish 0 outcome full])
                    (spawn_tunnel out teardown False)
          in if call_holds 0 t then (Inr t, Some t) else (Inl None, Some (kill t)))"

section \<open>Properties\<close>

text \<open>A tunnel that is done: no reader task, no pending teardown, not alive.\<close>

definition tunnel_gone :: "tunnel \<Rightarrow> bool" where
  "tunnel_gone t \<longleftrightarrow> \<not> tn_alive t \<and> \<not> tn_reader t \<and> \<not> tn_teardown t"

lemma kill_gone: "tunnel_gone (kill t)"
  by (simp add: tunnel_gone_def kill_def mark_dead_def)

lemma pooled_kept: "tn_pooled (tunnel_op_step a t) = tn_pooled t"
  by (cases a)
    (auto simp: open_begin_def open_send_def open_finish_def stream_drop_def run_reader_step_def kill_def
      mark_dead_def unregister_def set_call_def alloc_stream_def route_event_def Let_def
      split: option.split open_outcome.split demux_input.split sum.split frame_kind.split prod.split bool.split
        send_outcome.split)

lemma pooled_kept_run: "tn_pooled (tunnel_run ops t) = tn_pooled t"
  by (induction ops arbitrary: t) (simp_all add: tunnel_run_def pooled_kept)

lemma reader_keeps_calls: "tn_calls (run_reader_step inp t) = tn_calls t"
  by (auto simp: run_reader_step_def mark_dead_def route_event_def Let_def
      split: option.split demux_input.split sum.split frame_kind.split prod.split send_outcome.split)

lemma reader_run_calls: "tn_calls (tunnel_run (map TopReader inps) t) = tn_calls t"
  by (induction inps arbitrary: t) (simp_all add: tunnel_run_def reader_keeps_calls)

lemma call_holds_calls: "tn_calls t = tn_calls t' \<Longrightarrow> call_holds i t = call_holds i t'"
  by (simp add: call_holds_def call_of_def)

lemma drop_dedicated_gone: "\<not> tn_pooled t \<Longrightarrow> call_holds i t \<Longrightarrow> tunnel_gone (stream_drop i graceful full t)"
  by (auto simp: stream_drop_def call_holds_def Let_def set_call_def unregister_def tunnel_gone_def kill_def
      mark_dead_def split: option.splits)

text \<open>
  C16.  A dedicated tunnel never outlives its stream: when the open fails in any way the tunnel is killed
  (not alive, reader aborted, teardown run); when it succeeds, the drop of the stream kills it, whatever
  the reader task received in between.
\<close>

theorem dedicated_tunnel_reclaimed:
  assumes "open_dedicated dialed addr inps outcome full = (r, kept)"
  shows "case kept of
      None \<Rightarrow> (\<exists>e. dialed = Inl e \<and> r = Inl (Some e))
    | Some t \<Rightarrow>
        (case r of
           Inl _ \<Rightarrow> tunnel_gone t
         | Inr t' \<Rightarrow> t' = t \<and> call_holds 0 t \<and>
             (\<forall>later graceful full'.
                tunnel_gone (stream_drop 0 graceful full' (tunnel_run (map TopReader later) t))))"
proof (cases dialed)
  case (Inl e)
  with assms show ?thesis by (auto simp: open_dedicated_def)
next
  case (Inr x)
  obtain out td where x: "x = (out, td)" by fastforce
  let ?t = "tunnel_run ([TopBegin, TopSend 0 addr] @ map TopReader inps @ [TopFinish 0 outcome full])
    (spawn_tunnel out td False)"
  have np: "\<not> tn_pooled (tunnel_run ops ?t)" for ops
    by (simp only: pooled_kept_run) (simp add: spawn_tunnel_def)
  show ?thesis
  proof (cases "call_holds 0 ?t")
    case True
    then have "call_holds 0 (tunnel_run (map TopReader later) ?t)" for later
      using call_holds_calls [OF reader_run_calls] by blast
    then have "tunnel_gone (stream_drop 0 graceful full' (tunnel_run (map TopReader later) ?t))" for later graceful full'
      using drop_dedicated_gone [OF np] by blast
    then show ?thesis using assms Inr x True by (auto simp: open_dedicated_def Let_def)
  next
    case False
    then show ?thesis using assms Inr x kill_gone by (auto simp: open_dedicated_def Let_def)
  qed
qed

theorem dedicated_tunnel_reclaimed_witness:
  "\<exists>t. open_dedicated (Inr (\<lparr>ch_sent = [], ch_left = None\<rparr>, True) :: unit + out_chan \<times> bool)
      \<lparr>pa_host = HostIp (IpV4 1), pa_port = 80\<rparr> [] ReplyOk False = (Inr t, Some t) \<and>
    tunnel_gone (stream_drop 0 True False t)"
proof -
  let ?d = "Inr (\<lparr>ch_sent = [], ch_left = None\<rparr>, True) :: unit + out_chan \<times> bool"
  let ?a = "\<lparr>pa_host = HostIp (IpV4 1), pa_port = 80\<rparr>"
  obtain t where t: "open_dedicated ?d ?a [] ReplyOk False = (Inr t, Some t)"
    by (simp add: open_dedicated_def tunnel_run_def Let_def open_begin_def alloc_stream_def open_send_def call_of_def
        spawn_tunnel_def chan_send_def set_call_def open_finish_def call_holds_def)
  have "\<forall>later graceful full. tunnel_gone (stream_drop 0 graceful full (tunnel_run (map TopReader later) t))"
    using dedicated_tunnel_reclaimed [OF t] by simp
  from this [rule_format, of True False "[]"] show ?thesis using t by (auto simp: tunnel_run_def)
qed

text \<open>The error of a tunnel that died during the open is never the answer: the loop goes on.\<close>

lemma open_stream_dead_retried:
  "open_stream_round pool_size max_streams (op_remaining p) (op_seen p) (op_live p) = RoundUse t \<Longrightarrow>
   op_result p = Inl e \<Longrightarrow> \<not> op_alive p \<Longrightarrow>
   open_stream pool_size max_streams dedicated (p # ps) = open_stream pool_size max_streams dedicated ps"
  by simp

lemma open_stream_error_source:
  "open_stream pool_size max_streams dedicated ps = Some (Inl e) \<Longrightarrow>
   (case e of
      NoPoolTunnel \<Rightarrow> pool_size \<noteq> 0 \<and> (\<exists>p \<in> set ps. op_remaining p = 0 \<and> \<not> any_live (op_live p))
    | OpenError x \<Rightarrow> dedicated = Inl x \<or> (\<exists>p \<in> set ps. op_result p = Inl x \<and> op_alive p))"
  by (induction pool_size max_streams dedicated ps rule: open_stream.induct)
    (auto simp: open_stream_round_def split: open_round.splits sum.splits if_splits option.splits open_error.splits)

end
