(* ===== verification/Socks5.thy ===== *)
theory Socks5
  imports Pool
begin

text \<open>
  The SOCKS5 inbound of the client (\<open>client/src/socks5.rs\<close>): method negotiation and the CONNECT request,
  with the replies it sends on every path.  The local socket is a transport; errors are the chains of
  causes the log classification looks at, a message without a recognised cause being one of no kind.
\<close>

section \<open>Constants and replies\<close>

definition SOCKS_VER :: u8 where [np_consts]: "SOCKS_VER = 0x05"
definition METHOD_NO_AUTH :: u8 where [np_consts]: "METHOD_NO_AUTH = 0x00"
definition METHOD_NONE_ACCEPTABLE :: u8 where [np_consts]: "METHOD_NONE_ACCEPTABLE = 0xff"
definition CMD_CONNECT :: u8 where [np_consts]: "CMD_CONNECT = 0x01"
definition REP_SUCCEEDED :: u8 where [np_consts]: "REP_SUCCEEDED = 0x00"
definition REP_GENERAL :: u8 where [np_consts]: "REP_GENERAL = 0x01"
definition REP_CMD_UNSUPPORTED :: u8 where [np_consts]: "REP_CMD_UNSUPPORTED = 0x07"
definition REP_ATYP_UNSUPPORTED :: u8 where [np_consts]: "REP_ATYP_UNSUPPORTED = 0x08"

text \<open>The I/O results of this module carry an error kind.\<close>

definition io_read :: "nat \<Rightarrow> transport \<Rightarrow> (error_kind + bytes) \<times> transport" where
  "io_read n t =
     (case read_exact n t of
        (Inr bs, t') \<Rightarrow> (Inr bs, t')
      | (Inl (Io k), t') \<Rightarrow> (Inl k, t')
      | (Inl _, t') \<Rightarrow> (Inl OtherKind, t'))"

definition io_write :: "bytes \<Rightarrow> transport \<Rightarrow> (error_kind + unit) \<times> transport" where
  "io_write bs t =
     (case write_all bs t of
        (Inr _, t') \<Rightarrow> (Inr (), t')
      | (Inl (Io k), t') \<Rightarrow> (Inl k, t')
      | (Inl _, t') \<Rightarrow> (Inl OtherKind, t'))"

definition reply_bytes :: "u8 \<Rightarrow> bytes" where
  "reply_bytes rep = [SOCKS_VER, rep, 0x00, ATYP_IPV4, 0, 0, 0, 0, 0, 0]"

definition reply :: "u8 \<Rightarrow> transport \<Rightarrow> (error_kind + unit) \<times> transport" where
  "reply rep t = io_write (reply_bytes rep) t"

section \<open>Negotiation and request\<close>

definition negotiate :: "transport \<Rightarrow> (error_kind + unit) \<times> transport" where
  "negotiate t =
     (case io_read 2 t of
        (Inl k, t1) \<Rightarrow> (Inl k, t1)
      | (Inr vn, t1) \<Rightarrow>
          if vn ! 0 \<noteq> SOCKS_VER then (Inl InvalidData, t1)
          else (case io_read (unat (vn ! 1)) t1 of
                  (Inl k, t2) \<Rightarrow> (Inl k, t2)
                | (Inr methods, t2) \<Rightarrow>
                    if METHOD_NO_AUTH \<notin> set methods
                    then (Inl InvalidData, snd (io_write [SOCKS_VER, METHOD_NONE_ACCEPTABLE] t2))
                    else io_write [SOCKS_VER, METHOD_NO_AUTH] t2))"

definition read_host :: "u8 \<Rightarrow> transport \<Rightarrow> (error_kind + host) \<times> transport" where
  "read_host atyp t =
     (if atyp = ATYP_IPV4
      then (case io_read 4 t of
              (Inl k, t1) \<Rightarrow> (Inl k, t1)
            | (Inr octets, t1) \<Rightarrow> (Inr (HostIp (IpV4 (from_be octets))), t1))
      else if atyp = ATYP_IPV6
      then (case io_read 16 t of
              (Inl k, t1) \<Rightarrow> (Inl k, t1)
            | (Inr octets, t1) \<Rightarrow> (Inr (HostIp (IpV6 (from_be octets))), t1))
      else if atyp = ATYP_DOMAIN
      then (case io_read 1 t of
              (Inl k, t1) \<Rightarrow> (Inl k, t1)
            | (Inr len, t1) \<Rightarrow>
                if len ! 0 = 0 then (Inl InvalidData, t1)
                else (case io_read (unat (len ! 0)) t1 of
                        (Inl k, t2) \<Rightarrow> (Inl k, t2)
                      | (Inr name, t2) \<Rightarrow>
                          if \<not> utf8_ok name then (Inl InvalidData, t2)
                          else if list_ex (\<lambda>b. \<not> domain_char b) name then (Inl InvalidData, t2)
                          else (Inr (Domain name), t2)))
      else (Inl InvalidData, t))"

definition read_addr :: "u8 \<Rightarrow> transport \<Rightarrow> (error_kind + proxy_addr) \<times> transport" where
  "read_addr atyp t =
     (case read_host atyp t of
        (Inl k, t1) \<Rightarrow> (Inl k, t1)
      | (Inr h, t1) \<Rightarrow>
          (case io_read 2 t1 of
             (Inl k, t2) \<Rightarrow> (Inl k, t2)
           | (Inr port, t2) \<Rightarrow> (Inr \<lparr>pa_host = h, pa_port = from_be port\<rparr>, t2)))"

definition read_connect :: "transport \<Rightarrow> (cause list + proxy_addr) \<times> transport" where
  "read_connect t =
     (case negotiate t of
        (Inl k, t1) \<Rightarrow> (Inl [CauseOther, CauseIo k], t1)
      | (Inr _, t1) \<Rightarrow>
          (case io_read 4 t1 of
             (Inl k, t2) \<Rightarrow> (Inl [CauseOther, CauseIo k], t2)
           | (Inr head, t2) \<Rightarrow>
               if head ! 0 \<noteq> SOCKS_VER then (Inl [CauseOther], t2)
               else if head ! 1 \<noteq> CMD_CONNECT then (Inl [CauseOther], snd (reply REP_CMD_UNSUPPORTED t2))
               else if head ! 2 \<noteq> 0 then (Inl [CauseOther], snd (reply REP_GENERAL t2))
               else (case read_addr (head ! 3) t2 of
                       (Inr addr, t3) \<Rightarrow> (Inr addr, t3)
                     | (Inl k, t3) \<Rightarrow>
                         (Inl [CauseOther, CauseIo k],
                          snd (reply (if k = InvalidData then REP_ATYP_UNSUPPORTED else REP_GENERAL) t3)))))"

text \<open>
  \<open>negotiate_and_forward\<close>: the pool's verdict decides the reply; the byte counters come from the pump.
  \<open>late\<close> is the connection as a negotiation that ran into its timeout left it: \<open>read_connect\<close> may have
  taken part of the request and written its method reply before it was dropped.
\<close>

record client_stats =
  cs_active :: u64
  cs_connections :: u64
  cs_tunnels :: u64
  cs_tunnel_failures :: u64
  cs_bytes_up :: u64
  cs_bytes_down :: u64

datatype pool_verdict = OpenFailed "cause list" | Opened pump_outcome

definition negotiate_and_forward ::
  "transport option \<Rightarrow> (proxy_addr \<Rightarrow> pool_verdict) \<Rightarrow> transport \<Rightarrow> client_stats \<Rightarrow>
   (cause list + bool) \<times> transport \<times> client_stats" where
  "negotiate_and_forward late open_stream t st =
     (case late of Some t1 \<Rightarrow> (Inl [CauseIo TimedOut], t1, st)
      | None \<Rightarrow> case read_connect t of
        (Inl e, t1) \<Rightarrow> (Inl e, t1, st)
      | (Inr addr, t1) \<Rightarrow>
          (case open_stream addr of
             OpenFailed e \<Rightarrow>
               (Inl (CauseOther # e), snd (reply REP_GENERAL t1),
                st\<lparr>cs_tunnel_failures := cs_tunnel_failures st + 1\<rparr>)
           | Opened po \<Rightarrow>
               let st1 = st\<lparr>cs_tunnels := cs_tunnels st + 1\<rparr>
               in case reply REP_SUCCEEDED t1 of
                    (Inl k, t2) \<Rightarrow> (Inl [CauseOther, CauseIo k], t2, st1)
                  | (Inr _, t2) \<Rightarrow>
                      (Inr (is_graceful (po_end po)), t2,
                       st1\<lparr>cs_bytes_up := cs_bytes_up st1 + po_up po,
                           cs_bytes_down := cs_bytes_down st1 + po_down po\<rparr>)))"

definition inbound_warns :: "cause list + bool \<Rightarrow> bool" where
  "inbound_warns r = (case r of Inl e \<Rightarrow> \<not> is_clean_close e | Inr _ \<Rightarrow> False)"

section \<open>Properties\<close>

lemma io_read_append: "length xs = n \<Longrightarrow> tr_in t = xs @ ys \<Longrightarrow> io_read n t = (Inr xs, t\<lparr>tr_in := ys\<rparr>)"
  by (simp add: io_read_def read_exact_append)

lemma io_write_ok: "tr_out_room t = None \<Longrightarrow> io_write bs t = (Inr (), t\<lparr>tr_out := tr_out t @ bs\<rparr>)"
  by (simp add: io_write_def write_all_def)

text \<open>The request body is the encoding of the address, which the server decodes again from the OPEN frame.\<close>

lemma read_host_encode:
  assumes "host_ok h" and "encode_host h = atyp # rest" and "tr_in t = rest @ ys"
  shows "read_host atyp t = (Inr h, t\<lparr>tr_in := ys\<rparr>)"
proof (cases h)
  case (Domain d)
  with assms have d: "d \<noteq> []" "length d \<le> 255" "list_all domain_char d" "utf8_ok d"
    and r: "atyp = ATYP_DOMAIN" "rest = of_nat (length d) # d"
    by (auto simp: domain_ok_def encode_host_def Let_def intro: utf8_ok_ascii)
  have nz: "(of_nat (length d) :: u8) \<noteq> 0" using d(1,2) unat_byte_len [of "length d"] by auto
  have "io_read 1 t = (Inr [of_nat (length d)], t\<lparr>tr_in := d @ ys\<rparr>)"
    by (rule io_read_append) (use assms(3) r in simp_all)
  moreover have "io_read (length d) (t\<lparr>tr_in := d @ ys\<rparr>) = (Inr d, t\<lparr>tr_in := d @ ys\<rparr>\<lparr>tr_in := ys\<rparr>)"
    by (rule io_read_append) simp_all
  moreover have "\<not> list_ex (\<lambda>b. \<not> domain_char b) d" using d(3) by (simp add: list_ex_iff list_all_iff)
  ultimately show ?thesis
    using Domain d r nz by (simp add: read_host_def unat_byte_len) (simp add: np_consts)
next
  case (HostIp ip)
  show ?thesis
  proof (cases ip)
    case (IpV4 w)
    with HostIp assms have "atyp = ATYP_IPV4" "io_read 4 t = (Inr (to_be 4 w), t\<lparr>tr_in := ys\<rparr>)"
      by (auto simp: encode_host_def intro: io_read_append)
    with HostIp IpV4 show ?thesis by (simp add: read_host_def from_be_to_be)
  next
    case (IpV6 w)
    with HostIp assms have "atyp = ATYP_IPV6" "io_read 16 t = (Inr (to_be 16 w), t\<lparr>tr_in := ys\<rparr>)"
      by (auto simp: encode_host_def intro: io_read_append)
    with HostIp IpV6 show ?thesis by (simp add: read_host_def from_be_to_be np_consts)
  qed
qed

lemma read_addr_encode:
  assumes "host_ok (pa_host a)" and "addr_encode a = atyp # rest" and "tr_in t = rest @ ys"
  shows "read_addr atyp t = (Inr a, t\<lparr>tr_in := ys\<rparr>)"
proof -
  obtain r where r: "encode_host (pa_host a) = atyp # r" "rest = r @ to_be 2 (pa_port a)"
    using assms(2) decode_host_encode [OF assms(1), of "[]"]
    by (auto simp: addr_encode_def addr_encode_into_def)
  then have "read_host atyp t = (Inr (pa_host a), t\<lparr>tr_in := to_be 2 (pa_port a) @ ys\<rparr>)"
    using assms by (intro read_host_encode) auto
  moreover have "io_read 2 (t\<lparr>tr_in := to_be 2 (pa_port a) @ ys\<rparr>) = (Inr (to_be 2 (pa_port a)), t\<lparr>tr_in := ys\<rparr>)"
    by (simp add: io_read_append [of "to_be 2 (pa_port a)" 2 _ ys])
  ultimately show ?thesis by (simp add: read_addr_def from_be_to_be)
qed

lemma negotiate_ok:
  assumes "tr_out_room t = None" and "length methods \<le> 255" and "METHOD_NO_AUTH \<in> set methods"
    and "tr_in t = SOCKS_VER # of_nat (length methods) # methods @ ys"
  shows "negotiate t = (Inr (), t\<lparr>tr_in := ys, tr_out := tr_out t @ [SOCKS_VER, METHOD_NO_AUTH]\<rparr>)"
proof -
  have "io_read 2 t = (Inr [SOCKS_VER, of_nat (length methods)], t\<lparr>tr_in := methods @ ys\<rparr>)"
    by (rule io_read_append) (use assms(4) in simp_all)
  moreover have "io_read (length methods) (t\<lparr>tr_in := methods @ ys\<rparr>) = (Inr methods, t\<lparr>tr_in := ys\<rparr>)"
    by (simp add: io_read_append [of methods _ _ ys])
  ultimately show ?thesis
    using assms(1-3) by (simp add: negotiate_def unat_byte_len io_write_ok)
qed

text \<open>What a request reader accepts is a well-formed address.\<close>

lemma io_read_length: "io_read n t = (Inr bs, t') \<Longrightarrow> length bs = n"
  by (auto simp: io_read_def read_exact_def split: if_splits prod.splits sum.splits core_error.splits)

lemma read_host_ok:
  assumes "read_host atyp t = (Inr h, t')"
  shows "host_ok h"
proof (cases h)
  case (Domain d)
  with assms obtain len t1 where d: "len ! 0 \<noteq> (0 :: u8)" "io_read (unat (len ! 0)) t1 = (Inr d, t')"
    "\<not> list_ex (\<lambda>b. \<not> domain_char b) d"
    by (auto simp: read_host_def split: if_splits prod.splits sum.splits)
  then have "length d = unat (len ! 0)" "unat (len ! 0) \<noteq> 0"
    using io_read_length [OF d(2)] by (simp_all add: unat_eq_zero)
  with d(3) Domain show ?thesis
    using unat_byte_le [of "len ! 0"] by (auto simp: domain_ok_def list_all_iff list_ex_iff)
qed simp

lemma read_addr_ok: "read_addr atyp t = (Inr a, t') \<Longrightarrow> host_ok (pa_host a)"
  by (auto simp: read_addr_def dest: read_host_ok split: prod.splits sum.splits)

lemma read_connect_ok: "read_connect t = (Inr a, t') \<Longrightarrow> host_ok (pa_host a)"
  by (auto simp: read_connect_def dest: read_addr_ok split: prod.splits sum.splits if_splits)

text \<open>
  C30.  The SOCKS5 inbound understands every well-formed CONNECT and hands on only addresses the server
  understands: a greeting that offers no-auth followed by a request for a proxy address yields exactly
  that address, answers with the no-auth method and consumes exactly the request; and any address it
  accepts, from whatever bytes, is decoded by the server to the same address.
\<close>

theorem socks5_connect_understood:
  "(tr_out_room t = None \<and> length methods \<le> 255 \<and> METHOD_NO_AUTH \<in> set methods \<and> host_ok (pa_host a) \<and>
     tr_in t = SOCKS_VER # of_nat (length methods) # methods @ [SOCKS_VER, CMD_CONNECT, 0] @ addr_encode a @ rest \<longrightarrow>
     read_connect t = (Inr a, t\<lparr>tr_in := rest, tr_out := tr_out t @ [SOCKS_VER, METHOD_NO_AUTH]\<rparr>)) \<and>
   (read_connect u = (Inr b, u') \<longrightarrow> addr_decode (addr_encode b) = Inr b)"
proof (intro conjI impI)
  assume h: "tr_out_room t = None \<and> length methods \<le> 255 \<and> METHOD_NO_AUTH \<in> set methods \<and> host_ok (pa_host a) \<and>
     tr_in t = SOCKS_VER # of_nat (length methods) # methods @ [SOCKS_VER, CMD_CONNECT, 0] @ addr_encode a @ rest"
  obtain atyp r where r: "addr_encode a = atyp # r"
    using decode_host_encode [of "pa_host a" "[]"] h by (auto simp: addr_encode_def addr_encode_into_def)
  let ?t1 = "t\<lparr>tr_in := [SOCKS_VER, CMD_CONNECT, 0] @ addr_encode a @ rest,
    tr_out := tr_out t @ [SOCKS_VER, METHOD_NO_AUTH]\<rparr>"
  have "negotiate t = (Inr (), ?t1)" using h by (intro negotiate_ok) auto
  moreover have "io_read 4 ?t1 = (Inr [SOCKS_VER, CMD_CONNECT, 0, atyp], ?t1\<lparr>tr_in := r @ rest\<rparr>)"
    by (rule io_read_append) (simp_all add: r)
  moreover have "read_addr atyp (?t1\<lparr>tr_in := r @ rest\<rparr>) = (Inr a, ?t1\<lparr>tr_in := r @ rest\<rparr>\<lparr>tr_in := rest\<rparr>)"
    by (rule read_addr_encode) (use h r in auto)
  ultimately show "read_connect t = (Inr a, t\<lparr>tr_in := rest, tr_out := tr_out t @ [SOCKS_VER, METHOD_NO_AUTH]\<rparr>)"
    by (simp add: read_connect_def numeral_3_eq_3 numeral_2_eq_2)
next
  assume "read_connect u = (Inr b, u')"
  then show "addr_decode (addr_encode b) = Inr b" by (intro addr_decode_encode read_connect_ok)
qed

theorem socks5_connect_understood_witness:
  "fst (read_connect \<lparr>tr_in = [5, 1, 0, 5, 1, 0] @ addr_encode demo_addr, tr_in_fail = None, tr_out = [],
     tr_out_room = None\<rparr>) = Inr demo_addr"
  using socks5_connect_understood [of "\<lparr>tr_in = [5, 1, 0, 5, 1, 0] @ addr_encode demo_addr, tr_in_fail = None,
      tr_out = [], tr_out_room = None\<rparr>" "[0]" demo_addr "[]"]
  by (simp add: np_consts demo_addr_def)

end
