(* ===== verification/Client_Runtime.thy ===== *)
theory Client_Runtime
  imports App_Config Socks5 "HOL-Library.Multiset"
begin

text \<open>
  The client binary around the pool (\<open>client/src/lib.rs\<close>): the server address and the runtime parameters
  from the configuration, the admission of inbound connections, and the bounded drain at shutdown
  (\<open>common/src/shutdown.rs\<close>).  A Rust string is the list of its UTF-8 bytes; the literals of the address
  parser are ASCII.
\<close>

section \<open>Parsing of IP literals\<close>

text \<open>
  The parser of \<open>std::net\<close>: every reader gives its value and the rest of the input, or nothing with the
  input untouched.
\<close>

type_synonym 'a reader = "string \<Rightarrow> ('a \<times> string) option"

definition digit_value :: "char \<Rightarrow> int option" where
  "digit_value c =
     (let n = of_char c :: int in
      if 48 \<le> n \<and> n \<le> 57 then Some (n - 48)
      else if 97 \<le> n \<and> n \<le> 102 then Some (n - 87)
      else if 65 \<le> n \<and> n \<le> 70 then Some (n - 55)
      else None)"

definition is_digit :: "int \<Rightarrow> char \<Rightarrow> bool" where
  "is_digit radix c \<longleftrightarrow> (case digit_value c of Some d \<Rightarrow> d < radix | None \<Rightarrow> False)"

definition digits_value :: "int \<Rightarrow> string \<Rightarrow> int" where
  "digits_value radix ds = foldl (\<lambda>v c. v * radix + the (digit_value c)) 0 ds"

text \<open>\<open>read_number\<close> for a type with \<open>limit\<close> values; a run of digits longer than allowed is an error.\<close>

definition read_number :: "int \<Rightarrow> nat option \<Rightarrow> bool \<Rightarrow> int \<Rightarrow> int reader" where
  "read_number radix max_digits allow_zero_prefix limit s =
     (let ds = takeWhile (is_digit radix) s; n = digits_value radix ds in
      if ds = [] \<or> (case max_digits of Some k \<Rightarrow> k < length ds | None \<Rightarrow> False) \<or>
         (\<not> allow_zero_prefix \<and> hd ds = CHR ''0'' \<and> 1 < length ds) \<or> limit \<le> n
      then None else Some (n, drop (length ds) s))"

definition read_given_char :: "char \<Rightarrow> string \<Rightarrow> string option" where
  "read_given_char c s = (case s of [] \<Rightarrow> None | x # r \<Rightarrow> if x = c then Some r else None)"

definition read_separator :: "char \<Rightarrow> nat \<Rightarrow> 'a reader \<Rightarrow> 'a reader" where
  "read_separator sep i inner s =
     (if i = 0 then inner s
      else case read_given_char sep s of None \<Rightarrow> None | Some r \<Rightarrow> inner r)"

fun read_octets :: "nat \<Rightarrow> nat \<Rightarrow> int list reader" where
  "read_octets 0 i s = Some ([], s)"
| "read_octets (Suc k) i s =
     (case read_separator CHR ''.'' i (read_number 10 (Some 3) False 256) s of
        None \<Rightarrow> None
      | Some (b, r) \<Rightarrow>
          (case read_octets k (Suc i) r of None \<Rightarrow> None | Some (bs, r') \<Rightarrow> Some (b # bs, r')))"

definition read_ipv4 :: "int list reader" where
  "read_ipv4 s = read_octets 4 0 s"

text \<open>
  \<open>read_groups\<close> of an IPv6 address: up to \<open>limit\<close> groups, the last two possibly in dotted form; the groups
  read, whether they end in the dotted form, and the rest.
\<close>

function read_groups :: "nat \<Rightarrow> nat \<Rightarrow> string \<Rightarrow> int list \<times> bool \<times> string" where
  "read_groups limit i s =
     (if limit \<le> i then ([], False, s)
      else case (if Suc i < limit then read_separator CHR '':'' i read_ipv4 s else None) of
        Some (bs, r) \<Rightarrow> ([bs ! 0 * 256 + bs ! 1, bs ! 2 * 256 + bs ! 3], True, r)
      | None \<Rightarrow>
          (case read_separator CHR '':'' i (read_number 16 (Some 4) True 65536) s of
             None \<Rightarrow> ([], False, s)
           | Some (g, r) \<Rightarrow>
               (let (gs, v4, r') = read_groups limit (Suc i) r in (g # gs, v4, r'))))"
  by pat_completeness auto
termination by (relation "measure (\<lambda>(limit, i, s). limit - i)") auto

declare read_groups.simps [simp del]

definition read_ipv6 :: "int list reader" where
  "read_ipv6 s =
     (let (head, head_v4, r) = read_groups 8 0 s in
      if length head = 8 then Some (head, r)
      else if head_v4 then None
      else case read_given_char CHR '':'' r of
        None \<Rightarrow> None
      | Some r1 \<Rightarrow>
          (case read_given_char CHR '':'' r1 of
             None \<Rightarrow> None
           | Some r2 \<Rightarrow>
               (let (tail, _, r3) = read_groups (8 - (length head + 1)) 0 r2
                in Some (head @ replicate (8 - (length head + length tail)) 0 @ tail, r3))))"

definition v4_of :: "int list \<Rightarrow> ip_addr" where
  "v4_of bs = IpV4 (of_int (foldl (\<lambda>v b. v * 256 + b) 0 bs))"

definition v6_of :: "int list \<Rightarrow> ip_addr" where
  "v6_of gs = IpV6 (of_int (foldl (\<lambda>v g. v * 65536 + g) 0 gs))"

definition read_ip :: "ip_addr reader" where
  "read_ip s =
     (case read_ipv4 s of
        Some (bs, r) \<Rightarrow> Some (v4_of bs, r)
      | None \<Rightarrow> (case read_ipv6 s of Some (gs, r) \<Rightarrow> Some (v6_of gs, r) | None \<Rightarrow> None))"

definition read_port :: "int reader" where
  "read_port s =
     (case read_given_char CHR '':'' s of None \<Rightarrow> None | Some r \<Rightarrow> read_number 10 None True 65536 r)"

definition read_scope_id :: "int reader" where
  "read_scope_id s =
     (case read_given_char CHR ''%'' s of None \<Rightarrow> None | Some r \<Rightarrow> read_number 10 None True (2 ^ 32) r)"

definition read_socket_v4 :: "(ip_addr \<times> int) reader" where
  "read_socket_v4 s =
     (case read_ipv4 s of
        None \<Rightarrow> None
      | Some (bs, r) \<Rightarrow> (case read_port r of None \<Rightarrow> None | Some (p, r') \<Rightarrow> Some ((v4_of bs, p), r')))"

definition read_socket_v6 :: "(ip_addr \<times> int) reader" where
  "read_socket_v6 s =
     (case read_given_char CHR ''['' s of
        None \<Rightarrow> None
      | Some r \<Rightarrow>
          (case read_ipv6 r of
             None \<Rightarrow> None
           | Some (gs, r1) \<Rightarrow>
               (let r2 = (case read_scope_id r1 of Some (_, r') \<Rightarrow> r' | None \<Rightarrow> r1) in
                case read_given_char CHR '']'' r2 of
                  None \<Rightarrow> None
                | Some r3 \<Rightarrow>
                    (case read_port r3 of None \<Rightarrow> None | Some (p, r4) \<Rightarrow> Some ((v6_of gs, p), r4)))))"

definition read_socket_addr :: "(ip_addr \<times> int) reader" where
  "read_socket_addr s =
     (case read_socket_v4 s of Some x \<Rightarrow> Some x | None \<Rightarrow> read_socket_v6 s)"

text \<open>\<open>parse_with\<close>: the reader has to reach the end of the input.\<close>

definition parse_with :: "'a reader \<Rightarrow> string \<Rightarrow> 'a option" where
  "parse_with rd s = (case rd s of Some (v, []) \<Rightarrow> Some v | _ \<Rightarrow> None)"

text \<open>\<open>u16::from_str\<close>, which also accepts a leading plus sign.\<close>

definition parse_u16 :: "string \<Rightarrow> int option" where
  "parse_u16 s =
     (let ds = (case s of c # r \<Rightarrow> if c = CHR ''+'' \<and> r \<noteq> [] then r else s | [] \<Rightarrow> s) in
      if ds \<noteq> [] \<and> list_all (is_digit 10) ds \<and> digits_value 10 ds < 65536
      then Some (digits_value 10 ds) else None)"

section \<open>The server address\<close>

datatype host_port_error = MissingPort | BadPort | UnmatchedBracket | BareIpv6 | EmptyHost

definition rsplit_once :: "char \<Rightarrow> string \<Rightarrow> (string \<times> string) option" where
  "rsplit_once c s =
     (case dropWhile (\<lambda>x. x \<noteq> c) (rev s) of
        [] \<Rightarrow> None
      | _ # h \<Rightarrow> Some (rev h, rev (takeWhile (\<lambda>x. x \<noteq> c) (rev s))))"

definition host_bytes :: "string \<Rightarrow> bytes" where
  "host_bytes s = map of_char s"

definition unbracket :: "string \<Rightarrow> host_port_error + string" where
  "unbracket h =
     (case h of
        c # inner \<Rightarrow>
          if c = CHR ''['' then
            (if inner \<noteq> [] \<and> last inner = CHR '']'' then Inr (butlast inner) else Inl UnmatchedBracket)
          else if CHR '':'' \<in> set h then Inl BareIpv6 else Inr h
      | [] \<Rightarrow> Inr h)"

definition parse_host_port :: "string \<Rightarrow> host_port_error + (host \<times> u16)" where
  "parse_host_port s =
     (case parse_with read_socket_addr s of
        Some (ip, p) \<Rightarrow> Inr (HostIp ip, of_int p)
      | None \<Rightarrow>
          (case rsplit_once CHR '':'' s of
             None \<Rightarrow> Inl MissingPort
           | Some (host, port) \<Rightarrow>
               (case parse_u16 port of
                  None \<Rightarrow> Inl BadPort
                | Some p \<Rightarrow>
                    (case unbracket host of
                       Inl e \<Rightarrow> Inl e
                     | Inr host \<Rightarrow>
                         if host = [] then Inl EmptyHost
                         else (case parse_with read_ip host of
                                 Some ip \<Rightarrow> Inr (HostIp ip, of_int p)
                               | None \<Rightarrow> Inr (Domain (host_bytes host), of_int p))))))"

section \<open>Runtime parameters\<close>

record bond_params =
  bp_links :: u32
  bp_pool_size :: u32
  bp_max_streams :: u32
  bp_target :: string

record client_runtime =
  cr_server_host :: host
  cr_server_port :: u16
  cr_server_key :: obfuscation_key
  cr_connect_timeout :: u64
  cr_connect_retries :: u32
  cr_max_connections :: "u64 option"
  cr_pool_size :: u32
  cr_max_streams :: u32
  cr_bond :: "bond_params option"
  cr_dns :: dns_cache

datatype client_config_error = ObfuscationError config_error | AddressError host_port_error

definition client_from_config :: "client_config \<Rightarrow> client_config_error + client_runtime" where
  "client_from_config cfg =
     (case to_key (ss_obfuscation (cc_server cfg)) (cc_password cfg) of
        Inl e \<Rightarrow> Inl (ObfuscationError e)
      | Inr key \<Rightarrow>
          (case parse_host_port (ss_address (cc_server cfg)) of
             Inl e \<Rightarrow> Inl (AddressError e)
           | Inr (h, p) \<Rightarrow>
               Inr \<lparr>cr_server_host = h, cr_server_port = p, cr_server_key = key,
                    cr_connect_timeout = ss_connect_timeout (cc_server cfg),
                    cr_connect_retries = ss_connect_retries (cc_server cfg),
                    cr_max_connections = cc_max_connections cfg,
                    cr_pool_size = effective_pool_size (ss_mux (cc_server cfg)),
                    cr_max_streams = max (mx_max_streams (ss_mux (cc_server cfg))) 1,
                    cr_bond = map_option (\<lambda>b. \<lparr>bp_links = bc_links b, bp_pool_size = bc_pool_size b,
                        bp_max_streams = max (bc_max_streams b) 1,
                        bp_target = ss_address (cc_server cfg)\<rparr>) (cc_bond cfg),
                    cr_dns = dns_new\<rparr>))"

section \<open>Admission of inbound connections\<close>

text \<open>
  The accept loops, one per inbound listener, share the counters.  A loop compares \<open>active\<close> with the
  limit and then raises the counters: two steps, with other loops and ending connections in between.
\<close>

datatype accept_phase = AcceptWaiting | AcceptPassed

record inbound_state =
  in_stats :: client_stats
  in_loops :: "accept_phase list"
  in_tasks :: nat

definition below_limit :: "u64 option \<Rightarrow> client_stats \<Rightarrow> bool" where
  "below_limit limit st \<longleftrightarrow> (case limit of Some m \<Rightarrow> cs_active st < m | None \<Rightarrow> True)"

inductive inbound_step :: "u64 option \<Rightarrow> inbound_state \<Rightarrow> inbound_state \<Rightarrow> bool" for limit where
  reject: "i < length (in_loops s) \<Longrightarrow> in_loops s ! i = AcceptWaiting \<Longrightarrow> \<not> below_limit limit (in_stats s) \<Longrightarrow>
    inbound_step limit s s"
| pass: "i < length (in_loops s) \<Longrightarrow> in_loops s ! i = AcceptWaiting \<Longrightarrow> below_limit limit (in_stats s) \<Longrightarrow>
    inbound_step limit s (s\<lparr>in_loops := (in_loops s)[i := AcceptPassed]\<rparr>)"
| admit: "i < length (in_loops s) \<Longrightarrow> in_loops s ! i = AcceptPassed \<Longrightarrow>
    inbound_step limit s
      (s\<lparr>in_loops := (in_loops s)[i := AcceptWaiting], in_tasks := Suc (in_tasks s),
         in_stats := (in_stats s)\<lparr>cs_connections := cs_connections (in_stats s) + 1,
           cs_active := cs_active (in_stats s) + 1\<rparr>\<rparr>)"
| guard_drop: "0 < in_tasks s \<Longrightarrow>
    inbound_step limit s
      (s\<lparr>in_tasks := in_tasks s - 1, in_stats := (in_stats s)\<lparr>cs_active := cs_active (in_stats s) - 1\<rparr>\<rparr>)"

section \<open>Draining at shutdown\<close>

definition DRAIN_TIMEOUT :: nat where "DRAIN_TIMEOUT = 10000"

datatype drain_end = AllDrained | DrainTimedOut u64

text \<open>
  \<open>drain_sessions\<close> with times in milliseconds: what each pass of the loop sees, the active sessions and
  the time of the check; no passes left means that it still waits.
\<close>

fun drain_sessions :: "nat \<Rightarrow> (u64 \<times> nat) list \<Rightarrow> drain_end option" where
  "drain_sessions deadline [] = None"
| "drain_sessions deadline ((active, now) # rest) =
     (if active = 0 then Some AllDrained
      else if deadline \<le> now then Some (DrainTimedOut active)
      else drain_sessions deadline rest)"

section \<open>The address parser on the forms of an address\<close>

definition dec_digit :: "nat \<Rightarrow> char" where
  "dec_digit n = char_of (48 + int n)"

fun dec :: "nat \<Rightarrow> string" where
  "dec n = (if n < 10 then [dec_digit n] else dec (n div 10) @ [dec_digit (n mod 10)])"

declare dec.simps [simp del]

lemma digit_value_dec: "n < 10 \<Longrightarrow> digit_value (dec_digit n) = Some (int n)"
  by (simp add: digit_value_def dec_digit_def Let_def)

lemma dec_digit_zero: "n < 10 \<Longrightarrow> dec_digit n = CHR ''0'' \<Longrightarrow> n = 0"
  using digit_value_dec [of n] by (simp add: digit_value_def)

lemma dec_facts:
  "list_all (is_digit 10) (dec n) \<and> digits_value 10 (dec n) = int n \<and> dec n \<noteq> [] \<and>
   (hd (dec n) = CHR ''0'' \<longrightarrow> n = 0)"
proof (induction n rule: dec.induct)
  case (1 n)
  show ?case
  proof (cases "n < 10")
    case True
    then show ?thesis
      using digit_value_dec [OF True] dec_digit_zero [OF True]
      by (simp add: dec.simps [of n] digits_value_def is_digit_def)
  next
    case False
    have m: "n mod 10 < 10" by simp
    show ?thesis
      using 1 False digit_value_dec [OF m]
      by (auto simp: dec.simps [of n] digits_value_def is_digit_def zdiv_int zmod_int)
  qed
qed

lemma dec_length: "n < 10 ^ Suc k \<Longrightarrow> length (dec n) \<le> Suc k"
proof (induction k arbitrary: n)
  case 0
  then show ?case by (simp add: dec.simps [of n])
next
  case (Suc k)
  then have "n div 10 < 10 ^ Suc k" by auto
  then show ?case using Suc.IH [of "n div 10"] by (simp add: dec.simps [of n])
qed

lemma colon_no_digit: "\<not> is_digit 10 CHR '':''" "\<not> is_digit 10 CHR ''.''"
  by (simp_all add: is_digit_def digit_value_def)

lemma read_number_dec:
  assumes "n < 10 ^ Suc k" and "int n < limit" and "mx = Some (Suc k) \<or> mx = None"
    and "rest = [] \<or> \<not> is_digit 10 (hd rest)"
  shows "read_number 10 mx zp limit (dec n @ rest) = Some (int n, rest)"
proof -
  have ds: "takeWhile (is_digit 10) (dec n @ rest) = dec n"
    using dec_facts [of n] assms(4) by (cases rest) (auto simp: takeWhile_append list_all_iff)
  have "hd (dec n) = CHR ''0'' \<Longrightarrow> length (dec n) = 1" using dec_facts [of n] dec.simps [of 0] by auto
  then show ?thesis
    using ds dec_facts [of n] dec_length [OF assms(1)] assms(2,3) by (auto simp: read_number_def Let_def)
qed

definition v4_text :: "nat \<Rightarrow> nat \<Rightarrow> nat \<Rightarrow> nat \<Rightarrow> string" where
  "v4_text a b c d = dec a @ CHR ''.'' # dec b @ CHR ''.'' # dec c @ CHR ''.'' # dec d"

lemma read_ipv4_text:
  assumes "a < 256" "b < 256" "c < 256" "d < 256"
  shows "read_ipv4 (v4_text a b c d @ CHR '':'' # rest) = Some ([int a, int b, int c, int d], CHR '':'' # rest)"
proof -
  have n: "read_number 10 (Some 3) False 256 (dec n @ x # r) = Some (int n, x # r)"
    if "n < 256" "\<not> is_digit 10 x" for n x r
    using read_number_dec [where k = 2 and n = n and limit = 256 and mx = "Some 3" and rest = "x # r" and zp = False]
      that by simp
  have four: "(4 :: nat) = Suc (Suc (Suc (Suc 0)))" by simp
  show ?thesis
    unfolding read_ipv4_def four
    by (simp add: v4_text_def read_separator_def read_given_char_def n assms colon_no_digit)
qed

lemma v4_address:
  assumes "a < 256" "b < 256" "c < 256" "d < 256" "p < 65536"
  shows "parse_host_port (v4_text a b c d @ CHR '':'' # dec p) =
    Inr (HostIp (v4_of [int a, int b, int c, int d]), of_nat p)"
proof -
  have "read_number 10 None True 65536 (dec p) = Some (int p, [])"
    using read_number_dec [where k = 4 and n = p and limit = 65536 and mx = None and rest = "[]"] assms(5) by simp
  then show ?thesis
    using read_ipv4_text [OF assms(1-4), of "dec p"]
    by (simp add: parse_host_port_def parse_with_def read_socket_addr_def read_socket_v4_def read_port_def
        read_given_char_def)
qed

text \<open>A colon ends the dotted form, whatever follows it.\<close>

lemma read_number_colon:
  "read_number 10 mx zp lim (d @ CHR '':'' # x) =
   map_option (\<lambda>(n, r). (n, r @ CHR '':'' # x)) (read_number 10 mx zp lim d)"
proof -
  have "takeWhile (is_digit 10) (d @ CHR '':'' # x) = takeWhile (is_digit 10) d"
    by (simp add: takeWhile_append colon_no_digit) (metis takeWhile_eq_all_conv)
  then show ?thesis
    using length_takeWhile_le [of "is_digit 10" d] by (simp add: read_number_def Let_def)
qed

lemma read_separator_colon:
  "read_separator CHR ''.'' i (read_number 10 mx zp lim) (d @ CHR '':'' # x) =
   map_option (\<lambda>(n, r). (n, r @ CHR '':'' # x)) (read_separator CHR ''.'' i (read_number 10 mx zp lim) d)"
proof (cases "i = 0")
  case True
  then show ?thesis by (simp add: read_separator_def read_number_colon)
next
  case False
  then show ?thesis
    by (cases d) (simp_all add: read_separator_def read_given_char_def read_number_colon)
qed

lemma read_octets_colon:
  "read_octets k i (d @ CHR '':'' # x) =
   map_option (\<lambda>(bs, r). (bs, r @ CHR '':'' # x)) (read_octets k i d)"
proof (induction k arbitrary: i d)
  case (Suc k)
  show ?case
    by (cases "read_separator CHR ''.'' i (read_number 10 (Some 3) False 256) d")
      (auto simp: read_separator_colon Suc.IH split: option.split)
qed simp

lemma read_number_consumes:
  "read_number 10 mx zp lim t = Some (b, r) \<Longrightarrow> \<exists>d. t = d @ r \<and> CHR '':'' \<notin> set d"
  using colon_no_digit takeWhile_dropWhile_id [of "is_digit 10" t]
  by (intro exI [of _ "takeWhile (is_digit 10) t"])
    (auto simp: read_number_def Let_def dropWhile_eq_drop dest: set_takeWhileD split: if_splits)

lemma read_octets_consumes:
  "read_octets k i s = Some (bs, r) \<Longrightarrow> \<exists>d. s = d @ r \<and> CHR '':'' \<notin> set d"
proof (induction k arbitrary: i s bs)
  case (Suc k)
  have sep: "\<exists>d. s = d @ r' \<and> CHR '':'' \<notin> set d"
    if "read_separator CHR ''.'' i (read_number 10 (Some 3) False 256) s = Some (b, r')" for b r'
    using that read_number_consumes [of "Some 3" False 256 s b r']
      read_number_consumes [of "Some 3" False 256 "tl s" b r']
    by (auto simp: read_separator_def read_given_char_def split: if_splits list.splits
        intro: exI [of _ "CHR ''.'' # d" for d])
  from Suc.prems obtain b r1 bs1 where 1: "read_separator CHR ''.'' i (read_number 10 (Some 3) False 256) s = Some (b, r1)"
    "read_octets k (Suc i) r1 = Some (bs1, r)"
    by (auto split: option.splits)
  obtain d1 d2 where "s = d1 @ r1" "CHR '':'' \<notin> set d1" "r1 = d2 @ r" "CHR '':'' \<notin> set d2"
    using sep [OF 1(1)] Suc.IH [OF 1(2)] by blast
  then show ?case by (intro exI [of _ "d1 @ d2"]) simp
qed simp

lemma dec_no_colon: "CHR '':'' \<notin> set (dec p)"
  using dec_facts [of p] colon_no_digit by (auto simp: list_all_iff)

lemma rsplit_once_colon: "CHR '':'' \<notin> set p \<Longrightarrow> rsplit_once CHR '':'' (h @ CHR '':'' # p) = Some (h, p)"
proof -
  assume p: "CHR '':'' \<notin> set p"
  then have "takeWhile (\<lambda>x. x \<noteq> CHR '':'') (rev p @ CHR '':'' # rev h) = rev p"
    "dropWhile (\<lambda>x. x \<noteq> CHR '':'') (rev p @ CHR '':'' # rev h) = CHR '':'' # rev h"
    by (subst takeWhile_append2 dropWhile_append2; auto)+
  then show ?thesis by (simp add: rsplit_once_def)
qed

lemma parse_u16_dec: "p < 65536 \<Longrightarrow> parse_u16 (dec p) = Some (int p)"
proof -
  assume p: "p < 65536"
  have "\<not> is_digit 10 CHR ''+''" by (simp add: is_digit_def digit_value_def)
  then have "dec p = c # r \<Longrightarrow> c \<noteq> CHR ''+''" for c r
    using dec_facts [of p] by (auto simp: list_all_iff)
  then show ?thesis using p dec_facts [of p] by (cases "dec p") (auto simp: parse_u16_def Let_def)
qed

text \<open>A socket address in dotted form has exactly one colon, and the text before it is the address.\<close>

lemma read_socket_v4_colon:
  assumes "read_socket_v4 (h @ CHR '':'' # q) = Some (x, [])" and "CHR '':'' \<notin> set q"
  shows "CHR '':'' \<notin> set h \<and> (\<exists>bs. read_ipv4 h = Some (bs, []))"
proof -
  obtain bs r p where r: "read_ipv4 (h @ CHR '':'' # q) = Some (bs, r)" "read_port r = Some (p, [])"
    using assms(1) by (auto simp: read_socket_v4_def split: option.splits)
  obtain bs' r' where h: "read_ipv4 h = Some (bs', r')" "r = r' @ CHR '':'' # q"
    using r(1) by (auto simp: read_ipv4_def read_octets_colon)
  obtain t where t: "r = CHR '':'' # t" "read_number 10 None True 65536 t = Some (p, [])"
    using r(2) by (auto simp: read_port_def read_given_char_def split: list.splits if_splits)
  have "CHR '':'' \<notin> set t"
    using read_number_consumes [OF t(2)] by simp
  then have "r' = []" using h(2) t(1) by (cases r') auto
  moreover obtain d where "h = d @ r'" "CHR '':'' \<notin> set d"
    using read_octets_consumes [of 4 0 h bs' r'] h(1) by (auto simp: read_ipv4_def)
  ultimately show ?thesis using h(1) by simp
qed

lemma domain_address:
  assumes "d \<noteq> []" "CHR '':'' \<notin> set d" "hd d \<noteq> CHR ''[''" "parse_with read_ip d = None" "p < 65536"
  shows "parse_host_port (d @ CHR '':'' # dec p) = Inr (Domain (host_bytes d), of_nat p)"
proof -
  have "\<nexists>x. read_socket_v4 (d @ CHR '':'' # dec p) = Some (x, [])"
  proof
    assume "\<exists>x. read_socket_v4 (d @ CHR '':'' # dec p) = Some (x, [])"
    then obtain bs where "read_ipv4 d = Some (bs, [])"
      using read_socket_v4_colon [OF _ dec_no_colon] by blast
    then show False using assms(4) by (simp add: parse_with_def read_ip_def)
  qed
  moreover have "read_socket_v6 (d @ CHR '':'' # dec p) = None"
    using assms(1,3) by (cases d) (auto simp: read_socket_v6_def read_given_char_def)
  ultimately have "parse_with read_socket_addr (d @ CHR '':'' # dec p) = None"
    by (auto simp: parse_with_def read_socket_addr_def split: option.splits list.splits)
  moreover have "unbracket d = Inr d" using assms(1-3) by (cases d) (auto simp: unbracket_def)
  ultimately show ?thesis
    using assms(1,4,5) by (simp add: parse_host_port_def rsplit_once_colon [OF dec_no_colon] parse_u16_dec)
qed

lemma bare_ipv6_address:
  assumes "CHR '':'' \<in> set h" "hd h \<noteq> CHR ''[''" "CHR '':'' \<notin> set q"
  shows "parse_host_port (h @ CHR '':'' # q) = Inl BareIpv6 \<or> parse_host_port (h @ CHR '':'' # q) = Inl BadPort"
proof -
  have ne: "h \<noteq> []" using assms(1) by auto
  have "\<nexists>x. read_socket_v4 (h @ CHR '':'' # q) = Some (x, [])"
    using read_socket_v4_colon [OF _ assms(3)] assms(1) by blast
  moreover have "read_socket_v6 (h @ CHR '':'' # q) = None"
    using ne assms(2) by (cases h) (auto simp: read_socket_v6_def read_given_char_def)
  ultimately have "parse_with read_socket_addr (h @ CHR '':'' # q) = None"
    by (auto simp: parse_with_def read_socket_addr_def split: option.splits list.splits)
  moreover have "unbracket h = Inl BareIpv6" using ne assms(1,2) by (cases h) (auto simp: unbracket_def)
  ultimately show ?thesis
    by (auto simp: parse_host_port_def rsplit_once_colon [OF assms(3)] split: option.split)
qed

text \<open>
  C29.  The server address of the configuration is understood: a dotted IPv4 address with a decimal port
  gives that address, a name that is no IP literal gives the domain with its case kept, for every port;
  an IPv6 address without brackets is refused, never cut at its last colon.
\<close>

theorem server_address_understood:
  "(a < 256 \<and> b < 256 \<and> c < 256 \<and> d < 256 \<and> p < 65536 \<longrightarrow>
      parse_host_port (v4_text a b c d @ CHR '':'' # dec p) =
        Inr (HostIp (v4_of [int a, int b, int c, int d]), of_nat p)) \<and>
   (name \<noteq> [] \<and> CHR '':'' \<notin> set name \<and> hd name \<noteq> CHR ''['' \<and> parse_with read_ip name = None \<and> p < 65536 \<longrightarrow>
      parse_host_port (name @ CHR '':'' # dec p) = Inr (Domain (host_bytes name), of_nat p)) \<and>
   (CHR '':'' \<in> set v6 \<and> hd v6 \<noteq> CHR ''['' \<and> CHR '':'' \<notin> set q \<longrightarrow>
      (\<exists>e. parse_host_port (v6 @ CHR '':'' # q) = Inl e))"
  using v4_address [of a b c d p] domain_address [of name p] bare_ipv6_address [of v6 q] by blast

theorem server_address_understood_witness:
  "parse_host_port (v4_text 10 0 0 7 @ CHR '':'' # dec 8443) = Inr (HostIp (v4_of [10, 0, 0, 7]), 8443) \<and>
   parse_host_port (''Ex.org'' @ CHR '':'' # dec 8443) = Inr (Domain (host_bytes ''Ex.org''), 8443) \<and>
   (\<exists>e. parse_host_port (''2001:db8:'' @ CHR '':'' # ''1'') = Inl e)"
proof -
  have "parse_with read_ip ''Ex.org'' = None" by code_simp
  then show ?thesis
    using server_address_understood [of 10 0 0 7 8443 "''Ex.org''" "''2001:db8:''" "''1''"] by simp
qed

text \<open>A malformed address in brackets is taken for a domain.\<close>

lemma bracketed_garbage_is_domain:
  "parse_host_port ''[1:::2]:443'' = Inr (Domain (host_bytes ''1:::2''), 443)"
  by code_simp

section \<open>The connection limit of the inbounds\<close>

definition inbound_new :: "nat \<Rightarrow> client_stats \<Rightarrow> inbound_state" where
  "inbound_new loops st =
     \<lparr>in_stats = st\<lparr>cs_active := 0\<rparr>, in_loops = replicate loops AcceptWaiting, in_tasks = 0\<rparr>"

definition passed :: "accept_phase list \<Rightarrow> nat" where
  "passed ps = count (mset ps) AcceptPassed"

lemma passed_le: "passed ps \<le> length ps"
  using count_le_length [of ps AcceptPassed] by (simp add: passed_def count_mset)

text \<open>The counter is the number of running connections, and admitted plus passed stay within the limit.\<close>

definition inbound_inv :: "u64 \<Rightarrow> nat \<Rightarrow> inbound_state \<Rightarrow> bool" where
  "inbound_inv m loops s \<longleftrightarrow> length (in_loops s) = loops \<and> cs_active (in_stats s) = of_nat (in_tasks s) \<and>
     in_tasks s + passed (in_loops s) \<le> (if m = 0 then 0 else unat m - 1 + loops)"

lemma inbound_inv_active:
  assumes "inbound_inv m loops s" and "unat m + loops \<le> 2 ^ 64"
  shows "unat (cs_active (in_stats s)) = in_tasks s"
proof -
  have "in_tasks s < 2 ^ 64"
  proof (cases "m = 0")
    case False
    then have "0 < unat m" by (simp add: unat_gt_0)
    then show ?thesis using assms False by (auto simp: inbound_inv_def)
  qed (use assms(1) in \<open>simp add: inbound_inv_def\<close>)
  then show ?thesis using assms(1) by (simp add: inbound_inv_def unat_of_nat)
qed

lemma passed_admit: "i < length ps \<Longrightarrow> ps ! i = AcceptPassed \<Longrightarrow> passed ps = Suc (passed (ps[i := AcceptWaiting]))"
  by (simp add: passed_def mset_update) (metis Suc_pred count_greater_zero_iff count_mset nth_mem_mset)

lemma inbound_inv_step:
  assumes "inbound_step (Some m) s s'" and "inbound_inv m loops s" and "unat m + loops \<le> 2 ^ 64"
  shows "inbound_inv m loops s'"
  using assms(1)
proof cases
  case (pass i)
  then have lt: "in_tasks s < unat m"
    using inbound_inv_active [OF assms(2,3)] by (simp add: below_limit_def word_less_nat_alt)
  then have "m \<noteq> 0" by auto
  then show ?thesis
    using lt assms(2) pass passed_le [of "(in_loops s)[i := AcceptPassed]"] by (simp add: inbound_inv_def)
next
  case (admit i)
  then show ?thesis
    using assms(2) passed_admit [OF admit(2,3)] by (simp add: inbound_inv_def split: if_splits)
next
  case guard_drop
  then show ?thesis using assms(2) by (auto simp: inbound_inv_def of_nat_diff split: if_splits)
qed (use assms(2) in simp)

text \<open>
  C17.  The connection limit of the client holds over all inbound listeners up to the width of the check:
  with \<open>loops\<close> accept loops sharing the counters, at most \<open>max_connections + loops - 1\<close> connections run at
  any time (exactly the limit with one listener), and the gauge always shows how many do.
\<close>

theorem inbound_limit_holds:
  assumes "(inbound_step (Some m))\<^sup>*\<^sup>* (inbound_new loops st) s" and "1 \<le> loops" and "unat m + loops \<le> 2 ^ 64"
  shows "in_tasks s \<le> unat m + (loops - 1) \<and> cs_active (in_stats s) = of_nat (in_tasks s)"
proof -
  from assms(1) have "inbound_inv m loops s"
  proof (induction rule: rtranclp_induct)
    case base
    show ?case by (simp add: inbound_inv_def inbound_new_def passed_def)
  next
    case (step y z)
    then show ?case using inbound_inv_step assms(3) by blast
  qed
  moreover have "m \<noteq> 0 \<Longrightarrow> 1 \<le> unat m" by (simp add: Suc_le_eq unat_gt_0)
  ultimately show ?thesis using assms(2) by (auto simp: inbound_inv_def split: if_splits)
qed

theorem inbound_limit_holds_witness:
  "\<exists>s. (inbound_step (Some 1))\<^sup>*\<^sup>* (inbound_new 1 \<lparr>cs_active = 0, cs_connections = 0, cs_tunnels = 0,
      cs_tunnel_failures = 0, cs_bytes_up = 0, cs_bytes_down = 0\<rparr>) s \<and> in_tasks s = 1 \<and> in_tasks s \<le> unat (1 :: u64)"
proof -
  let ?st = "\<lparr>cs_active = 0, cs_connections = 0, cs_tunnels = 0, cs_tunnel_failures = 0, cs_bytes_up = 0,
    cs_bytes_down = 0\<rparr>"
  let ?s0 = "inbound_new 1 ?st"
  let ?s1 = "?s0\<lparr>in_loops := (in_loops ?s0)[0 := AcceptPassed]\<rparr>"
  let ?s2 = "?s1\<lparr>in_loops := (in_loops ?s1)[0 := AcceptWaiting], in_tasks := Suc (in_tasks ?s1),
    in_stats := (in_stats ?s1)\<lparr>cs_connections := cs_connections (in_stats ?s1) + 1,
      cs_active := cs_active (in_stats ?s1) + 1\<rparr>\<rparr>"
  have "inbound_step (Some 1) ?s0 ?s1"
    by (rule inbound_step.pass) (simp_all add: inbound_new_def below_limit_def)
  moreover have "inbound_step (Some 1) ?s1 ?s2"
    by (rule inbound_step.admit) (simp_all add: inbound_new_def)
  ultimately have r: "(inbound_step (Some 1))\<^sup>*\<^sup>* ?s0 ?s2"
    by (rule rtranclp.rtrancl_into_rtrancl [OF r_into_rtranclp])
  show ?thesis
    using inbound_limit_holds [OF r] r by (intro exI [of _ ?s2]) (simp add: inbound_new_def)
qed

section \<open>The drain ends\<close>

lemma drain_waits: "drain_sessions deadline obs = None \<Longrightarrow> (a, now) \<in> set obs \<Longrightarrow> a \<noteq> 0 \<and> now < deadline"
  by (induction obs rule: drain_sessions.induct) (auto split: if_splits)

lemma drain_outcome:
  "drain_sessions deadline obs = Some r \<Longrightarrow>
   (case r of
      AllDrained \<Rightarrow> \<exists>now. (0, now) \<in> set obs
    | DrainTimedOut a \<Rightarrow> a \<noteq> 0 \<and> (\<exists>now. (a, now) \<in> set obs \<and> deadline \<le> now))"
  by (induction obs rule: drain_sessions.induct) (auto split: if_splits drain_end.splits)

text \<open>
  Shutdown is bounded: with passes at least the 100 milliseconds of the sleep apart, the drain ends
  after at most 101 passes whatever the sessions do; it reports completion only after it saw no active
  session, and gives up only at the deadline with sessions still active.
\<close>

theorem drain_ends:
  assumes "\<forall>i < length obs. start + 100 * i \<le> snd (obs ! i)" and "101 \<le> length obs"
  shows "\<exists>r. drain_sessions (start + DRAIN_TIMEOUT) obs = Some r \<and>
    (case r of
       AllDrained \<Rightarrow> \<exists>now. (0, now) \<in> set obs
     | DrainTimedOut a \<Rightarrow> a \<noteq> 0 \<and> (\<exists>now. (a, now) \<in> set obs \<and> start + DRAIN_TIMEOUT \<le> now))"
proof (cases "drain_sessions (start + DRAIN_TIMEOUT) obs")
  case None
  have "(fst (obs ! 100), snd (obs ! 100)) \<in> set obs" using assms(2) by simp
  then have "snd (obs ! 100) < start + DRAIN_TIMEOUT" using drain_waits [OF None] by blast
  moreover have "start + 100 * 100 \<le> snd (obs ! 100)" using assms(1) [rule_format, of 100] assms(2) by simp
  ultimately show ?thesis by (simp add: DRAIN_TIMEOUT_def)
next
  case (Some r)
  then show ?thesis using drain_outcome [OF Some] by blast
qed

theorem drain_ends_witness:
  "\<exists>r. drain_sessions DRAIN_TIMEOUT (map (\<lambda>i. (2, 100 * i)) [0..<101]) = Some r"
  using drain_ends [of "map (\<lambda>i. (2, 100 * i)) [0..<101]" 0] by (auto simp del: upt_rec_numeral)

end
