(* ===== verification/Launch.thy ===== *)
theory Launch
  imports Client_Runtime Core_Properties
begin

text \<open>
  The binary (\<open>nextppp/src/main.rs\<close>): starting a server or a client from its configuration, and writing
  the example configuration.  The command line, the file contents after JSON parsing and the operating
  system's answers to \<open>bind\<close> are parameters; what remains is which checks are made, in which order, and
  what is started.
\<close>

section \<open>Example configurations\<close>

type_synonym files = "string \<Rightarrow> string option"

datatype launch_error =
  ExampleExists
| ExampleUnchecked error_kind
| ExampleUnwritten error_kind
| NotLoaded config_error
| BadListenAddress
| BindFailed error_kind
| BadClientConfig client_config_error

text \<open>
  \<open>check\<close> is the error of \<open>try_exists\<close>, if any; \<open>failed\<close> the error of \<open>fs::write\<close> with what it left behind.
\<close>

definition write_example ::
  "error_kind option \<Rightarrow> (error_kind \<times> string option) option \<Rightarrow> string \<Rightarrow> string \<Rightarrow> files \<Rightarrow> (launch_error + unit) \<times> files" where
  "write_example check failed path example fs =
     (case check of
        Some k \<Rightarrow> (Inl (ExampleUnchecked k), fs)
      | None \<Rightarrow>
          if fs path \<noteq> None then (Inl ExampleExists, fs)
          else (case failed of
                  Some (k, left) \<Rightarrow> (Inl (ExampleUnwritten k), fs(path := left))
                | None \<Rightarrow> (Inr (), fs(path := Some example))))"

section \<open>Starting\<close>

text \<open>The listen address has to be a literal; \<open>bind\<close> gives the error of the socket calls, if any.\<close>

definition launch_bind :: "(ip_addr \<times> int \<Rightarrow> error_kind option) \<Rightarrow> string \<Rightarrow> launch_error + (ip_addr \<times> int)" where
  "launch_bind bind spec =
     (case parse_with read_socket_addr spec of
        None \<Rightarrow> Inl BadListenAddress
      | Some addr \<Rightarrow> (case bind addr of Some k \<Rightarrow> Inl (BindFailed k) | None \<Rightarrow> Inr addr))"

definition start_server ::
  "(ip_addr \<times> int \<Rightarrow> error_kind option) \<Rightarrow> server_config \<Rightarrow> launch_error + (ip_addr \<times> int) \<times> server_runtime" where
  "start_server bind parsed =
     (case server_load parsed of
        Inl e \<Rightarrow> Inl (NotLoaded e)
      | Inr cfg \<Rightarrow>
          (case launch_bind bind (sc_listen cfg) of
             Inl e \<Rightarrow> Inl e
           | Inr listener \<Rightarrow>
               (case server_from_config cfg of Inl e \<Rightarrow> Inl (NotLoaded e) | Inr rt \<Rightarrow> Inr (listener, rt))))"

definition start_client ::
  "(ip_addr \<times> int \<Rightarrow> error_kind option) \<Rightarrow> client_config \<Rightarrow>
   launch_error + (ip_addr \<times> int) \<times> (ip_addr \<times> int) option \<times> client_runtime" where
  "start_client bind parsed =
     (case client_load parsed of
        Inl e \<Rightarrow> Inl (NotLoaded e)
      | Inr cfg \<Rightarrow>
          (case launch_bind bind (cc_listen cfg) of
             Inl e \<Rightarrow> Inl e
           | Inr listener \<Rightarrow>
               (case (case cc_bond cfg of
                        Some b \<Rightarrow> (case launch_bind bind (bc_listen b) of Inl e \<Rightarrow> Inl e | Inr a \<Rightarrow> Inr (Some a))
                      | None \<Rightarrow> Inr None) of
                  Inl e \<Rightarrow> Inl e
                | Inr bond_listener \<Rightarrow>
                    (case client_from_config cfg of
                       Inl e \<Rightarrow> Inl (BadClientConfig e)
                     | Inr rt \<Rightarrow> Inr (listener, bond_listener, rt)))))"

text \<open>The two commands: with \<open>--init\<close> the example file is written and nothing starts.\<close>

definition run_server ::
  "string option \<Rightarrow> error_kind option \<Rightarrow> (error_kind \<times> string option) option \<Rightarrow> string \<Rightarrow> files \<Rightarrow>
   (ip_addr \<times> int \<Rightarrow> error_kind option) \<Rightarrow> server_config \<Rightarrow>
   (launch_error + ((ip_addr \<times> int) \<times> server_runtime) option) \<times> files" where
  "run_server init check failed example fs bind parsed =
     (case init of
        Some path \<Rightarrow> map_prod (map_sum id (\<lambda>_. None)) id (write_example check failed path example fs)
      | None \<Rightarrow> (map_sum id Some (start_server bind parsed), fs))"

definition run_client ::
  "string option \<Rightarrow> error_kind option \<Rightarrow> (error_kind \<times> string option) option \<Rightarrow> string \<Rightarrow> files \<Rightarrow>
   (ip_addr \<times> int \<Rightarrow> error_kind option) \<Rightarrow> client_config \<Rightarrow>
   (launch_error + ((ip_addr \<times> int) \<times> (ip_addr \<times> int) option \<times> client_runtime) option) \<times> files" where
  "run_client init check failed example fs bind parsed =
     (case init of
        Some path \<Rightarrow> map_prod (map_sum id (\<lambda>_. None)) id (write_example check failed path example fs)
      | None \<Rightarrow> (map_sum id Some (start_client bind parsed), fs))"

section \<open>Properties\<close>

text \<open>An existing file is never changed by \<open>--init\<close>, whatever fails.\<close>

lemma write_example_keeps:
  "write_example check failed path example fs = (r, fs') \<Longrightarrow> fs p \<noteq> None \<Longrightarrow> fs' p = fs p"
  by (auto simp: write_example_def split: option.splits if_splits)

lemma run_server_keeps_files:
  "snd (run_server init check failed example fs bind parsed) p \<noteq> fs p \<Longrightarrow> fs p = None \<and> init = Some p"
  by (auto simp: run_server_def write_example_def split: option.splits if_splits)

lemma client_loadD: "client_load parsed = Inr cfg \<Longrightarrow> cfg = parsed \<and> (\<forall>b. cc_bond cfg = Some b \<longrightarrow> bc_links b \<noteq> 0)"
  by (auto simp: client_load_def split: sum.splits option.splits if_splits)

lemma server_loadD: "server_load parsed = Inr cfg \<Longrightarrow> cfg = parsed"
  by (auto simp: server_load_def split: sum.splits)

text \<open>A loaded configuration cannot fail at the key: only the server address is checked later.\<close>

lemma loaded_key_converts:
  "server_load parsed = Inr cfg \<Longrightarrow> \<exists>rt. server_from_config cfg = Inr rt"
  by (auto simp: server_load_def server_from_config_def split: sum.splits)

lemma start_serverD:
  assumes "start_server bind cfg = Inr (addr, rt)"
  shows "to_key (sc_obfuscation cfg) (sc_password cfg) = Inr (sr_key rt) \<and> sr_allow_bond rt = sc_bond_enabled cfg"
  using assms
  by (auto simp: start_server_def server_from_config_def dest: server_loadD split: sum.splits)

lemma start_clientD:
  assumes "start_client bind cfg = Inr (addr, bond_addr, rt)"
  shows "to_key (ss_obfuscation (cc_server cfg)) (cc_password cfg) = Inr (cr_server_key rt) \<and>
    (bond_addr = None \<longleftrightarrow> cr_bond rt = None) \<and> (\<forall>b. cr_bond rt = Some b \<longrightarrow> bp_links b \<noteq> 0)"
  using assms
  by (auto simp: start_client_def client_from_config_def dest!: client_loadD split: sum.splits option.splits)

lemma keys_connect:
  assumes "env_ok E" and "config_agree c1 s1 c2 s2"
    and k: "to_key c1 s1 = Inr kc" "to_key c2 s2 = Inr ks" and "sid \<noteq> 0" and "role = MuxTunnel \<or> allow_bond"
  shows "\<exists>c s. run_handshake E kc ks rc rs role sid allow_bond = (Inr (), Inr role, Inr sid, c, s) \<and>
    chan_sync (t_tx c) (t_rx s) \<and> chan_sync (t_tx s) (t_rx c)"
proof -
  have agree: "key_agree True kc ks" "max_nop_packets kc = max_nop_packets ks"
    using config_agree_keys [OF assms(2) k] by blast+
  then have "key_agree False kc ks" by (simp add: key_agree_def)
  moreover have "effective_role role allow_bond = role" using assms(6) by (cases role) (auto simp: effective_role_def)
  ultimately show ?thesis
    using run_handshake_result [OF assms(1) _ agree(2) to_key_fields(1) [OF k(1)] to_key_fields(1) [OF k(2)]
        assms(5), where role = role and allow_bond = allow_bond and rc = rc and rs = rs]
      key_agree_flag_canary [OF agree(1)]
    by auto
qed

text \<open>
  C6.  A server and a client started from configurations that mean the same connect: when the
  obfuscation sections agree up to the spelling of the cipher names and the place where a password is
  set, and both programs start, the handshake of a mux tunnel succeeds on both sides with the two
  directions in step, and so does that of a bond link when the server enables bonding.
\<close>

theorem launched_endpoints_connect:
  assumes "env_ok E" and "start_server sbind scfg = Inr (saddr, srt)" and "start_client cbind ccfg = Inr (caddr, baddr, crt)"
    and "config_agree (ss_obfuscation (cc_server ccfg)) (cc_password ccfg) (sc_obfuscation scfg) (sc_password scfg)"
    and "sid \<noteq> 0" and "role = MuxTunnel \<or> sc_bond_enabled scfg"
  shows "\<exists>c s. run_handshake E (cr_server_key crt) (sr_key srt) rc rs role sid (sr_allow_bond srt) =
      (Inr (), Inr role, Inr sid, c, s) \<and>
    chan_sync (t_tx c) (t_rx s) \<and> chan_sync (t_tx s) (t_rx c)"
  using keys_connect [OF assms(1,4) _ _ assms(5), of "cr_server_key crt" "sr_key srt" role "sr_allow_bond srt" rc rs]
    start_serverD [OF assms(2)] start_clientD [OF assms(3)] assms(6)
  by auto

definition demo_server_config :: server_config where
  "demo_server_config =
     (server_config_default ''0.0.0.0:443'')\<lparr>sc_obfuscation := obfuscation_config_default, sc_password := None\<rparr>"

definition demo_client_config :: client_config where
  "demo_client_config =
     \<lparr>cc_listen = ''127.0.0.1:1080'', cc_bond = None, cc_password = Some ''nextppp'', cc_max_connections = None,
      cc_server = \<lparr>ss_address = ''Ex.org:443'', ss_connect_timeout = 10, ss_connect_retries = 1,
        ss_mux = mux_section_default,
        ss_obfuscation = obfuscation_config_default\<lparr>oc_protocol_key := Some ''nextppp'', oc_protocol := '' AES-128-CFB''\<rparr>\<rparr>\<rparr>"

theorem launched_endpoints_connect_witness:
  "\<exists>saddr srt caddr crt c s.
    start_server (\<lambda>_. None) demo_server_config = Inr (saddr, srt) \<and>
    start_client (\<lambda>_. None) demo_client_config = Inr (caddr, None, crt) \<and>
    run_handshake demo_env (cr_server_key crt) (sr_key srt) 0 1 MuxTunnel 7 (sr_allow_bond srt) =
      (Inr (), Inr MuxTunnel, Inr 7, c, s)"
proof -
  let ?c = "obfuscation_config_default\<lparr>oc_protocol_key := Some ''nextppp'', oc_protocol := '' AES-128-CFB''\<rparr>"
  have m: "method_from_name '' AES-128-CFB'' = Some Aes128Cfb" by code_simp
  have e: "to_key ?c (Some ''nextppp'') = Inr default_key"
    using m method_from_name_name [of "ok_transport default_key"]
    by (simp add: to_key_def obfuscation_config_default_def resolve_password_def config_method_def
        Let_def default_key_def validate_def np_consts)
  have addrs: "parse_with read_socket_addr ''0.0.0.0:443'' = Some (IpV4 0, 443)"
    "parse_with read_socket_addr ''127.0.0.1:1080'' = Some (IpV4 0x7f000001, 1080)"
    "parse_host_port ''Ex.org:443'' = Inr (Domain (host_bytes ''Ex.org''), 443)"
    by code_simp+
  obtain srt where s: "start_server (\<lambda>_. None) demo_server_config = Inr ((IpV4 0, 443), srt)"
    using to_key_default addrs(1)
    by (simp add: start_server_def demo_server_config_def server_load_def launch_bind_def server_from_config_def
        server_config_default_def)
  obtain crt where c: "start_client (\<lambda>_. None) demo_client_config = Inr ((IpV4 0x7f000001, 1080), None, crt)"
    using e addrs(2,3)
    by (simp add: start_client_def demo_client_config_def client_load_def launch_bind_def client_from_config_def)
  have "config_agree ?c (Some ''nextppp'') obfuscation_config_default None"
    using m method_from_name_name [of "ok_protocol default_key"]
    by (simp add: config_agree_def obfuscation_config_default_def Let_def default_key_def
        resolve_password_def PLACEHOLDER_PASSWORD_def)
  then show ?thesis
    using launched_endpoints_connect [OF demo_env_ok s c, of 7 MuxTunnel 0 1] s c
    by (auto simp: demo_server_config_def demo_client_config_def)
qed

end
