(* ===== verification/Listen.thy ===== *)
theory Listen
  imports Launch
begin

text \<open>
  The listening socket (\<open>common/src/listen.rs\<close>): the system calls of \<open>bind_listen\<close> in their order for each
  build target, what they leave on the socket, and the start of both roles with a listener made this
  way.  The operating system's answer to a call is a parameter.
\<close>

section \<open>Opening the socket\<close>

datatype build_target = TargetLinux | TargetUnix | TargetWindows | TargetOther

datatype sock_call =
  SocketNew bool
| SetReuseAddress bool
| SetDeferAccept int
| SocketBind "ip_addr \<times> int"
| SocketListen int

text \<open>A socket and its options; \<open>lk_calls\<close> lists the calls made on it.\<close>

record listen_socket =
  lk_v6 :: bool
  lk_reuse :: bool
  lk_defer :: "int option"
  lk_bound :: "(ip_addr \<times> int) option"
  lk_backlog :: "int option"
  lk_calls :: "sock_call list"

definition LISTEN_BACKLOG :: int where "LISTEN_BACKLOG = 4096"

fun is_v6 :: "ip_addr \<Rightarrow> bool" where
  "is_v6 (IpV4 _) = False"
| "is_v6 (IpV6 _) = True"

fun sock_effect :: "sock_call \<Rightarrow> listen_socket \<Rightarrow> listen_socket" where
  "sock_effect (SocketNew v6) s = s\<lparr>lk_v6 := v6\<rparr>"
| "sock_effect (SetReuseAddress b) s = s\<lparr>lk_reuse := b\<rparr>"
| "sock_effect (SetDeferAccept t) s = s\<lparr>lk_defer := Some t\<rparr>"
| "sock_effect (SocketBind addr) s = s\<lparr>lk_bound := Some addr\<rparr>"
| "sock_effect (SocketListen backlog) s = s\<lparr>lk_backlog := Some backlog\<rparr>"

text \<open>One call and the \<open>?\<close> behind it: the first failure ends the sequence.\<close>

definition sock_try ::
  "(sock_call \<Rightarrow> error_kind option) \<Rightarrow> sock_call \<Rightarrow> error_kind + unit \<Rightarrow> listen_socket \<Rightarrow>
   (error_kind + unit) \<times> listen_socket" where
  "sock_try sys call r s =
     (case r of
        Inl k \<Rightarrow> (r, s)
      | Inr _ \<Rightarrow>
          (case sys call of
             Some k \<Rightarrow> (Inl k, s\<lparr>lk_calls := lk_calls s @ [call]\<rparr>)
           | None \<Rightarrow> (Inr (), (sock_effect call s)\<lparr>lk_calls := lk_calls s @ [call]\<rparr>)))"

definition set_defer_accept ::
  "(sock_call \<Rightarrow> error_kind option) \<Rightarrow> error_kind + unit \<Rightarrow> listen_socket \<Rightarrow> (error_kind + unit) \<times> listen_socket" where
  "set_defer_accept sys r s = sock_try sys (SetDeferAccept 30) r s"

definition socket_blank :: listen_socket where
  "socket_blank = \<lparr>lk_v6 = False, lk_reuse = False, lk_defer = None, lk_bound = None, lk_backlog = None, lk_calls = []\<rparr>"

definition bind_listen ::
  "build_target \<Rightarrow> (sock_call \<Rightarrow> error_kind option) \<Rightarrow> ip_addr \<times> int \<Rightarrow> (error_kind + unit) \<times> listen_socket" where
  "bind_listen target sys addr =
     (let (r, s) = sock_try sys (SocketNew (is_v6 (fst addr))) (Inr ()) socket_blank;
          (r, s) = (if target \<noteq> TargetWindows then sock_try sys (SetReuseAddress True) r s else (r, s));
          (r, s) = (if target = TargetLinux then set_defer_accept sys r s else (r, s));
          (r, s) = sock_try sys (SocketBind addr) r s
      in sock_try sys (SocketListen LISTEN_BACKLOG) r s)"

section \<open>What the listener is\<close>

text \<open>The calls of a target, in order.\<close>

definition listen_calls :: "build_target \<Rightarrow> ip_addr \<times> int \<Rightarrow> sock_call list" where
  "listen_calls target addr =
     [SocketNew (is_v6 (fst addr))] @ (if target = TargetWindows then [] else [SetReuseAddress True]) @
     (if target = TargetLinux then [SetDeferAccept 30] else []) @ [SocketBind addr, SocketListen LISTEN_BACKLOG]"

text \<open>
  The calls made are those of the target up to and including the first that fails, whose error is the
  result; without a failure the socket carries exactly the options of the target.
\<close>

lemmas listen_unfold = bind_listen_def sock_try_def set_defer_accept_def socket_blank_def listen_calls_def Let_def

lemma bind_listen_ok:
  assumes "\<forall>c \<in> set (listen_calls target addr). sys c = None"
  shows "bind_listen target sys addr =
    (Inr (), \<lparr>lk_v6 = is_v6 (fst addr), lk_reuse = (target \<noteq> TargetWindows),
       lk_defer = (if target = TargetLinux then Some 30 else None), lk_bound = Some addr,
       lk_backlog = Some 4096, lk_calls = listen_calls target addr\<rparr>)"
  using assms by (cases target) (simp_all add: listen_unfold LISTEN_BACKLOG_def)

lemma bind_listen_error:
  assumes "listen_calls target addr = pre @ c # post" and "\<forall>d \<in> set pre. sys d = None" and "sys c = Some k"
  shows "\<exists>s. bind_listen target sys addr = (Inl k, s) \<and> lk_calls s = pre @ [c] \<and> lk_backlog s = None"
proof -
  obtain r s where r: "bind_listen target sys addr = (r, s)" by (metis prod.exhaust)
  have "r = Inl k \<and> lk_calls s = pre @ [c] \<and> lk_backlog s = None"
    using assms r
    by (cases target)
      (auto simp: listen_unfold Cons_eq_append_conv append_eq_Cons_conv LISTEN_BACKLOG_def
        split: option.splits sum.splits)
  with r show ?thesis by simp
qed

text \<open>
  On Windows, where the option would let another process take the port, no execution sets address reuse;
  every option is set before the socket is bound.
\<close>

lemma bind_listen_calls_prefix:
  "\<exists>rest. lk_calls (snd (bind_listen target sys addr)) @ rest = listen_calls target addr"
  by (cases target) (auto simp: listen_unfold LISTEN_BACKLOG_def split: option.splits sum.splits prod.splits)

lemma windows_never_reuses: "SetReuseAddress b \<notin> set (lk_calls (snd (bind_listen TargetWindows sys addr)))"
proof -
  obtain rest where "lk_calls (snd (bind_listen TargetWindows sys addr)) @ rest = listen_calls TargetWindows addr"
    using bind_listen_calls_prefix by blast
  moreover have "SetReuseAddress b \<notin> set (listen_calls TargetWindows addr)" by (simp add: listen_calls_def)
  ultimately show ?thesis by (metis Un_iff set_append)
qed

section \<open>Starting with such a listener\<close>

text \<open>The answer of \<open>bind_listen\<close> as \<open>main.rs\<close> sees it.\<close>

definition listen_answer ::
  "build_target \<Rightarrow> (sock_call \<Rightarrow> error_kind option) \<Rightarrow> ip_addr \<times> int \<Rightarrow> error_kind option" where
  "listen_answer target sys addr =
     (case fst (bind_listen target sys addr) of Inl k \<Rightarrow> Some k | Inr _ \<Rightarrow> None)"

lemma listening_socket:
  assumes "listen_answer target sys addr = None"
  shows "lk_bound (snd (bind_listen target sys addr)) = Some addr \<and>
    lk_backlog (snd (bind_listen target sys addr)) = Some 4096 \<and>
    lk_reuse (snd (bind_listen target sys addr)) = (target \<noteq> TargetWindows)"
proof (cases "\<exists>c \<in> set (listen_calls target addr). sys c \<noteq> None")
  case True
  from split_list_first_prop [OF this] obtain pre c post
    where "listen_calls target addr = pre @ c # post" "sys c \<noteq> None" "\<forall>d \<in> set pre. sys d = None" by auto
  then have False using bind_listen_error [of target addr pre c post sys] assms by (auto simp: listen_answer_def)
  then show ?thesis ..
next
  case False
  then show ?thesis by (simp add: bind_listen_ok)
qed

lemma launch_bindD: "launch_bind bind spec = Inr addr \<Longrightarrow> parse_with read_socket_addr spec = Some addr \<and> bind addr = None"
  by (auto simp: launch_bind_def split: option.splits)

text \<open>A server that starts listens on the literal address of its configuration.\<close>

lemma started_server_listens:
  assumes "start_server (listen_answer target sys) cfg = Inr (addr, rt)"
  shows "parse_with read_socket_addr (sc_listen cfg) = Some addr \<and>
    lk_bound (snd (bind_listen target sys addr)) = Some addr"
  using assms listening_socket [of target sys addr]
  by (auto simp: start_server_def dest!: server_loadD launch_bindD split: sum.splits)

end
