(* ===== verification/Link.thy ===== *)
theory Link
  imports Core_Properties
begin

text \<open>
  The carrier adapters of bonded tunnels (\<open>common/src/link.rs\<close>): a session and its socket presented as a
  byte stream.  A poll that cannot go on is a result of its own; what the socket answers to successive
  polls is a list.  A decoded frame is never empty (\<open>decoded_frame_nonempty\<close> below), so the pass of
  the read loop that decodes one is always followed by the pass that serves from it.
\<close>

section \<open>The receiving half\<close>

definition WIRE_CAP :: nat where "WIRE_CAP = BASE94_MAX_FRAME + 64"

definition core_to_io :: "core_error \<Rightarrow> error_kind" where
  "core_to_io e = (case e of Io k \<Rightarrow> k | _ \<Rightarrow> InvalidData)"

record link_read =
  lr_session :: session_rx
  lr_wire :: bytes
  lr_plain :: bytes

definition link_read_new :: "session_rx \<Rightarrow> link_read" where
  "link_read_new s = \<lparr>lr_session = s, lr_wire = [], lr_plain = []\<rparr>"

text \<open>The end of the carrier is clean only between frames.\<close>

definition link_eof ::
  "session_rx \<Rightarrow> bytes \<Rightarrow> carrier_read list \<Rightarrow> (error_kind + bytes option) \<times> session_rx \<times> bytes \<times> carrier_read list" where
  "link_eof s wire reads =
     (if wire = [] \<and> \<not> is_frame_pending s then (Inr None, s, wire, reads)
      else (Inl UnexpectedEof, s, wire, reads))"

function link_fill ::
  "'r env_ops \<Rightarrow> session_rx \<Rightarrow> bytes \<Rightarrow> carrier_read list \<Rightarrow>
   (error_kind + bytes option) \<times> session_rx \<times> bytes \<times> carrier_read list" where
  "link_fill E s wire reads =
     (case session_step E s wire of
        (Inl e, s', wire') \<Rightarrow> (Inl (core_to_io e), s', wire', reads)
      | (Inr (Some m), s', wire') \<Rightarrow> (Inr (Some m), s', wire', reads)
      | (Inr None, s', wire') \<Rightarrow>
          if length wire' > WIRE_CAP then (Inl (core_to_io InvalidFrame), s', wire', reads)
          else (case reads of
                  [] \<Rightarrow> link_eof s' wire' []
                | ReadErr k # rs \<Rightarrow> (Inl k, s', wire', rs)
                | Chunk c # rs \<Rightarrow>
                    if c = [] then link_eof s' wire' rs else link_fill E s' (wire' @ c) rs))"
  by pat_completeness auto
termination by (relation "measure (\<lambda>(E, s, wire, reads). length reads)") auto

declare link_fill.simps [simp del]

text \<open>
  A carrier that is not ready makes \<open>poll_read\<close> return \<open>Pending\<close> with what \<open>poll_frame\<close> has parsed kept in the
  half.  The next poll starts over from there and comes to the same result, so the chunks of \<open>reads\<close> may
  arrive in any number of polls.
\<close>

lemma poll_frame_idle:
  assumes idle: "poll_frame E s wire = (Inr None, s', wire')"
  shows "poll_frame E s' wire' = (Inr None, s', wire')"
proof (cases "\<not> rx_handshaked (sr_core s) \<or> ok_plaintext (rx_key (sr_core s))")
  case True
  then have "s' = s \<and> wire' = wire"
    using idle by (simp add: poll_frame_def Let_def split: option.splits sum.splits prod.splits if_splits)
  then show ?thesis using idle by simp
next
  case False
  show ?thesis
  proof (cases "sr_pending_binary s = None \<and> HEADER_SIZE \<le> length wire")
    case True
    with False idle obtain len kf p where "s' = s\<lparr>sr_core := (sr_core s)\<lparr>rx_protocol := p\<rparr>,
        sr_pending_binary := Some (len, kf)\<rparr>" "length wire' < len"
      by (auto simp: poll_frame_def Let_def split: sum.splits prod.splits if_splits)
    with False show ?thesis by (simp add: poll_frame_def Let_def)
  next
    case short: False
    with False idle have "s' = s \<and> wire' = wire"
      by (auto simp: poll_frame_def Let_def not_le split: option.splits prod.splits if_splits)
    then show ?thesis using idle by simp
  qed
qed

lemma session_step_idle:
  assumes "session_step E s wire = (Inr None, s', wire')"
  shows "session_step E s' wire' = (Inr None, s', wire')"
proof -
  have "poll_frame E s wire = (Inr None, s', wire')"
    using assms by (auto simp: session_step_def take_consumed_def split: sum.splits option.splits prod.splits)
  then have "poll_frame E s' wire' = (Inr None, s', wire')" by (rule poll_frame_idle)
  then show ?thesis by (simp add: session_step_def)
qed

lemma link_fill_repolled:
  assumes "session_step E s wire = (Inr None, s', wire')"
  shows "link_fill E s' wire' reads = link_fill E s wire reads"
  by (simp add: link_fill.simps [of E s] link_fill.simps [of E s'] assms session_step_idle [OF assms])

text \<open>\<open>poll_read\<close> into a buffer with room for \<open>cap\<close> bytes; no bytes mean the end of the stream.\<close>

definition link_poll_read ::
  "'r env_ops \<Rightarrow> nat \<Rightarrow> link_read \<Rightarrow> carrier_read list \<Rightarrow> (error_kind + bytes) \<times> link_read \<times> carrier_read list" where
  "link_poll_read E cap lr reads =
     (if lr_plain lr \<noteq> []
      then (Inr (take cap (lr_plain lr)), lr\<lparr>lr_plain := drop cap (lr_plain lr)\<rparr>, reads)
      else case link_fill E (lr_session lr) (lr_wire lr) reads of
             (Inl k, s, wire, rs) \<Rightarrow> (Inl k, lr\<lparr>lr_session := s, lr_wire := wire\<rparr>, rs)
           | (Inr None, s, wire, rs) \<Rightarrow> (Inr [], lr\<lparr>lr_session := s, lr_wire := wire\<rparr>, rs)
           | (Inr (Some m), s, wire, rs) \<Rightarrow>
               (Inr (take cap m), \<lparr>lr_session = s, lr_wire = wire, lr_plain = drop cap m\<rparr>, rs))"

text \<open>Successive reads, with the room each caller gives; the first error stops them.\<close>

fun link_reads ::
  "'r env_ops \<Rightarrow> nat list \<Rightarrow> link_read \<Rightarrow> carrier_read list \<Rightarrow> (error_kind + bytes) \<times> link_read \<times> carrier_read list" where
  "link_reads E [] lr reads = (Inr [], lr, reads)"
| "link_reads E (cap # caps) lr reads =
     (case link_poll_read E cap lr reads of
        (Inl k, lr', reads') \<Rightarrow> (Inl k, lr', reads')
      | (Inr bs, lr', reads') \<Rightarrow>
          (case link_reads E caps lr' reads' of
             (Inl k, lr'', reads'') \<Rightarrow> (Inl k, lr'', reads'')
           | (Inr bs', lr'', reads'') \<Rightarrow> (Inr (bs @ bs'), lr'', reads'')))"

section \<open>The sending half\<close>

datatype carrier_write = Accept nat | WritePending | WriteErr error_kind

datatype flush_result = FlushOk | FlushPending | FlushErr error_kind

text \<open>\<open>out\<close> is the unsent rest of the frame in flight, \<open>sent\<close> what the carrier has taken.\<close>

record 'r link_write =
  lw_session :: "'r tx_core"
  lw_out :: bytes
  lw_sent :: bytes

definition link_write_new :: "'r tx_core \<Rightarrow> 'r link_write" where
  "link_write_new tx = \<lparr>lw_session = tx, lw_out = [], lw_sent = []\<rparr>"

function flush_out :: "carrier_write list \<Rightarrow> 'r link_write \<Rightarrow> flush_result \<times> carrier_write list \<times> 'r link_write" where
  "flush_out ws lw =
     (if lw_out lw = [] then (FlushOk, ws, lw)
      else case ws of
             [] \<Rightarrow> (FlushPending, [], lw)
           | WritePending # ws' \<Rightarrow> (FlushPending, ws', lw)
           | WriteErr k # ws' \<Rightarrow> (FlushErr k, ws', lw)
           | Accept n # ws' \<Rightarrow>
               if n = 0 then (FlushErr WriteZero, ws', lw)
               else flush_out ws'
                      (lw\<lparr>lw_out := drop n (lw_out lw), lw_sent := lw_sent lw @ take n (lw_out lw)\<rparr>))"
  by pat_completeness auto
termination by (relation "measure (\<lambda>(ws, lw). length ws)") auto

declare flush_out.simps [simp del]

datatype write_result = WroteBytes nat | WroteNothing | WriteFailed error_kind

definition link_accept ::
  "'r env_ops \<Rightarrow> bytes \<Rightarrow> carrier_write list \<Rightarrow> 'r link_write \<Rightarrow> write_result \<times> carrier_write list \<times> 'r link_write" where
  "link_accept E buf ws lw =
     (let len = min (length buf) PPP_BUFFER_SIZE
      in if len = 0 then (WroteBytes 0, ws, lw)
         else case encrypt_into E (lw_session lw) (lw_out lw) (take len buf) of
                (Inl e, tx, out) \<Rightarrow> (WriteFailed (core_to_io e), ws, lw\<lparr>lw_session := tx, lw_out := out\<rparr>)
              | (Inr _, tx, out) \<Rightarrow>
                  (case flush_out ws (lw\<lparr>lw_session := tx, lw_out := out\<rparr>) of
                     (FlushErr k, ws', lw') \<Rightarrow> (WriteFailed k, ws', lw')
                   | (_, ws', lw') \<Rightarrow> (WroteBytes len, ws', lw')))"

definition link_poll_write ::
  "'r env_ops \<Rightarrow> bytes \<Rightarrow> carrier_write list \<Rightarrow> 'r link_write \<Rightarrow> write_result \<times> carrier_write list \<times> 'r link_write" where
  "link_poll_write E buf ws lw =
     (case flush_out ws lw of
        (FlushOk, ws', lw') \<Rightarrow> link_accept E buf ws' lw'
      | (FlushPending, ws', lw') \<Rightarrow> (WroteNothing, ws', lw')
      | (FlushErr k, ws', lw') \<Rightarrow> (WriteFailed k, ws', lw'))"

text \<open>\<open>poll_flush\<close> and \<open>poll_shutdown\<close>: the frame in flight first, then the socket's own answer.\<close>

definition link_poll_flush ::
  "flush_result \<Rightarrow> carrier_write list \<Rightarrow> 'r link_write \<Rightarrow> flush_result \<times> carrier_write list \<times> 'r link_write" where
  "link_poll_flush sock_flush ws lw =
     (case flush_out ws lw of (FlushOk, ws', lw') \<Rightarrow> (sock_flush, ws', lw') | r \<Rightarrow> r)"

definition link_poll_shutdown ::
  "flush_result \<Rightarrow> carrier_write list \<Rightarrow> 'r link_write \<Rightarrow> flush_result \<times> carrier_write list \<times> 'r link_write" where
  "link_poll_shutdown sock_shutdown ws lw =
     (case flush_out ws lw of (FlushOk, ws', lw') \<Rightarrow> (sock_shutdown, ws', lw') | r \<Rightarrow> r)"

text \<open>\<open>split_link\<close> of a session whose socket the runtime took over, or the error of taking it over.\<close>

definition split_link :: "error_kind option \<Rightarrow> 'r session \<Rightarrow> error_kind + link_read \<times> 'r link_write" where
  "split_link setup s =
     (case setup of
        Some k \<Rightarrow> Inl k
      | None \<Rightarrow> (let (stx, srx) = session_split s in Inr (link_read_new srx, link_write_new stx)))"

text \<open>Successive writes; the bytes accepted so far are returned, and the first failure stops them.\<close>

fun link_writes ::
  "'r env_ops \<Rightarrow> bytes list \<Rightarrow> carrier_write list \<Rightarrow> 'r link_write \<Rightarrow>
   (error_kind + bytes) \<times> carrier_write list \<times> 'r link_write" where
  "link_writes E [] ws lw = (Inr [], ws, lw)"
| "link_writes E (b # bs) ws lw =
     (case link_poll_write E b ws lw of
        (WriteFailed k, ws', lw') \<Rightarrow> (Inl k, ws', lw')
      | (r, ws', lw') \<Rightarrow>
          (let n = (case r of WroteBytes n \<Rightarrow> n | _ \<Rightarrow> 0)
           in case link_writes E bs ws' lw' of
                (Inl k, ws'', lw'') \<Rightarrow> (Inl k, ws'', lw'')
              | (Inr acc, ws'', lw'') \<Rightarrow> (Inr (take n b @ acc), ws'', lw'')))"

section \<open>The read loop is the tunnel's reassembly loop with a stricter end\<close>

lemma WIRE_CAP_eq: "WIRE_CAP = BUF_CAP"
  by (simp add: WIRE_CAP_def BUF_CAP_def)

lemma link_fill_next:
  "link_fill E s wire reads =
     (case next_loop (session_step E) s wire reads of
        (Inl e, s', wire', rs) \<Rightarrow> (Inl (core_to_io e), s', wire', rs)
      | (Inr (Some m), s', wire', rs) \<Rightarrow> (Inr (Some m), s', wire', rs)
      | (Inr None, s', wire', rs) \<Rightarrow> link_eof s' wire' rs)"
proof (induction E s wire reads rule: link_fill.induct)
  case (1 E s wire reads)
  show ?case
    by (subst link_fill.simps, subst next_loop.simps)
      (auto simp: "1.IH" WIRE_CAP_eq core_to_io_def split: sum.split option.split list.split carrier_read.split prod.split)
qed

text \<open>What the decoder hands out is never empty, for the ciphers and headers a session can hold.\<close>

lemma decoded_frame_nonempty:
  assumes "cipher_wf (rx_transport (sr_core s))" and "\<And>len hk. sr_pending_binary s = Some (len, hk) \<Longrightarrow> 0 < len"
    and "session_step E s buf = (Inr (Some m), s', buf')"
  shows "m \<noteq> []"
proof -
  have empty: "cipher_apply cr (rx_transport (sr_core s)) (payload_deobfuscate d fl hk kf) = ([], t) \<Longrightarrow> d = []"
    for cr d fl hk kf t
    using cipher_apply_length [OF assms(1), of cr "payload_deobfuscate d fl hk kf"] by simp
  have poll: "poll_frame E s buf = (Inr (Some m), s1, b1) \<Longrightarrow> m \<noteq> []" for s1 b1
    using assms(2)
    by (auto dest!: empty simp: poll_frame_def Let_def rx_tail_def rx_finish_def decrypt_tail_def parse_binary_header_def
        split: if_splits sum.splits option.splits prod.splits)
  show ?thesis using assms(3) poll
    by (auto simp: session_step_def split: sum.splits option.splits prod.splits)
qed

section \<open>The sending half frames what it accepts\<close>

text \<open>
  \<open>link_sent E rx lw bs\<close>: what went out and what is in flight are together the frames of \<open>bs\<close> for the
  receiver \<open>rx\<close>.
\<close>

definition link_sent :: "'r env_ops \<Rightarrow> rx_core \<Rightarrow> 'r link_write \<Rightarrow> bytes \<Rightarrow> bool" where
  "link_sent E rx lw bs \<longleftrightarrow>
     (\<exists>ms rx'. frames_of (wire_for E) rx (lw_sent lw @ lw_out lw) ms rx' \<and> [] \<notin> set ms \<and> bs = concat ms \<and>
        chan_sync (lw_session lw) rx')"

lemma link_sent_new: "chan_sync tx rx \<Longrightarrow> link_sent E rx (link_write_new tx) []"
  unfolding link_sent_def by (intro exI [of _ "[]"] exI [of _ rx]) (simp add: link_write_new_def)

lemma flush_out_keeps:
  "flush_out ws lw = (r, ws', lw') \<Longrightarrow>
   lw_sent lw' @ lw_out lw' = lw_sent lw @ lw_out lw \<and> lw_session lw' = lw_session lw \<and>
   (r = FlushOk \<longleftrightarrow> lw_out lw' = [])"
proof (induction ws lw rule: flush_out.induct)
  case (1 ws lw)
  show ?case
    using 1 flush_out.simps [of ws lw]
    by (auto split: if_splits list.splits carrier_write.splits)
qed

lemma link_sent_flush:
  "flush_out ws lw = (r, ws', lw') \<Longrightarrow> link_sent E rx lw' bs \<longleftrightarrow> link_sent E rx lw bs"
  using flush_out_keeps [of ws lw r ws' lw'] by (simp add: link_sent_def)

lemma link_sent_encrypt:
  assumes "env_ok E" and "link_sent E rx lw bs" and "sendable m"
  shows "\<exists>tx' out'. encrypt_into E (lw_session lw) (lw_out lw) m = (Inr (), tx', out') \<and>
    link_sent E rx (lw\<lparr>lw_session := tx', lw_out := out'\<rparr>) (bs @ m)"
proof -
  obtain ms rx1 where ms: "frames_of (wire_for E) rx (lw_sent lw @ lw_out lw) ms rx1" "[] \<notin> set ms"
    "bs = concat ms" "chan_sync (lw_session lw) rx1"
    using assms(2) by (auto simp: link_sent_def)
  obtain w tx' rx2 where w: "encrypt_into E (lw_session lw) (lw_out lw) m = (Inr (), tx', lw_out lw @ w)"
    "wire_for E rx1 w m rx2" "chan_sync tx' rx2"
    using encrypt_into_ok [OF assms(1) ms(4) assms(3)] by blast
  have "frames_of (wire_for E) rx ((lw_sent lw @ lw_out lw) @ w) (ms @ [m]) rx2"
    using frames_of_append [OF ms(1), of w "[m]" rx2] w(2) by auto
  then show ?thesis
    using w(1,3) ms(2,3) assms(3)
    by (auto simp: link_sent_def sendable_def intro!: exI [of _ "ms @ [m]"] exI [of _ rx2])
qed

lemma link_poll_write_sent:
  assumes "env_ok E" and "link_sent E rx lw bs" and "link_poll_write E buf ws lw = (r, ws', lw')"
  shows "(\<forall>n. r = WroteBytes n \<longrightarrow> link_sent E rx lw' (bs @ take n buf)) \<and>
    (r = WroteNothing \<longrightarrow> link_sent E rx lw' bs)"
proof -
  obtain f ws1 lw1 where f: "flush_out ws lw = (f, ws1, lw1)" by (cases "flush_out ws lw") auto
  have s1: "link_sent E rx lw1 bs" using link_sent_flush [OF f] assms(2) by simp
  show ?thesis
  proof (cases "f = FlushOk \<and> buf \<noteq> []")
    case True
    let ?n = "min (length buf) PPP_BUFFER_SIZE"
    have n: "?n \<noteq> 0" "sendable (take ?n buf)" using True by (auto simp: sendable_def np_consts)
    obtain tx' out' where e: "encrypt_into E (lw_session lw1) (lw_out lw1) (take ?n buf) = (Inr (), tx', out')"
      "link_sent E rx (lw1\<lparr>lw_session := tx', lw_out := out'\<rparr>) (bs @ take ?n buf)"
      using link_sent_encrypt [OF assms(1) s1 n(2)] by blast
    obtain g ws2 lw2 where g: "flush_out ws1 (lw1\<lparr>lw_session := tx', lw_out := out'\<rparr>) = (g, ws2, lw2)"
      by (cases "flush_out ws1 (lw1\<lparr>lw_session := tx', lw_out := out'\<rparr>)") auto
    show ?thesis
      using assms(3) True f e n(1) g link_sent_flush [OF g, of E rx "bs @ take ?n buf"]
      by (auto simp: link_poll_write_def link_accept_def Let_def split: flush_result.splits)
  next
    case False
    then show ?thesis
      using assms(3) f s1 by (auto simp: link_poll_write_def link_accept_def Let_def split: flush_result.splits)
  qed
qed

lemma link_writes_sent:
  assumes "env_ok E" and "link_sent E rx lw bs" and "link_writes E bufs ws lw = (Inr acc, ws', lw')"
  shows "link_sent E rx lw' (bs @ acc)"
  using assms(2,3)
proof (induction bufs arbitrary: ws lw bs acc)
  case (Cons b bufs)
  obtain r ws1 lw1 where r: "link_poll_write E b ws lw = (r, ws1, lw1)" by (cases "link_poll_write E b ws lw") auto
  note s = link_poll_write_sent [OF assms(1) Cons.prems(1) r]
  show ?case
    using Cons.prems(2) r s Cons.IH
    by (cases r) (fastforce split: sum.splits prod.splits)+
qed simp

section \<open>The receiving half serves the frames as bytes\<close>

text \<open>
  \<open>link_holds E lr reads bs t\<close>: the bytes \<open>bs\<close> are still to be served, and behind the last complete
  frame the carrier delivers \<open>t\<close>, nothing or the beginning of a frame.
\<close>

definition link_holds :: "'r env_ops \<Rightarrow> link_read \<Rightarrow> carrier_read list \<Rightarrow> bytes \<Rightarrow> bytes \<Rightarrow> bool" where
  "link_holds E lr reads bs t \<longleftrightarrow>
     (\<exists>rx rx' w p cs ms. reads = map Chunk cs \<and> [] \<notin> set cs \<and> [] \<notin> set ms \<and>
        session_rep E (lr_session lr) (lr_wire lr) rx p \<and> frames_of (wire_for E) rx w ms rx' \<and>
        p @ concat cs = w @ t \<and> bs = lr_plain lr @ concat ms \<and>
        (t = [] \<or> (\<exists>q m rx''. q \<noteq> [] \<and> wire_for E rx' (t @ q) m rx'')))"

lemma link_holds_new:
  assumes "frames_of (wire_for E) rx w ms rx'" and "[] \<notin> set ms" and "concat cs = w @ t" and "[] \<notin> set cs"
    and "t = [] \<or> (\<exists>q m rx''. q \<noteq> [] \<and> wire_for E rx' (t @ q) m rx'')"
  shows "link_holds E (link_read_new (ss_rx (from_cores tx rx sid))) (map Chunk cs) (concat ms) t"
  unfolding link_holds_def
  by (intro exI [of _ rx] exI [of _ rx'] exI [of _ w] exI [of _ "[]"] exI [of _ cs] exI [of _ ms])
    (use assms session_rep_new [of E tx rx sid] in \<open>simp add: link_read_new_def\<close>)

lemma session_rep_idle:
  assumes "session_rep E s wire rx []"
  shows "wire = [] \<and> \<not> is_frame_pending s \<and> session_step E s [] = (Inr None, s, [])"
  using assms
  by (auto simp: session_rep_def is_frame_pending_def session_step_def poll_frame_def peek_frame_len_def
      rx_header_len_def np_consts split: option.splits)

lemma session_rep_pending:
  assumes "session_rep E s wire rx t" and "t \<noteq> []"
  shows "wire \<noteq> [] \<or> is_frame_pending s"
  using assms by (auto simp: session_rep_def is_frame_pending_def split: option.splits)

lemma link_fill_end:
  assumes "session_rep E s wire rx p" and "[] \<notin> set cs" and "p @ concat cs = t"
    and "t = [] \<or> (\<exists>q m rx''. q \<noteq> [] \<and> wire_for E rx (t @ q) m rx'')"
  shows "\<exists>s' wire'. link_fill E s wire (map Chunk cs) =
    (if t = [] then Inr None else Inl UnexpectedEof, s', wire', []) \<and> session_rep E s' wire' rx t"
proof (cases "t = []")
  case True
  then have "p = []" "cs = []" using assms(2,3) by (auto, cases cs) auto
  then show ?thesis
    using True session_rep_idle [of E s wire rx] assms(1)
    by (simp add: link_fill.simps link_eof_def)
next
  case False
  then obtain q m rx'' where q: "q \<noteq> []" "wire_for E rx (p @ concat cs @ q) m rx''"
    using assms(3,4) by (metis append_assoc)
  obtain s' wire' where n: "next_loop (session_step E) s wire (map Chunk cs) = (Inr None, s', wire', [])"
    "session_rep E s' wire' rx (p @ concat cs)"
    using sess.next_truncated [OF assms(1) q(2) q(1) assms(2)] by blast
  then show ?thesis
    using False assms(3) session_rep_pending [OF n(2)] by (auto simp: link_fill_next link_eof_def)
qed

lemma link_read_data:
  assumes "link_holds E lr reads bs t" and "bs \<noteq> []" and "0 < cap"
  shows "\<exists>got lr' reads' rest. link_poll_read E cap lr reads = (Inr got, lr', reads') \<and> got \<noteq> [] \<and>
    bs = got @ rest \<and> link_holds E lr' reads' rest t"
proof -
  obtain rx rx' w p cs ms where h: "reads = map Chunk cs" "[] \<notin> set cs" "[] \<notin> set ms"
    "session_rep E (lr_session lr) (lr_wire lr) rx p" "frames_of (wire_for E) rx w ms rx'"
    "p @ concat cs = w @ t" "bs = lr_plain lr @ concat ms"
    "t = [] \<or> (\<exists>q m rx''. q \<noteq> [] \<and> wire_for E rx' (t @ q) m rx'')"
    using assms(1) unfolding link_holds_def by blast
  show ?thesis
  proof (cases "lr_plain lr = []")
    case False
    have "link_holds E (lr\<lparr>lr_plain := drop cap (lr_plain lr)\<rparr>) reads (drop cap (lr_plain lr) @ concat ms) t"
      unfolding link_holds_def
      by (intro exI [of _ rx] exI [of _ rx'] exI [of _ w] exI [of _ p] exI [of _ cs] exI [of _ ms]) (use h in simp)
    then show ?thesis
      using False assms(3) h(7) by (auto simp: link_poll_read_def intro!: exI [of _ "drop cap (lr_plain lr) @ concat ms"])
  next
    case True
    then obtain m ms' w1 w2 rx1 where m: "ms = m # ms'" "w = w1 @ w2" "wire_for E rx w1 m rx1"
      "frames_of (wire_for E) rx1 w2 ms' rx'"
      using h(5,7) assms(2) by (cases ms) auto
    obtain s' wire' p' cs' where n: "next_loop (session_step E) (lr_session lr) (lr_wire lr) (map Chunk cs) =
        (Inr (Some m), s', wire', map Chunk cs')" "session_rep E s' wire' rx1 p'" "p' @ concat cs' = w2 @ t"
      "[] \<notin> set cs'"
      using sess.next_message [OF h(4) m(3), where cs = cs and rest = "w2 @ t" and tail = "[]"] h(2,6) m(2) by auto
    let ?lr = "\<lparr>lr_session = s', lr_wire = wire', lr_plain = drop cap m\<rparr>"
    have "link_holds E ?lr (map Chunk cs') (drop cap m @ concat ms') t"
      unfolding link_holds_def
      by (intro exI [of _ rx1] exI [of _ rx'] exI [of _ w2] exI [of _ p'] exI [of _ cs'] exI [of _ ms'])
        (use h n m in simp)
    moreover have "m \<noteq> []" using h(3) m(1) by auto
    ultimately show ?thesis
      using True assms(3) h(1,7) m(1) n(1)
      by (auto simp: link_poll_read_def link_fill_next intro!: exI [of _ "drop cap m @ concat ms'"])
  qed
qed

lemma link_read_end:
  assumes "link_holds E lr reads [] t"
  shows "\<exists>lr'. link_poll_read E cap lr reads = (if t = [] then Inr [] else Inl UnexpectedEof, lr', []) \<and>
    (t = [] \<longrightarrow> link_holds E lr' [] [] t)"
proof -
  obtain rx w p cs where h: "reads = map Chunk cs" "[] \<notin> set cs" "lr_plain lr = []"
    "session_rep E (lr_session lr) (lr_wire lr) rx p" "p @ concat cs = t"
    "t = [] \<or> (\<exists>q m rx''. q \<noteq> [] \<and> wire_for E rx (t @ q) m rx'')"
  proof -
    obtain rx rx' w p cs ms where k: "reads = map Chunk cs" "[] \<notin> set cs" "[] \<notin> set ms"
      "session_rep E (lr_session lr) (lr_wire lr) rx p" "frames_of (wire_for E) rx w ms rx'"
      "p @ concat cs = w @ t" "[] = lr_plain lr @ concat ms"
      "t = [] \<or> (\<exists>q m rx''. q \<noteq> [] \<and> wire_for E rx' (t @ q) m rx'')"
      using assms unfolding link_holds_def by blast
    then have "ms = []" by (cases ms) auto
    with k show ?thesis by (intro that) auto
  qed
  obtain s' wire' where f: "link_fill E (lr_session lr) (lr_wire lr) reads =
      (if t = [] then Inr None else Inl UnexpectedEof, s', wire', [])" "session_rep E s' wire' rx t"
    using link_fill_end [OF h(4,2,5,6)] h(1) by blast
  have "t = [] \<Longrightarrow> link_holds E (lr\<lparr>lr_session := s', lr_wire := wire'\<rparr>) [] [] t"
    unfolding link_holds_def
    by (intro exI [of _ rx] exI [of _ rx] exI [of _ "[]"] exI [of _ "[]"] exI [of _ "[]"] exI [of _ "[]"])
      (use f(2) h(3) in simp)
  then show ?thesis using f(1) h(3) by (auto simp: link_poll_read_def)
qed

lemma link_reads_all:
  assumes "link_holds E lr reads bs []" and "list_all (\<lambda>c. 0 < c) caps" and "length bs \<le> length caps"
  shows "\<exists>lr' reads'. link_reads E caps lr reads = (Inr bs, lr', reads') \<and> link_holds E lr' reads' [] []"
  using assms
proof (induction caps arbitrary: lr reads bs)
  case (Cons cap caps)
  show ?case
  proof (cases "bs = []")
    case True
    then obtain lr1 where "link_poll_read E cap lr reads = (Inr [], lr1, [])" "link_holds E lr1 [] [] []"
      using link_read_end [of E lr reads "[]" cap] Cons.prems(1) by auto
    then show ?thesis using True Cons.IH [of lr1 "[]" "[]"] Cons.prems(2) by auto
  next
    case False
    then obtain got lr1 reads1 rest where g: "link_poll_read E cap lr reads = (Inr got, lr1, reads1)" "got \<noteq> []"
      "bs = got @ rest" "link_holds E lr1 reads1 rest []"
      using link_read_data [OF Cons.prems(1), of cap] Cons.prems(2) by auto
    have "length rest \<le> length caps" using g(2,3) Cons.prems(3) by (cases got) auto
    then show ?thesis using Cons.IH [OF g(4)] Cons.prems(2) g(1,3) by auto
  qed
qed simp

text \<open>A stream cut inside a frame: enough reads reach the error, whatever came before.\<close>

lemma link_reads_truncated:
  assumes "link_holds E lr reads bs t" and "t \<noteq> []" and "list_all (\<lambda>c. 0 < c) caps" and "length bs < length caps"
  shows "\<exists>lr' reads'. link_reads E caps lr reads = (Inl UnexpectedEof, lr', reads')"
  using assms
proof (induction caps arbitrary: lr reads bs)
  case (Cons cap caps)
  show ?case
  proof (cases "bs = []")
    case True
    then obtain lr1 where "link_poll_read E cap lr reads = (Inl UnexpectedEof, lr1, [])"
      using link_read_end [of E lr reads t cap] Cons.prems(1,2) by auto
    then show ?thesis by simp
  next
    case False
    then obtain got lr1 reads1 rest where g: "link_poll_read E cap lr reads = (Inr got, lr1, reads1)" "got \<noteq> []"
      "bs = got @ rest" "link_holds E lr1 reads1 rest t"
      using link_read_data [OF Cons.prems(1), of cap] Cons.prems(3) by auto
    have "length rest < length caps" using g(2,3) Cons.prems(4) by (cases got) auto
    then show ?thesis using Cons.IH [OF g(4)] Cons.prems(2,3) g(1) by auto
  qed
qed simp

section \<open>Properties\<close>

lemma wire_for_longer: "wire_for E rx w m rx' \<Longrightarrow> 1 < length w"
  by (auto simp: wire_for_def packet_for_def frame_for_def rx_header_len_def np_consts split: if_splits)

lemma link_delivers:
  assumes "env_ok E" and "chan_sync tx rx"
    and "link_writes E bufs ws (link_write_new tx) = (Inr accepted, ws', lw)" and "lw_out lw = []"
    and "concat cs = lw_sent lw" and "[] \<notin> set cs"
    and "list_all (\<lambda>c. 0 < c) caps" and "length accepted \<le> length caps"
  shows "\<exists>lr reads'. link_reads E caps (link_read_new (ss_rx (from_cores tx0 rx sid))) (map Chunk cs) =
      (Inr accepted, lr, reads') \<and> link_holds E lr reads' [] []"
proof -
  obtain ms rx' where ms: "frames_of (wire_for E) rx (lw_sent lw) ms rx'" "[] \<notin> set ms" "accepted = concat ms"
    using link_writes_sent [OF assms(1) link_sent_new [OF assms(2)] assms(3)] assms(4) by (auto simp: link_sent_def)
  then show ?thesis
    using link_reads_all [OF link_holds_new [OF ms(1,2), of cs "[]" tx0 sid] assms(7)] assms(5,6,8) by auto
qed

text \<open>A write the carrier takes whole.\<close>

lemma link_write_one:
  assumes "env_ok E" and "chan_sync tx rx" and "sendable m"
  shows "\<exists>lw. link_writes E [m] [Accept BUF_CAP] (link_write_new tx) = (Inr m, [], lw) \<and> lw_out lw = []"
proof -
  obtain w tx' rx' where e: "encrypt_into E tx [] m = (Inr (), tx', w)" "wire_for E rx w m rx'"
    using encrypt_into_ok [OF assms, of "[]"] by auto
  have "length w \<le> BUF_CAP" "w \<noteq> []" using wire_for_length [OF e(2)] wire_for_longer [OF e(2)] by auto
  then show ?thesis
    using e(1) assms(3) by (simp add: link_poll_write_def link_accept_def Let_def link_write_new_def sendable_def
        np_consts flush_out.simps min_absorb1)
qed

text \<open>
  C8.  A link is a reliable byte stream: once the frame in flight is out, the bytes the sending half
  accepted are exactly the bytes the receiving half serves, for every sequence of writes, every way the
  socket takes the frames piecewise, every chunking of the network and every sequence of positive read
  sizes (each read makes progress, so as many reads as bytes are enough); afterwards reads report a clean
  end of stream.
\<close>

theorem link_is_byte_stream:
  assumes "env_ok E" and "chan_sync (ss_tx a) rx"
    and "split_link None a = Inr (lra, lwa)" and "split_link None (from_cores tx0 rx sid) = Inr (lrb, lwb)"
    and "link_writes E bufs ws lwa = (Inr accepted, ws', lw)" and "lw_out lw = []"
    and "concat cs = lw_sent lw" and "[] \<notin> set cs"
    and "list_all (\<lambda>c. 0 < c) caps" and "length accepted \<le> length caps"
  shows "\<exists>lr lr' reads'. link_reads E caps lrb (map Chunk cs) = (Inr accepted, lr, reads') \<and>
    link_poll_read E cap lr reads' = (Inr [], lr', [])"
proof -
  have lwa: "lwa = link_write_new (ss_tx a)" and lrb: "lrb = link_read_new (ss_rx (from_cores tx0 rx sid))"
    using assms(3,4) by (simp_all add: split_link_def session_split_def)
  obtain lr reads' where r: "link_reads E caps lrb (map Chunk cs) = (Inr accepted, lr, reads')"
    "link_holds E lr reads' [] []"
    using link_delivers [OF assms(1,2) assms(5) [unfolded lwa] assms(6-10), of tx0 sid] unfolding lrb by blast
  then show ?thesis using link_read_end [OF r(2), of cap] by auto
qed

theorem link_is_byte_stream_witness:
  "\<exists>lw lr reads'. link_writes demo_env [[1, 2, 3]] [Accept BUF_CAP] (link_write_new (tx_new demo_env default_key 0)) =
      (Inr [1, 2, 3], [], lw) \<and>
    link_reads demo_env [2, 2, 2] (link_read_new \<lparr>sr_core = rx_new demo_env default_key, sr_pending_binary = None,
        sr_consumed = 0\<rparr>) (map Chunk (map (\<lambda>b. [b]) (lw_sent lw))) = (Inr [1, 2, 3], lr, reads')"
proof -
  let ?tx = "tx_new demo_env default_key 0" and ?rx = "rx_new demo_env default_key"
  let ?s = "from_cores ?tx ?rx 1"
  have m: "sendable [1, 2, 3]" by (simp add: sendable_def np_consts)
  obtain lw where wr: "link_writes demo_env [[1, 2, 3]] [Accept BUF_CAP] (link_write_new ?tx) = (Inr [1, 2, 3], [], lw)"
    and out: "lw_out lw = []"
    using link_write_one [OF demo_env_ok demo_sync m] by blast
  let ?srx = "\<lparr>sr_core = ?rx, sr_pending_binary = None, sr_consumed = 0\<rparr>"
  have sp: "split_link None ?s = Inr (link_read_new ?srx, link_write_new ?tx)"
    by (simp add: split_link_def session_split_def from_cores_def)
  have "chan_sync (ss_tx ?s) ?rx" using demo_sync [of 0] by (simp add: from_cores_def)
  moreover have "concat (map (\<lambda>b. [b]) (lw_sent lw)) = lw_sent lw" "[] \<notin> set (map (\<lambda>b. [b]) (lw_sent lw))"
    by auto
  ultimately have "\<exists>lr lr' reads'. link_reads demo_env [2, 2, 2] (link_read_new ?srx)
      (map Chunk (map (\<lambda>b. [b]) (lw_sent lw))) = (Inr [1, 2, 3], lr, reads') \<and>
      link_poll_read demo_env 1 lr reads' = (Inr [], lr', [])"
    by (intro link_is_byte_stream [OF demo_env_ok _ sp sp wr out]) simp_all
  then show ?thesis using wr by (auto simp del: link_reads.simps link_writes.simps)
qed

text \<open>
  C38.  A link cut inside a frame never looks like a clean end: after any complete frames, enough reads
  end in \<open>UnexpectedEof\<close>, wherever the cut is (also right behind a header the codec has consumed).
\<close>

theorem link_truncation_detected:
  assumes "env_ok E" and "chan_sync tx rx" and "list_all sendable ms" and "sendable m"
    and "encrypt_seq E tx [] ms = (r, tx1, wires)" and "encrypt_into E tx1 [] m = (r', tx2, wire)"
    and "0 < i" and "i < length wire" and "concat cs = wires @ take i wire" and "[] \<notin> set cs"
    and "list_all (\<lambda>c. 0 < c) caps" and "length (concat ms) < length caps"
  shows "\<exists>lr' reads'. link_reads E caps (link_read_new (ss_rx (from_cores tx0 rx sid))) (map Chunk cs) =
    (Inl UnexpectedEof, lr', reads')"
proof -
  obtain rx1 where f: "frames_of (wire_for E) rx wires ms rx1" "chan_sync tx1 rx1"
    using encrypt_seq_frames [OF assms(1-3), of "[]"] assms(5) by auto
  obtain rx2 where "wire_for E rx1 wire m rx2"
    using encrypt_into_ok [OF assms(1) f(2) assms(4), of "[]"] assms(6) by auto
  then have "wire_for E rx1 (take i wire @ drop i wire) m rx2" "drop i wire \<noteq> []"
    using assms(8) by auto
  then have "\<exists>q m rx''. q \<noteq> [] \<and> wire_for E rx1 (take i wire @ q) m rx''" by blast
  moreover have "[] \<notin> set ms" using assms(3) by (auto simp: list_all_iff sendable_def)
  ultimately have "link_holds E (link_read_new (ss_rx (from_cores tx0 rx sid))) (map Chunk cs) (concat ms) (take i wire)"
    using link_holds_new [OF f(1) _ assms(9,10)] by blast
  moreover have "take i wire \<noteq> []" using assms(7,8) by auto
  ultimately show ?thesis using link_reads_truncated assms(11,12) by blast
qed

theorem link_truncation_detected_witness:
  "\<exists>lr' reads'. link_reads demo_env [8] (link_read_new (ss_rx (from_cores (tx_new demo_env default_key 0)
      (rx_new demo_env default_key) 1)))
      [Chunk (take 1 (snd (snd (encrypt_into demo_env (tx_new demo_env default_key 0) [] [1, 2, 3]))))] =
    (Inl UnexpectedEof, lr', reads')"
proof -
  let ?tx = "tx_new demo_env default_key 0" and ?rx = "rx_new demo_env default_key"
  let ?x = "encrypt_into demo_env ?tx [] [1, 2, 3]"
  have m: "sendable [1, 2, 3]" by (simp add: sendable_def np_consts)
  obtain wire tx' rx' where x: "?x = (Inr (), tx', wire)" "wire_for demo_env ?rx wire [1, 2, 3] rx'"
    using encrypt_into_ok [OF demo_env_ok demo_sync m, of 0 "[]"] by auto
  have l: "1 < length wire" by (rule wire_for_longer [OF x(2)])
  have "\<exists>lr' reads'. link_reads demo_env [8] (link_read_new (ss_rx (from_cores ?tx ?rx 1)))
      (map Chunk [take 1 wire]) = (Inl UnexpectedEof, lr', reads')"
    by (rule link_truncation_detected [OF demo_env_ok demo_sync [of 0] _ m encrypt_seq.simps(1) x(1), of 1])
      (use l in auto)
  then show ?thesis using x(1) by (simp del: link_reads.simps)
qed

end
