(* ===== verification/Bond.thy ===== *)
theory Bond
  imports Client_Runtime Link
begin

text \<open>
  Bonded tunnels (\<open>client/src/bond.rs\<close>, \<open>server/src/bond.rs\<close>): several link sessions under one mux tunnel.
  The aggregator that stripes a byte stream over the links is a third-party crate; what the sources do
  around it is modelled, with its answers as parameters.
\<close>

section \<open>Dialing a bonded tunnel\<close>

text \<open>
  The result of one link task, in the order the tasks are awaited: the task itself failed, the dial
  failed with the causes of its error, or the dialed link was offered to the aggregator.
\<close>

datatype link_attempt = LinkTaskFailed | LinkDialFailed "cause list" | LinkOffered bool

datatype bond_error = BondTaskFailed | BondRefused | BondAllFailed | BondConnectFailed | BondConnectTimeout

datatype agg_connect = AggConnected u128 | AggFailed | AggTimedOut

fun collect_links :: "u32 \<Rightarrow> bool \<Rightarrow> link_attempt list \<Rightarrow> (u32 \<times> bool) option" where
  "collect_links live refused [] = Some (live, refused)"
| "collect_links live refused (LinkTaskFailed # rs) = None"
| "collect_links live refused (LinkDialFailed causes # rs) =
     collect_links live (refused \<or> CauseCore RoleRefused \<in> set causes) rs"
| "collect_links live refused (LinkOffered ok # rs) =
     collect_links (if ok then live + 1 else live) refused rs"

text \<open>
  \<open>BondDialer::dial\<close>: the channel id or the error, and whether the aggregator was terminated.  The wait
  until the links are visible changes neither.
\<close>

definition bond_dial :: "link_attempt list \<Rightarrow> agg_connect \<Rightarrow> (bond_error + u128) \<times> bool" where
  "bond_dial attempts conn =
     (case collect_links 0 False attempts of
        None \<Rightarrow> (Inl BondTaskFailed, True)
      | Some (live, refused) \<Rightarrow>
          if live = 0 then (Inl (if refused then BondRefused else BondAllFailed), True)
          else (case conn of
                  AggConnected chan \<Rightarrow> (Inr chan, False)
                | AggFailed \<Rightarrow> (Inl BondConnectFailed, True)
                | AggTimedOut \<Rightarrow> (Inl BondConnectTimeout, True)))"

text \<open>The wait itself: passes that see the number of visible links and the time, until all are visible.\<close>

fun settle_links :: "nat \<Rightarrow> nat \<Rightarrow> (nat \<times> nat) list \<Rightarrow> bool option" where
  "settle_links live deadline [] = None"
| "settle_links live deadline ((visible, now) # rest) =
     (if visible < live \<and> now < deadline then settle_links live deadline rest else Some (live \<le> visible))"

section \<open>Topping up the links\<close>

text \<open>How many links were added before the first failure or refusal.\<close>

fun top_up_loop :: "nat \<Rightarrow> link_attempt list \<Rightarrow> nat" where
  "top_up_loop (Suc missing) (LinkOffered True # rs) = Suc (top_up_loop missing rs)"
| "top_up_loop _ _ = 0"

text \<open>
  \<open>maintain_tunnel\<close>: whether the tunnel lives and how many links are visible, before and after the grace
  period, and the results of the dials.  A count beyond 32 bits is read as no links.
\<close>

definition missing_links :: "u32 \<Rightarrow> nat \<Rightarrow> nat" where
  "missing_links links visible = unat links - (if visible < 2 ^ 32 then visible else 0)"

definition maintain_tunnel ::
  "u32 \<Rightarrow> bool \<Rightarrow> bool \<Rightarrow> nat \<Rightarrow> bool \<Rightarrow> nat \<Rightarrow> link_attempt list \<Rightarrow> nat" where
  "maintain_tunnel links alive has_control visible alive' visible' dials =
     (if \<not> alive \<or> \<not> has_control then 0
      else if missing_links links visible = 0 then 0
      else if \<not> alive' then 0
      else top_up_loop (missing_links links visible') dials)"

section \<open>Registering a link at the server\<close>

text \<open>
  \<open>register_link\<close> on the counters: whether splitting the session failed, and whether the aggregator took
  the link.  The guard that returns the slot in \<open>active\<close> lives in the read half, so a link the aggregator
  refuses gives its slot back at once and one it holds gives it back when it is dropped.
\<close>

datatype link_fate = LinkHeld | LinkGone

definition register_link :: "bool \<Rightarrow> bool \<Rightarrow> server_stats \<Rightarrow> link_fate \<times> server_stats" where
  "register_link split_failed accepted st =
     (if split_failed then (LinkGone, st)
      else if accepted then (LinkHeld, st)
      else (LinkGone, st\<lparr>st_active := st_active st - 1\<rparr>))"

definition link_dropped :: "server_stats \<Rightarrow> server_stats" where
  "link_dropped st = st\<lparr>st_active := st_active st - 1\<rparr>"

section \<open>Properties\<close>

definition links_added :: "link_attempt list \<Rightarrow> nat" where
  "links_added rs = length (filter (\<lambda>r. r = LinkOffered True) rs)"

definition role_refused :: "link_attempt \<Rightarrow> bool" where
  "role_refused r \<longleftrightarrow> (\<exists>causes. r = LinkDialFailed causes \<and> CauseCore RoleRefused \<in> set causes)"

lemma collect_links_Some:
  "LinkTaskFailed \<notin> set rs \<Longrightarrow>
   collect_links live refused rs = Some (live + of_nat (links_added rs), refused \<or> list_ex role_refused rs)"
  by (induction live refused rs rule: collect_links.induct) (auto simp: links_added_def role_refused_def algebra_simps)

lemma collect_links_None: "LinkTaskFailed \<in> set rs \<Longrightarrow> collect_links live refused rs = None"
  by (induction live refused rs rule: collect_links.induct) auto

text \<open>
  Dialing a bonded tunnel, on every outcome of its links: it succeeds exactly when no link task
  failed, at least one link was taken and the channel connected in time; every failure terminates the
  aggregator and success does not; and the refusal of the role is reported exactly when some link met it
  and none was taken.
\<close>

theorem bond_dial_outcomes:
  assumes "length attempts = unat (links :: u32)"
  shows "bond_dial attempts conn =
    (if LinkTaskFailed \<in> set attempts then (Inl BondTaskFailed, True)
     else if LinkOffered True \<notin> set attempts
     then (Inl (if list_ex role_refused attempts then BondRefused else BondAllFailed), True)
     else (case conn of AggConnected c \<Rightarrow> (Inr c, False) | AggFailed \<Rightarrow> (Inl BondConnectFailed, True)
           | AggTimedOut \<Rightarrow> (Inl BondConnectTimeout, True)))"
proof (cases "LinkTaskFailed \<in> set attempts")
  case True
  then show ?thesis by (simp add: bond_dial_def collect_links_None)
next
  case False
  have "links_added attempts \<le> length attempts" by (simp add: links_added_def)
  also have "\<dots> < 2 ^ 32" using assms unsigned_less [of links, where 'a = nat] by simp
  finally have "(of_nat (links_added attempts) = (0 :: u32)) = (links_added attempts = 0)"
    by (simp add: word_of_nat_eq_0_iff) (auto dest: dvd_imp_le)
  moreover have "(links_added attempts = 0) = (LinkOffered True \<notin> set attempts)"
    by (auto simp: links_added_def filter_empty_conv)
  ultimately show ?thesis
    using False by (simp add: bond_dial_def collect_links_Some)
qed

theorem bond_dial_outcomes_witness:
  "bond_dial [LinkDialFailed [CauseCore RoleRefused], LinkOffered True] (AggConnected 9) = (Inr 9, False) \<and>
   bond_dial [LinkDialFailed [CauseCore RoleRefused], LinkOffered False] (AggConnected 9) = (Inl BondRefused, True)"
  using bond_dial_outcomes [of "[LinkDialFailed [CauseCore RoleRefused], LinkOffered True]" 2 "AggConnected 9"]
    bond_dial_outcomes [of "[LinkDialFailed [CauseCore RoleRefused], LinkOffered False]" 2 "AggConnected 9"]
  by (simp add: role_refused_def)

lemma top_up_loop_le: "top_up_loop missing rs \<le> missing \<and> top_up_loop missing rs \<le> links_added rs"
  by (induction missing rs rule: top_up_loop.induct) (auto simp: links_added_def)

text \<open>Topping up never goes past the configured number of links, and leaves a dead tunnel alone.\<close>

lemma maintain_tunnel_bounded:
  assumes "visible' < 2 ^ 32"
  shows "visible' + maintain_tunnel links alive has_control visible alive' visible' dials \<le> max visible' (unat links) \<and>
    (\<not> alive \<longrightarrow> maintain_tunnel links alive has_control visible alive' visible' dials = 0)"
  using assms top_up_loop_le [of "unat links - visible'" dials] by (auto simp: maintain_tunnel_def missing_links_def)

text \<open>Every registered link gives its slot back once, except one whose session could not be split.\<close>

lemma register_link_slot:
  "snd (register_link False False st) = link_dropped st"
  "register_link False True st = (LinkHeld, st)"
  "register_link True accepted st = (LinkGone, st)"
  by (simp_all add: register_link_def link_dropped_def)

text \<open>
  C3.  A bonded tunnel end to end: mux frames are written with length prefixes, the aggregator stripes the
  byte stream over \<open>n\<close> links, every link encrypts its share over its own session and socket, the far side
  reads each link back, the aggregator joins the shares, and the frame reader recovers every frame in
  order.  It holds for every batching by the writer, every split into writes and partial socket writes,
  every chunking on every link and of the joined stream.  The aggregator is assumed to join what it split.
\<close>

theorem bonded_tunnel_end_to_end:
  assumes "env_ok E" and agg: "\<And>bs. length (split bs) = n \<and> join (split bs) = bs"
    and "list_all (\<lambda>(k, stream, p). length p \<le> PPP_BUFFER_SIZE - 6) (concat reqs)"
    and "run_writer E TxPrefix fresh_io (map (map to_out_frame) reqs) = (wire, sock)"
    and links: "\<And>i. i < n \<Longrightarrow> chan_sync (tx i) (rx i) \<and>
      link_writes E (bufs i) (ws i) (link_write_new (tx i)) = (Inr (split (tr_out sock) ! i), ws' i, lw i) \<and>
      lw_out (lw i) = [] \<and> concat (cs i) = lw_sent (lw i) \<and> [] \<notin> set (cs i) \<and>
      list_all (\<lambda>c. 0 < c) (caps i) \<and> length (split (tr_out sock) ! i) \<le> length (caps i)"
  shows "\<exists>got. (\<forall>i < n. \<exists>lr rest.
      link_reads E (caps i) (link_read_new (ss_rx (from_cores (tx0 i) (rx i) (sid i)))) (map Chunk (cs i)) =
        (Inr (got i), lr, rest)) \<and>
    (\<forall>ks. concat ks = join (map got [0..<n]) \<and> [] \<notin> set ks \<longrightarrow>
      (\<exists>msgs rd. next_seq (reader_step E) (length (concat reqs)) RxPrefix [] (map Chunk ks) = (msgs, rd, [], []) \<and>
        map parse_frame msgs = map Inr (concat reqs)))"
proof -
  let ?parts = "split (tr_out sock)"
  have fs: "concat (map (map to_out_frame) reqs) = map to_out_frame (concat reqs)" by (simp add: map_concat)
  have w: "frames_of prefix_frame () (tr_out sock) (map frame_msg (map to_out_frame (concat reqs))) ()"
    using run_writer_prefix [of fresh_io "map (map to_out_frame) reqs" E] to_out_frames_fit [OF assms(3)] assms(4)
    unfolding fs by (auto simp: fresh_io_def)
  let ?got = "\<lambda>i. ?parts ! i"
  have "\<exists>lr rest. link_reads E (caps i) (link_read_new (ss_rx (from_cores (tx0 i) (rx i) (sid i)))) (map Chunk (cs i)) =
      (Inr (?got i), lr, rest)" if "i < n" for i
    using links [OF that] link_delivers [OF assms(1)] by blast
  moreover have "map ?got [0..<n] = ?parts" using agg by (metis map_nth)
  then have joined: "join (map ?got [0..<n]) = tr_out sock" using agg by simp
  have "\<exists>msgs rd. next_seq (reader_step E) (length (concat reqs)) RxPrefix [] (map Chunk ks) = (msgs, rd, [], []) \<and>
      map parse_frame msgs = map Inr (concat reqs)" if "concat ks = join (map ?got [0..<n]) \<and> [] \<notin> set ks" for ks
    using prefix_frames_arrive [OF w, of ks E] that joined by simp
  ultimately show ?thesis by (intro exI [of _ ?got]) blast
qed

text \<open>Two links, the second idle: the aggregator may use any subset of its links.\<close>

theorem bonded_tunnel_end_to_end_witness:
  "\<exists>got. \<forall>ks. concat ks = concat (map got [0..<2]) \<and> [] \<notin> set ks \<longrightarrow>
      (\<exists>msgs rd. next_seq (reader_step demo_env) 1 RxPrefix [] (map Chunk ks) = (msgs, rd, [], []) \<and>
        map parse_frame msgs = [Inr (KData, 7, [5, 6])])"
proof -
  let ?tx = "tx_new demo_env default_key 0" and ?rx = "rx_new demo_env default_key"
  let ?reqs = "[[(KData, 7, [5, 6])]] :: (frame_kind \<times> stream_id \<times> bytes) list list"
  let ?x = "run_writer demo_env TxPrefix fresh_io (map (map to_out_frame) ?reqs)"
  let ?out = "tr_out (snd ?x)" and ?idle = "link_write_new ?tx"
  have "sendable ?out"
    by (simp add: run_writer_def writer_rounds.simps to_out_frame_def wire_encode_def Let_def out_frame_new_def
        frame_header_def np_consts
        encode_varint.simps [of 7] encode_varint.simps [of 4] sendable_def write_all_def fresh_io_def)
  then obtain lw where lw: "link_writes demo_env [?out] [Accept BUF_CAP] ?idle = (Inr ?out, [], lw)" "lw_out lw = []"
    using link_write_one [OF demo_env_ok demo_sync, of ?out 0] by blast
  have idle: "lw_out ?idle = []" "lw_sent ?idle = []" by (simp_all add: link_write_new_def)
  let ?bufs = "\<lambda>i. if i = 0 then [?out] else []" and ?ws = "\<lambda>i. if i = 0 then [Accept BUF_CAP] else []"
  let ?lw = "\<lambda>i. if i = 0 then lw else ?idle" and ?cs = "\<lambda>i. if i = 0 then map (\<lambda>b. [b]) (lw_sent lw) else []"
  let ?caps = "\<lambda>i. if i = 0 then replicate (length ?out) (1 :: nat) else []"
  have links: "chan_sync ?tx ?rx \<and>
      link_writes demo_env (?bufs i) (?ws i) ?idle = (Inr ([?out, []] ! i), [], ?lw i) \<and>
      lw_out (?lw i) = [] \<and> concat (?cs i) = lw_sent (?lw i) \<and> [] \<notin> set (?cs i) \<and>
      list_all (\<lambda>c. 0 < c) (?caps i) \<and> length ([?out, []] ! i) \<le> length (?caps i)" if "i < 2" for i :: nat
    using that lw idle demo_sync [of 0]
    by (auto simp: less_2_cases_iff list_all_iff simp del: link_writes.simps(2))
  have fits: "list_all (\<lambda>(k, stream, p). length p \<le> PPP_BUFFER_SIZE - 6) (concat ?reqs)" by (simp add: np_consts)
  have agg: "length [bs, []] = 2 \<and> concat [bs, []] = bs" for bs :: bytes by simp
  have "\<exists>got. (\<forall>i < 2. \<exists>lr rest. link_reads demo_env (?caps i)
        (link_read_new (ss_rx (from_cores ?tx ?rx 1))) (map Chunk (?cs i)) = (Inr (got i), lr, rest)) \<and>
    (\<forall>ks. concat ks = concat (map got [0..<2]) \<and> [] \<notin> set ks \<longrightarrow>
      (\<exists>msgs rd. next_seq (reader_step demo_env) (length (concat ?reqs)) RxPrefix [] (map Chunk ks) = (msgs, rd, [], []) \<and>
        map parse_frame msgs = map Inr (concat ?reqs)))"
    by (rule bonded_tunnel_end_to_end [where split = "\<lambda>bs. [bs, []]" and tx = "\<lambda>_. ?tx" and rx = "\<lambda>_. ?rx" and
          ws' = "\<lambda>_. []" and lw = ?lw and bufs = ?bufs and ws = ?ws and sid = "\<lambda>_. 1" and ?tx0.0 = "\<lambda>_. ?tx",
          OF demo_env_ok agg fits prod.collapse [symmetric] links])
  then show ?thesis by (auto simp del: next_seq.simps)
qed

end
