(* ===== verification/Log_Format.thy ===== *)
theory Log_Format
  imports Client_Runtime
begin

text \<open>
  The numbers in log lines (\<open>common/src/fmt.rs\<close>): durations, and byte counts with binary prefixes.  The
  floating-point arithmetic of \<open>fmt_bytes\<close> is written out: the conversion of a 64-bit integer rounds to
  53 significant bits, a division by 1024 is exact, and printing with one decimal rounds half to even.
\<close>

section \<open>Durations\<close>

definition pad2 :: "nat \<Rightarrow> string" where
  "pad2 n = (if n < 10 then ''0'' @ dec n else dec n)"

definition fmt_duration :: "nat \<Rightarrow> string" where
  "fmt_duration t =
     (let h = t div 3600; m = t mod 3600 div 60; s = t mod 60; days = h div 24; h = h mod 24 in
      if 0 < days then dec days @ ''d'' @ pad2 h @ ''h'' @ pad2 m @ ''m''
      else if 0 < h then dec h @ ''h'' @ pad2 m @ ''m'' @ pad2 s @ ''s''
      else if 0 < m then dec m @ ''m'' @ pad2 s @ ''s''
      else dec s @ ''s'')"

text \<open>The duration a text stands for: numbers, each followed by its unit.\<close>

definition unit_weight :: "char \<Rightarrow> int" where
  "unit_weight c =
     (if c = CHR ''d'' then 86400 else if c = CHR ''h'' then 3600 else if c = CHR ''m'' then 60 else 1)"

fun duration_scan :: "int \<Rightarrow> int \<Rightarrow> string \<Rightarrow> int" where
  "duration_scan acc cur [] = acc"
| "duration_scan acc cur (c # cs) =
     (if is_digit 10 c then duration_scan acc (cur * 10 + the (digit_value c)) cs
      else duration_scan (acc + cur * unit_weight c) 0 cs)"

lemma duration_scan_digits:
  "list_all (is_digit 10) ds \<Longrightarrow>
   duration_scan acc cur (ds @ rest) =
   duration_scan acc (foldl (\<lambda>v c. v * 10 + the (digit_value c)) cur ds) rest"
  by (induction ds arbitrary: cur) auto

lemma duration_scan_dec [simp]: "duration_scan acc 0 (dec n @ rest) = duration_scan acc (int n) rest"
  using duration_scan_digits [of "dec n" acc 0 rest] dec_facts [of n] by (simp add: digits_value_def)

lemma duration_scan_pad2 [simp]: "duration_scan acc 0 (pad2 n @ rest) = duration_scan acc (int n) rest"
  by (simp add: pad2_def is_digit_def digit_value_def)

lemma unit_not_digit [simp]:
  "\<not> is_digit 10 CHR ''d''" "\<not> is_digit 10 CHR ''h''" "\<not> is_digit 10 CHR ''m''" "\<not> is_digit 10 CHR ''s''"
  by (simp_all add: is_digit_def digit_value_def)

text \<open>
  The text says the whole duration, to the second below a day and to the minute from a day on.
\<close>

lemma fmt_duration_exact:
  "duration_scan 0 0 (fmt_duration t) = (if t < 86400 then int t else int (t - t mod 60))"
proof -
  define d h m s where "d = t div 3600 div 24" and "h = t div 3600 mod 24" and "m = t mod 3600 div 60" and "s = t mod 60"
  have "t mod 3600 mod 60 = s" unfolding s_def by (rule mod_mod_cancel) simp
  then have split: "t = 86400 * d + 3600 * h + 60 * m + s"
    using mult_div_mod_eq [of 3600 t] mult_div_mod_eq [of 60 "t mod 3600"] mult_div_mod_eq [of 24 "t div 3600"]
    unfolding d_def h_def m_def by linarith
  have small: "h < 24" "m < 60" "s < 60" by (simp_all add: h_def m_def s_def less_mult_imp_div_less)
  have "fmt_duration t = (if 0 < d then dec d @ ''d'' @ pad2 h @ ''h'' @ pad2 m @ ''m''
      else if 0 < h then dec h @ ''h'' @ pad2 m @ ''m'' @ pad2 s @ ''s''
      else if 0 < m then dec m @ ''m'' @ pad2 s @ ''s'' else dec s @ ''s'')"
    unfolding fmt_duration_def Let_def d_def h_def m_def s_def ..
  then have "duration_scan 0 0 (fmt_duration t) = (if 0 < d then int t - int s else int t)"
    using split by (simp add: unit_weight_def)
  moreover have "0 < d \<longleftrightarrow> \<not> t < 86400" using split small by (cases d) auto
  ultimately show ?thesis by (simp add: s_def of_nat_diff)
qed

section \<open>Byte counts\<close>

text \<open>The integer nearest to \<open>n / d\<close>, ties to the even one.\<close>

definition round_half_even :: "nat \<Rightarrow> nat \<Rightarrow> nat" where
  "round_half_even n d =
     (let q = n div d; r = n mod d in if d < 2 * r \<or> (d = 2 * r \<and> odd q) then Suc q else q)"

text \<open>\<open>n as f64\<close>: the value as an integer, since every float from \<open>2 ^ 53\<close> on is one.\<close>

fun f64_ulp :: "nat \<Rightarrow> nat" where
  "f64_ulp n = (if n < 2 ^ 53 then 1 else 2 * f64_ulp (n div 2))"

declare f64_ulp.simps [simp del]

definition u64_as_f64 :: "nat \<Rightarrow> nat" where
  "u64_as_f64 n = round_half_even n (f64_ulp n) * f64_ulp n"

text \<open>The loop divides while the value is at least 1024; the value after \<open>unit\<close> divisions is \<open>v / 1024 ^ unit\<close>.\<close>

function unit_loop :: "nat \<Rightarrow> nat \<Rightarrow> nat" where
  "unit_loop v k = (if 1024 * 1024 ^ k \<le> v \<and> k < 5 then unit_loop v (Suc k) else k)"
  by pat_completeness auto
termination by (relation "measure (\<lambda>(v, k). 5 - k)") auto

declare unit_loop.simps [simp del]

definition UNITS :: "string list" where
  "UNITS = [''B'', ''KiB'', ''MiB'', ''GiB'', ''TiB'', ''PiB'']"

definition fmt_bytes :: "nat \<Rightarrow> string" where
  "fmt_bytes n =
     (let v = u64_as_f64 n; k = unit_loop v 0 in
      if k = 0 then dec n @ '' B''
      else let t = round_half_even (10 * v) (1024 ^ k)
           in dec (t div 10) @ ''.'' @ dec (t mod 10) @ '' '' @ UNITS ! k)"

lemma unit_loop_bounds:
  assumes "k \<le> 5" and "k = 0 \<or> 1024 ^ k \<le> v"
  shows "k \<le> unit_loop v k \<and> unit_loop v k \<le> 5 \<and> (unit_loop v k = 0 \<or> 1024 ^ unit_loop v k \<le> v) \<and>
    (unit_loop v k = 5 \<or> v < 1024 * 1024 ^ unit_loop v k)"
  using assms
proof (induction v k rule: unit_loop.induct)
  case (1 v k)
  then show ?case
    by (cases "1024 * 1024 ^ k \<le> v \<and> k < 5") (auto simp: unit_loop.simps [of v k])
qed

lemma round_half_even_near: "0 < d \<Longrightarrow> 2 * d * round_half_even n d \<le> 2 * n + d \<and> 2 * n \<le> 2 * d * round_half_even n d + d"
proof -
  assume "0 < d"
  moreover define q r where "q = n div d" and "r = n mod d"
  ultimately have n: "n = d * q + r" and r: "r < d" by simp_all
  have "round_half_even n d = (if d < 2 * r \<or> (d = 2 * r \<and> odd q) then Suc q else q)"
    by (simp add: round_half_even_def q_def r_def Let_def)
  then show ?thesis
    unfolding n using r by (auto simp: algebra_simps)
qed

lemma u64_as_f64_small: "n < 2 ^ 53 \<Longrightarrow> u64_as_f64 n = n"
  by (simp add: u64_as_f64_def f64_ulp.simps [of n] round_half_even_def)

text \<open>
  A byte count below \<open>2 ^ 53\<close> is printed with the largest fitting unit and to the nearest tenth of it.
\<close>

lemma fmt_bytes_accurate:
  assumes "n < 2 ^ 53" and "1024 \<le> n"
  shows "\<exists>k t. 0 < k \<and> k \<le> 5 \<and> fmt_bytes n = dec (t div 10) @ ''.'' @ dec (t mod 10) @ '' '' @ UNITS ! k \<and>
    1024 ^ k \<le> n \<and> (k = 5 \<or> n < 1024 ^ Suc k) \<and>
    2 * 1024 ^ k * t \<le> 20 * n + 1024 ^ k \<and> 20 * n \<le> 2 * 1024 ^ k * t + 1024 ^ k"
proof -
  let ?k = "unit_loop n 0"
  have b: "?k \<le> 5" "?k = 0 \<or> 1024 ^ ?k \<le> n" "?k = 5 \<or> n < 1024 * 1024 ^ ?k"
    using unit_loop_bounds [of 0 n] by auto
  have k: "?k \<noteq> 0"
  proof
    assume "?k = 0"
    with b(3) assms(2) show False by simp
  qed
  then show ?thesis
    using b round_half_even_near [of "1024 ^ ?k" "10 * n"] assms(1)
    by (intro exI [of _ ?k] exI [of _ "round_half_even (10 * n) (1024 ^ ?k)"])
      (auto simp: fmt_bytes_def Let_def u64_as_f64_small)
qed

text \<open>A value just below a unit is rounded up to 1024 of the smaller unit, and a day count keeps its minutes.\<close>

lemma fmt_examples:
  "fmt_duration 64 = ''1m04s''" "fmt_duration 266400 = ''3d02h00m''" "fmt_bytes 512 = ''512 B''"
  "fmt_bytes 1024 = ''1.0 KiB''" "fmt_bytes 1048575 = ''1024.0 KiB''"
  by (simp_all add: fmt_duration_def pad2_def fmt_bytes_def u64_as_f64_small Let_def unit_loop.simps UNITS_def
      round_half_even_def dec.simps dec_digit_def char_of_def)

end
