(* ===== verification/Serve.thy ===== *)
theory Serve
  imports Listen Bond Log_Format
begin

text \<open>
  The running program around the connections: the shutdown flag and its signal handler
  (\<open>common/src/shutdown.rs\<close>), the accept loop of the server (\<open>server/src/lib.rs\<close>), the accept loops of
  the client (\<open>client/src/lib.rs\<close>), and \<open>serve\<close> of both roles.  A loop runs turn by turn beside the signal
  handler and all other tasks; a turn ends where the code can be interrupted.  The locale \<open>accept_loop\<close>
  states what shutdown needs of a loop, and both loops satisfy it.
\<close>

section \<open>The shutdown flag\<close>

record shutdown_state =
  sd_flag :: bool
  sd_wake :: "(ip_addr \<times> int) option"
  sd_handler :: bool

definition shutdown_new :: shutdown_state where
  "shutdown_new = \<lparr>sd_flag = False, sd_wake = None, sd_handler = False\<rparr>"

text \<open>\<open>ok\<close> is the answer of the signal crate: whether the handler could be installed.\<close>

definition install :: "bool \<Rightarrow> ip_addr \<times> int \<Rightarrow> shutdown_state \<Rightarrow> shutdown_state" where
  "install ok wake_addr sd = sd\<lparr>sd_wake := Some wake_addr, sd_handler := sd_handler sd \<or> ok\<rparr>"

text \<open>The handler: the address it connects to, and the state it leaves.\<close>

definition on_signal :: "shutdown_state \<Rightarrow> (ip_addr \<times> int) option \<times> shutdown_state" where
  "on_signal sd = (sd_wake sd, sd\<lparr>sd_flag := True\<rparr>)"

definition requested :: "shutdown_state \<Rightarrow> bool" where
  "requested sd = sd_flag sd"

section \<open>Accept loops\<close>

datatype loop_end = EndShutdown | EndAggregator

text \<open>
  Where a loop stands: at its head, in the \<open>select!\<close>, past the connection limit with the counters not yet
  raised (only the client, which raises them in its loop), in the pause after an exhausted accept, or ended.
\<close>

datatype loop_phase = LoopTop | LoopSelect | LoopAdmit | LoopPause | LoopEnded loop_end

text \<open>What \<open>accept\<close> or the timer gives; an error has a kind and perhaps an error number.\<close>

datatype accept_event = Accepted | AcceptFailed error_kind "int option" | PollElapsed

text \<open>The error arm, the same in both loops, without its log lines.\<close>

definition accept_error :: "target_os \<Rightarrow> bool \<Rightarrow> int option \<Rightarrow> loop_phase" where
  "accept_error os req errno =
     (if req then LoopEnded EndShutdown
      else if accept_exhausted os errno then LoopPause
      else LoopTop)"

subsection \<open>The server\<close>

datatype server_event = Inbound accept_event | BondIncoming | BondFailed

record server_world =
  sw_counter :: u64
  sw_sids :: "u128 list"
  sw_conns :: "conn_stage list"
  sw_bonds :: nat
  sw_stats :: server_stats

definition server_world_new :: server_world where
  "server_world_new = \<lparr>sw_counter = 0, sw_sids = [], sw_conns = [], sw_bonds = 0, sw_stats = stats_default\<rparr>"

text \<open>
  The \<open>select!\<close> of \<open>accept_loop\<close>: \<open>sw_sids\<close> are the ids given to \<open>handle_conn\<close>, \<open>sw_conns\<close> the stages of
  these connections, \<open>sw_bonds\<close> the number of \<open>run_bonded\<close> tasks.
\<close>

definition server_arm ::
  "target_os \<Rightarrow> server_runtime \<Rightarrow> u64 \<Rightarrow> bool \<Rightarrow> server_event \<Rightarrow> server_world \<Rightarrow> loop_phase \<times> server_world" where
  "server_arm os rt base req ev w =
     (case ev of
        Inbound Accepted \<Rightarrow>
          (case accept_conn rt base (sw_counter w) (sw_stats w) of
             (None, n, st) \<Rightarrow> (LoopTop, w\<lparr>sw_counter := n, sw_stats := st\<rparr>)
           | (Some sid, n, st) \<Rightarrow>
               (LoopTop, w\<lparr>sw_counter := n, sw_stats := st, sw_sids := sw_sids w @ [sid],
                  sw_conns := sw_conns w @ [StAccepted]\<rparr>))
      | Inbound (AcceptFailed k errno) \<Rightarrow> (accept_error os req errno, w)
      | Inbound PollElapsed \<Rightarrow> (LoopTop, w)
      | BondIncoming \<Rightarrow> (LoopTop, w\<lparr>sw_bonds := Suc (sw_bonds w)\<rparr>)
      | BondFailed \<Rightarrow> (LoopEnded EndAggregator, w))"

fun server_turn ::
  "target_os \<Rightarrow> server_runtime \<Rightarrow> u64 \<Rightarrow> bool \<Rightarrow> server_event \<Rightarrow> loop_phase \<times> server_world \<Rightarrow> loop_phase \<times> server_world" where
  "server_turn os rt base req ev (LoopTop, w) = (if req then LoopEnded EndShutdown else LoopSelect, w)"
| "server_turn os rt base req ev (LoopSelect, w) = server_arm os rt base req ev w"
| "server_turn os rt base req ev (LoopAdmit, w) = (LoopTop, w)"
| "server_turn os rt base req ev (LoopPause, w) = (LoopTop, w)"
| "server_turn os rt base req ev (LoopEnded r, w) = (LoopEnded r, w)"

text \<open>What other tasks do to the shared state: a connection advances, a stream counts its traffic.\<close>

inductive server_other :: "server_world \<Rightarrow> server_world \<Rightarrow> bool" where
  conn: "i < length (sw_conns w) \<Longrightarrow> conn_step (sw_conns w ! i, sw_stats w) (g, st) \<Longrightarrow>
    server_other w (w\<lparr>sw_conns := (sw_conns w)[i := g], sw_stats := st\<rparr>)"
| traffic: "server_other w (w\<lparr>sw_stats := (sw_stats w)
    \<lparr>st_sessions := n, st_bytes_to_targets := a, st_bytes_to_clients := b\<rparr>\<rparr>)"

subsection \<open>The client\<close>

text \<open>
  One of the accept loops of the client, the \<open>i\<close>-th; \<open>cw_started\<close> counts the connections this loop handed
  to \<open>socks5::handle\<close>.  Comparing with the limit and raising the counters are two turns.
\<close>

record client_world =
  cw_in :: inbound_state
  cw_started :: nat

definition client_arm ::
  "target_os \<Rightarrow> u64 option \<Rightarrow> nat \<Rightarrow> bool \<Rightarrow> accept_event \<Rightarrow> client_world \<Rightarrow> loop_phase \<times> client_world" where
  "client_arm os limit i req ev w =
     (case ev of
        Accepted \<Rightarrow>
          if below_limit limit (in_stats (cw_in w))
          then (LoopAdmit, w\<lparr>cw_in := (cw_in w)\<lparr>in_loops := (in_loops (cw_in w))[i := AcceptPassed]\<rparr>\<rparr>)
          else (LoopTop, w)
      | AcceptFailed k errno \<Rightarrow> (accept_error os req errno, w)
      | PollElapsed \<Rightarrow> (LoopTop, w))"

definition inbound_admit :: "nat \<Rightarrow> inbound_state \<Rightarrow> inbound_state" where
  "inbound_admit i s =
     s\<lparr>in_loops := (in_loops s)[i := AcceptWaiting], in_tasks := Suc (in_tasks s),
       in_stats := (in_stats s)\<lparr>cs_connections := cs_connections (in_stats s) + 1,
         cs_active := cs_active (in_stats s) + 1\<rparr>\<rparr>"

fun client_turn ::
  "target_os \<Rightarrow> u64 option \<Rightarrow> nat \<Rightarrow> bool \<Rightarrow> accept_event \<Rightarrow> loop_phase \<times> client_world \<Rightarrow> loop_phase \<times> client_world" where
  "client_turn os limit i req ev (LoopTop, w) = (if req then LoopEnded EndShutdown else LoopSelect, w)"
| "client_turn os limit i req ev (LoopSelect, w) = client_arm os limit i req ev w"
| "client_turn os limit i req ev (LoopAdmit, w) =
     (LoopTop, w\<lparr>cw_in := inbound_admit i (cw_in w), cw_started := Suc (cw_started w)\<rparr>)"
| "client_turn os limit i req ev (LoopPause, w) = (LoopTop, w)"
| "client_turn os limit i req ev (LoopEnded r, w) = (LoopEnded r, w)"

text \<open>Everything else on the shared counters: the other loops and the ends of connections.\<close>

definition client_other :: "u64 option \<Rightarrow> nat \<Rightarrow> client_world \<Rightarrow> client_world \<Rightarrow> bool" where
  "client_other limit i w w' \<longleftrightarrow>
     inbound_step limit (cw_in w) (cw_in w') \<and> in_loops (cw_in w') ! i = in_loops (cw_in w) ! i \<and>
     cw_started w' = cw_started w"

section \<open>The serve functions\<close>

text \<open>
  What \<open>serve\<close> of either role needs before its loop: its address for the log line, a non-blocking
  listener, a runtime, the converted listener, and its address again for \<open>install\<close>.  Each field is the
  error of a step, if any.
\<close>

record setup_answers =
  su_address :: "error_kind option"
  su_nonblocking :: "error_kind option"
  su_runtime :: "error_kind option"
  su_convert :: "error_kind option"
  su_wake_address :: "error_kind option"

fun first_error :: "error_kind option list \<Rightarrow> error_kind option" where
  "first_error [] = None"
| "first_error (Some k # rest) = Some k"
| "first_error (None # rest) = first_error rest"

definition setup_error :: "setup_answers \<Rightarrow> error_kind option" where
  "setup_error su = first_error [su_address su, su_nonblocking su, su_runtime su, su_convert su, su_wake_address su]"

text \<open>
  \<open>serve\<close> of the server up to its loop; \<open>agg_ok\<close> is whether the aggregator's listener could be made,
  without which \<open>accept_loop\<close> returns at once.
\<close>

definition server_serve ::
  "setup_answers \<Rightarrow> bool \<Rightarrow> bool \<Rightarrow> ip_addr \<times> int \<Rightarrow> shutdown_state \<Rightarrow>
   error_kind + (shutdown_state \<times> loop_phase \<times> server_world)" where
  "server_serve su ok agg_ok addr sd =
     (case setup_error su of
        Some k \<Rightarrow> Inl k
      | None \<Rightarrow> Inr (install ok addr sd, if agg_ok then LoopTop else LoopEnded EndAggregator, server_world_new))"

text \<open>The end of \<open>serve\<close>, the same in both roles: once the loop has ended, the sessions are drained.\<close>

definition serve_tail :: "loop_phase \<Rightarrow> nat \<Rightarrow> (u64 \<times> nat) list \<Rightarrow> drain_end option" where
  "serve_tail p now obs =
     (case p of LoopEnded _ \<Rightarrow> drain_sessions (now + DRAIN_TIMEOUT) obs | _ \<Rightarrow> None)"

text \<open>
  \<open>serve\<close> of the client up to its loops: the parameters of the pools, one per inbound listener.  The second
  listener comes with three steps of its own and an \<open>expect\<close>.
\<close>

record pool_params =
  pp_pool_size :: u32
  pp_max_streams :: u32

datatype serve_error = ServeIo error_kind | ServePanic

record bond_answers =
  bu_nonblocking :: "error_kind option"
  bu_convert :: "error_kind option"
  bu_address :: "error_kind option"

definition bond_inbound :: "bond_answers \<Rightarrow> client_runtime \<Rightarrow> serve_error + pool_params" where
  "bond_inbound bu rt =
     (case first_error [bu_nonblocking bu, bu_convert bu] of
        Some k \<Rightarrow> Inl (ServeIo k)
      | None \<Rightarrow>
          (case cr_bond rt of
             None \<Rightarrow> Inl ServePanic
           | Some params \<Rightarrow>
               (case bu_address bu of
                  Some k \<Rightarrow> Inl (ServeIo k)
                | None \<Rightarrow> Inr \<lparr>pp_pool_size = bp_pool_size params, pp_max_streams = bp_max_streams params\<rparr>)))"

definition client_serve ::
  "setup_answers \<Rightarrow> bond_answers \<Rightarrow> bool \<Rightarrow> ip_addr \<times> int \<Rightarrow> (ip_addr \<times> int) option \<Rightarrow> client_runtime \<Rightarrow>
   shutdown_state \<Rightarrow> (serve_error + pool_params list) \<times> shutdown_state" where
  "client_serve su bu ok addr bond_listener rt sd =
     (case setup_error su of
        Some k \<Rightarrow> (Inl (ServeIo k), sd)
      | None \<Rightarrow>
          (let pool = \<lparr>pp_pool_size = cr_pool_size rt, pp_max_streams = cr_max_streams rt\<rparr> in
           (case bond_listener of
              None \<Rightarrow> Inr [pool]
            | Some _ \<Rightarrow> (case bond_inbound bu rt of Inl e \<Rightarrow> Inl e | Inr bond_pool \<Rightarrow> Inr [pool, bond_pool]),
            install ok addr sd)))"

section \<open>Executions\<close>

text \<open>A loop with the signal handler and the other tasks: what happens at each step is its label.\<close>

datatype 'e serve_label = SignalStep | TurnStep 'e | OtherStep

inductive serve_step ::
  "(bool \<Rightarrow> 'e \<Rightarrow> loop_phase \<times> 'w \<Rightarrow> loop_phase \<times> 'w) \<Rightarrow> ('w \<Rightarrow> 'w \<Rightarrow> bool) \<Rightarrow> 'e serve_label \<Rightarrow>
   shutdown_state \<times> loop_phase \<times> 'w \<Rightarrow> shutdown_state \<times> loop_phase \<times> 'w \<Rightarrow> bool" for turn others where
  signal: "sd_handler sd \<Longrightarrow> serve_step turn others SignalStep (sd, p, w) (snd (on_signal sd), p, w)"
| turn: "turn (requested sd) ev (p, w) = (p', w') \<Longrightarrow> serve_step turn others (TurnStep ev) (sd, p, w) (sd, p', w')"
| other: "others w w' \<Longrightarrow> serve_step turn others OtherStep (sd, p, w) (sd, p, w')"

inductive serve_run ::
  "(bool \<Rightarrow> 'e \<Rightarrow> loop_phase \<times> 'w \<Rightarrow> loop_phase \<times> 'w) \<Rightarrow> ('w \<Rightarrow> 'w \<Rightarrow> bool) \<Rightarrow> 'e serve_label list \<Rightarrow>
   shutdown_state \<times> loop_phase \<times> 'w \<Rightarrow> shutdown_state \<times> loop_phase \<times> 'w \<Rightarrow> bool" for turn others where
  stop: "serve_run turn others [] s s"
| step: "serve_step turn others l s u \<Longrightarrow> serve_run turn others ls u t \<Longrightarrow> serve_run turn others (l # ls) s t"

inductive_cases serve_stepE [elim!]: "serve_step turn others l (sd, p, w) t"

inductive_cases serve_runE: "serve_run turn others (l # ls) s t"

fun is_turn :: "'e serve_label \<Rightarrow> bool" where
  "is_turn (TurnStep _) = True"
| "is_turn _ = False"

text \<open>
  The contract of a loop: a requested shutdown is seen at the head, a pause leads back to the head, an
  ended loop stays ended, and each pass starts at most one task.
\<close>

fun loop_rank :: "loop_phase \<Rightarrow> nat" where
  "loop_rank (LoopEnded _) = 0"
| "loop_rank LoopTop = 1"
| "loop_rank LoopPause = 2"
| "loop_rank LoopAdmit = 2"
| "loop_rank LoopSelect = 3"

fun loop_credit :: "loop_phase \<Rightarrow> nat" where
  "loop_credit LoopSelect = 1"
| "loop_credit LoopAdmit = 1"
| "loop_credit _ = 0"

lemma loop_credit_le: "loop_credit p \<le> 1"
  by (cases p) simp_all

lemma loop_rank_zero: "loop_rank p = 0 \<longleftrightarrow> (\<exists>r. p = LoopEnded r)"
  by (cases p) simp_all

lemma loop_rank_le: "loop_rank p \<le> 3"
  by (cases p) simp_all

locale accept_loop =
  fixes turn :: "bool \<Rightarrow> 'e \<Rightarrow> loop_phase \<times> 'w \<Rightarrow> loop_phase \<times> 'w"
    and others :: "'w \<Rightarrow> 'w \<Rightarrow> bool"
    and started :: "'w \<Rightarrow> nat"
  assumes head_stops: "turn True ev (LoopTop, w) = (LoopEnded EndShutdown, w)"
    and pause_returns: "turn req ev (LoopPause, w) = (LoopTop, w)"
    and ended_stays: "turn req ev (LoopEnded r, w) = (LoopEnded r, w)"
    and admit_returns: "turn req ev (LoopAdmit, w) = (p, w') \<Longrightarrow> p = LoopTop \<and> started w' \<le> Suc (started w)"
    and select_once: "turn req ev (LoopSelect, w) = (p, w') \<Longrightarrow>
      p \<noteq> LoopSelect \<and> started w' + loop_credit p \<le> Suc (started w)"
    and others_start_none: "others w w' \<Longrightarrow> started w' = started w"
begin

lemma turn_requested:
  assumes "turn True ev (p, w) = (p', w')"
  shows "loop_rank p' \<le> loop_rank p - 1 \<and> started w' + loop_credit p' \<le> started w + loop_credit p"
proof (cases p)
  case LoopSelect
  then show ?thesis using select_once [of True ev w p' w'] assms by (cases p') auto
next
  case LoopAdmit
  then show ?thesis using admit_returns [of True ev w p' w'] assms by simp
qed (use assms head_stops pause_returns ended_stays in auto)

lemma step_requested:
  assumes "serve_step turn others l (sd, p, w) (sd', p', w')" and "requested sd"
  shows "requested sd' \<and> loop_rank p' \<le> loop_rank p - (if is_turn l then 1 else 0) \<and>
    started w' + loop_credit p' \<le> started w + loop_credit p"
  using assms turn_requested others_start_none by (auto simp: requested_def on_signal_def)

lemma run_requested:
  assumes "serve_run turn others ls (sd, p, w) (sd', p', w')" and "requested sd"
  shows "loop_rank p' \<le> loop_rank p - length (filter is_turn ls) \<and>
    started w' + loop_credit p' \<le> started w + loop_credit p"
  using assms
proof (induction ls arbitrary: sd p w)
  case Nil
  then show ?case by (auto elim: serve_run.cases)
next
  case (Cons l ls)
  obtain sd1 p1 w1 where s: "serve_step turn others l (sd, p, w) (sd1, p1, w1)"
      "serve_run turn others ls (sd1, p1, w1) (sd', p', w')"
    using Cons.prems(1) by (metis serve_runE prod_cases3)
  then show ?case
    using step_requested [OF s(1) Cons.prems(2)] Cons.IH [OF s(2)] by auto
qed

text \<open>After a request the loop starts at most one more task and ends within three of its turns.\<close>

lemma stops_after_request:
  assumes "serve_run turn others ls (sd, p, w) (sd', p', w')" and "requested sd"
  shows "started w' \<le> Suc (started w) \<and> (3 \<le> length (filter is_turn ls) \<longrightarrow> (\<exists>r. p' = LoopEnded r))"
  using run_requested [OF assms] loop_credit_le [of p] loop_rank_le [of p] loop_rank_zero [of p'] by auto

end

section \<open>The server in its loop\<close>

lemma accept_conn_cases:
  "accept_conn rt base n st = (None, n, st\<lparr>st_rejected_overload := st_rejected_overload st + 1\<rparr>) \<or>
   accept_conn rt base n st = (Some (session_id_for base n), n + 1, st)"
  by (auto simp: accept_conn_def)

lemma server_arm_phase:
  assumes "server_arm os rt base req ev w = (p, w')"
  shows "p \<noteq> LoopSelect \<and> p \<noteq> LoopAdmit \<and>
    length (sw_sids w') + sw_bonds w' \<le> Suc (length (sw_sids w) + sw_bonds w)"
  using assms accept_conn_cases [of rt base "sw_counter w" "sw_stats w"]
  by (auto simp: server_arm_def accept_error_def split: server_event.splits accept_event.splits if_splits)

lemma loop_credit_zero: "p \<noteq> LoopSelect \<Longrightarrow> p \<noteq> LoopAdmit \<Longrightarrow> loop_credit p = 0"
  by (cases p) simp_all

interpretation srv: accept_loop "server_turn os rt base" server_other "\<lambda>w. length (sw_sids w) + sw_bonds w"
  for os rt base
proof unfold_locales
  fix req ev w p w'
  assume "server_turn os rt base req ev (LoopSelect, w) = (p, w')"
  then show "p \<noteq> LoopSelect \<and> length (sw_sids w') + sw_bonds w' + loop_credit p \<le> Suc (length (sw_sids w) + sw_bonds w)"
    using server_arm_phase [of os rt base req ev w p w'] by (simp add: loop_credit_zero)
qed (auto elim: server_other.cases)

text \<open>What holds of the server at any time: the gauges, and the ids of its sessions.\<close>

definition issued_ids :: "u64 \<Rightarrow> nat \<Rightarrow> u128 list" where
  "issued_ids base n = map (\<lambda>i. session_id_for base (of_nat i)) [0..<n]"

lemma issued_ids_Suc [simp]: "issued_ids base (Suc n) = issued_ids base n @ [session_id_for base (of_nat n)]"
  by (simp add: issued_ids_def)

definition server_world_ok :: "u64 \<Rightarrow> server_world \<Rightarrow> bool" where
  "server_world_ok base w \<longleftrightarrow>
     counters_ok (sw_conns w, sw_stats w) \<and> sw_counter w = of_nat (length (sw_conns w)) \<and>
     sw_sids w = issued_ids base (length (sw_conns w))"

lemma server_world_ok_new: "server_world_ok base server_world_new"
  by (simp add: server_world_ok_def server_world_new_def issued_ids_def counters_ok_def slots_def
      in_handshake_def stats_default_def)

lemma counters_ok_untouched [simp]:
  "counters_ok (gs @ [StAccepted], st) = counters_ok (gs, st)"
  "counters_ok (gs, st\<lparr>st_rejected_overload := n\<rparr>) = counters_ok (gs, st)"
  "counters_ok (gs, st\<lparr>st_sessions := n, st_bytes_to_targets := a, st_bytes_to_clients := b\<rparr>) = counters_ok (gs, st)"
  by (simp_all add: counters_ok_def slots_def in_handshake_def)

lemma server_arm_ok:
  assumes "server_arm os rt base req ev w = (p, w')" and "server_world_ok base w"
  shows "server_world_ok base w'"
  using assms accept_conn_cases [of rt base "sw_counter w" "sw_stats w"]
  by (auto simp: server_arm_def server_world_ok_def split: server_event.splits accept_event.splits)

lemma server_other_ok:
  assumes "server_other w w'" and "server_world_ok base w"
  shows "server_world_ok base w'"
  using assms
proof cases
  case (conn i g st)
  then show ?thesis
    using assms(2) counters_ok_advance [of "sw_conns w" "sw_stats w" i g st] by (simp add: server_world_ok_def)
next
  case traffic
  then show ?thesis
    using assms(2) by (simp add: server_world_ok_def)
qed

lemma server_turn_ok:
  assumes "server_turn os rt base req ev (p, w) = (p', w')" and "server_world_ok base w"
  shows "server_world_ok base w'"
  using assms server_arm_ok by (cases p) (auto split: if_splits)

text \<open>An invariant of turns and other tasks is one of executions.\<close>

lemma serve_run_invariant:
  assumes "serve_run turn others ls (sd, p, w) (sd', p', w')" and "Q p w"
    and "\<And>req ev p w p' w'. turn req ev (p, w) = (p', w') \<Longrightarrow> Q p w \<Longrightarrow> Q p' w'"
    and "\<And>p w w'. others w w' \<Longrightarrow> Q p w \<Longrightarrow> Q p w'"
  shows "Q p' w'"
  using assms(1,2)
proof (induction ls arbitrary: sd p w)
  case Nil
  then show ?case by (auto elim: serve_run.cases)
next
  case (Cons l ls)
  obtain sd1 p1 w1 where s: "serve_step turn others l (sd, p, w) (sd1, p1, w1)"
      "serve_run turn others ls (sd1, p1, w1) (sd', p', w')"
    using Cons.prems(1) by (metis serve_runE prod_cases3)
  have "Q p1 w1" using s(1) Cons.prems(2) assms(3,4) by auto
  with Cons.IH [OF s(2)] show ?case by blast
qed

lemma server_run_ok:
  "serve_run (server_turn os rt base) server_other ls (sd, p, w) (sd', p', w') \<Longrightarrow> server_world_ok base w \<Longrightarrow>
   server_world_ok base w'"
  by (erule serve_run_invariant [where Q = "\<lambda>_. server_world_ok base"]) (auto dest: server_turn_ok server_other_ok)

lemma issued_ids_distinct:
  assumes "base \<noteq> 0" and "n \<le> 2 ^ 64"
  shows "distinct (issued_ids base n)"
proof -
  have u: "unat (of_nat i :: u64) = i" if "i < n" for i
    using that assms(2) by (intro unat_of_nat_small) simp
  have "inj_on (of_nat :: nat \<Rightarrow> u64) {0..<n}"
    by (rule inj_onI) (metis atLeastLessThan_iff u)
  then show ?thesis using assms(1) by (auto simp: issued_ids_def distinct_map inj_on_def session_ids_unique)
qed

lemma issued_ids_nonzero: "0 \<notin> set (issued_ids base n)"
  using session_ids_unique by (auto simp: issued_ids_def)

subsection \<open>Executions of the server\<close>

lemma serve_run_append:
  "serve_run turn others ls s u \<Longrightarrow> serve_run turn others ms u t \<Longrightarrow> serve_run turn others (ls @ ms) s t"
proof (induction rule: serve_run.induct)
  case (step l s u ls t)
  then show ?case using serve_run.step [OF step(1)] by simp
qed simp

lemma serve_run_single: "serve_step turn others l s t \<Longrightarrow> serve_run turn others [l] s t"
  by (rule serve_run.step [OF _ serve_run.stop])

definition gates_open :: "server_runtime \<Rightarrow> server_stats \<Rightarrow> bool" where
  "gates_open rt st \<longleftrightarrow>
     (case sr_max_connections rt of Some mx \<Rightarrow> st_active st < mx | None \<Rightarrow> True) \<and>
     (case sr_max_handshakes rt of Some mx \<Rightarrow> st_handshaking st < mx | None \<Rightarrow> True)"

definition admitted :: "u64 \<Rightarrow> server_world \<Rightarrow> server_world" where
  "admitted base w = w\<lparr>sw_counter := sw_counter w + 1, sw_sids := sw_sids w @ [session_id_for base (sw_counter w)],
     sw_conns := sw_conns w @ [StAccepted]\<rparr>"

lemma accept_arm_open:
  "gates_open rt (sw_stats w) \<Longrightarrow> server_arm os rt base req (Inbound Accepted) w = (LoopTop, admitted base w)"
  by (auto simp: server_arm_def accept_conn_def gates_open_def admitted_def not_le split: option.splits)

text \<open>
  A connection that is accepted after the request is served like any other, the wake-up connection of the
  signal handler included.
\<close>

lemma wake_connection_is_served:
  "gates_open rt (sw_stats w) \<Longrightarrow>
   server_turn os rt base True (Inbound Accepted) (LoopSelect, w) = (LoopTop, admitted base w)"
  by (simp add: accept_arm_open)

lemma accept_turns:
  assumes "\<not> requested sd" and "gates_open rt (sw_stats w)"
  shows "serve_run (server_turn os rt base) server_other
    [TurnStep (Inbound Accepted), TurnStep (Inbound Accepted)] (sd, LoopTop, w) (sd, LoopTop, admitted base w)"
  by (rule serve_run.step [OF serve_step.turn [of _ _ _ LoopTop w LoopSelect w]
        serve_run_single [OF serve_step.turn]]) (use assms in \<open>simp_all add: accept_arm_open\<close>)

lemma other_step:
  assumes "i < length (sw_conns w)" and "conn_step (sw_conns w ! i, sw_stats w) (g, st)"
  shows "serve_run turn server_other [OtherStep] (sd, p, w)
    (sd, p, w\<lparr>sw_conns := (sw_conns w)[i := g], sw_stats := st\<rparr>)"
  using assms by (intro serve_run_single serve_step.other server_other.conn)

lemma conn_through:
  assumes i: "i < length (sw_conns w)" and "sw_conns w ! i = StAccepted"
  shows "\<exists>ls. serve_run turn server_other ls (sd, p, w)
    (sd, p, w\<lparr>sw_conns := (sw_conns w)[i := StServing],
       sw_stats := (sw_stats w)\<lparr>st_active := st_active (sw_stats w) + 1\<rparr>\<rparr>)"
proof -
  let ?st = "sw_stats w"
  let ?w1 = "w\<lparr>sw_conns := (sw_conns w)[i := StHandshake],
    sw_stats := ?st\<lparr>st_handshaking := st_handshaking ?st + 1\<rparr>\<rparr>"
  let ?w2 = "?w1\<lparr>sw_conns := (sw_conns ?w1)[i := StHandshaken],
    sw_stats := (sw_stats ?w1)\<lparr>st_handshaking := st_handshaking (sw_stats ?w1) - 1\<rparr>\<rparr>"
  let ?w3 = "?w2\<lparr>sw_conns := (sw_conns ?w2)[i := StAuthenticated],
    sw_stats := (sw_stats ?w2)\<lparr>st_active := st_active (sw_stats ?w2) + 1\<rparr>\<rparr>"
  let ?w4 = "?w3\<lparr>sw_conns := (sw_conns ?w3)[i := StServing], sw_stats := sw_stats ?w3\<rparr>"
  have a: "serve_run turn server_other [OtherStep] (sd, p, w) (sd, p, ?w1)"
    using assms by (intro other_step) (simp_all add: conn_step.hs_begin)
  have b: "serve_run turn server_other [OtherStep] (sd, p, ?w1) (sd, p, ?w2)"
    by (rule other_step) (use i conn_step.hs_over [of "sw_stats ?w1"] in simp_all)
  have c: "serve_run turn server_other [OtherStep] (sd, p, ?w2) (sd, p, ?w3)"
    by (rule other_step) (use i conn_step.hs_done [of "sw_stats ?w2"] in simp_all)
  have d: "serve_run turn server_other [OtherStep] (sd, p, ?w3) (sd, p, ?w4)"
    by (rule other_step) (use i conn_step.setup_done [of "sw_stats ?w3"] in simp_all)
  have "?w4 = w\<lparr>sw_conns := (sw_conns w)[i := StServing],
      sw_stats := ?st\<lparr>st_active := st_active ?st + 1\<rparr>\<rparr>" by simp
  with serve_run_append [OF a serve_run_append [OF b serve_run_append [OF c d]]] show ?thesis by metis
qed

text \<open>A burst of connections that are all accepted before the first of them has shaken hands.\<close>

lemma accept_burst:
  assumes "\<not> requested sd" and "gates_open rt stats_default"
  shows "\<exists>ls w. serve_run (server_turn os rt base) server_other ls (sd, LoopTop, server_world_new) (sd, LoopTop, w) \<and>
    sw_conns w = replicate n StAccepted \<and> sw_stats w = stats_default"
proof (induction n)
  case 0
  show ?case
    by (intro exI [of _ "[]"] exI [of _ server_world_new]) (simp add: serve_run.stop server_world_new_def)
next
  case (Suc n)
  then obtain ls w where w: "serve_run (server_turn os rt base) server_other ls
      (sd, LoopTop, server_world_new) (sd, LoopTop, w)"
    "sw_conns w = replicate n StAccepted" "sw_stats w = stats_default" by blast
  with serve_run_append [OF w(1) accept_turns [OF assms(1), of rt w]] assms(2)
  show ?case by (intro exI [of _ "ls @ _"] exI [of _ "admitted base w"]) (auto simp: admitted_def replicate_append_same)
qed

lemma burst_is_served:
  assumes "sw_conns w = replicate k StServing @ replicate m StAccepted"
  shows "\<exists>ls w'. serve_run turn server_other ls (sd, p, w) (sd, p, w') \<and> sw_conns w' = replicate (k + m) StServing \<and>
    st_active (sw_stats w') = st_active (sw_stats w) + of_nat m"
  using assms
proof (induction m arbitrary: k w)
  case 0
  then show ?case by (intro exI [of _ "[]"] exI [of _ w]) (simp add: serve_run.stop)
next
  case (Suc m)
  let ?w = "w\<lparr>sw_conns := (sw_conns w)[k := StServing],
    sw_stats := (sw_stats w)\<lparr>st_active := st_active (sw_stats w) + 1\<rparr>\<rparr>"
  obtain ls where ls: "serve_run turn server_other ls (sd, p, w) (sd, p, ?w)"
    using conn_through [of k w turn sd p] Suc.prems by (auto simp: nth_append)
  have "sw_conns ?w = replicate (Suc k) StServing @ replicate m StAccepted"
    using Suc.prems by (simp add: list_update_append replicate_app_Cons_same)
  then obtain ms w' where "serve_run turn server_other ms (sd, p, ?w) (sd, p, w')"
      "sw_conns w' = replicate (Suc k + m) StServing" "st_active (sw_stats w') = st_active (sw_stats ?w) + of_nat m"
    using Suc.IH by blast
  with serve_run_append [OF ls] show ?case
    by (intro exI [of _ "ls @ ms"] exI [of _ w']) (auto simp: algebra_simps)
qed

text \<open>
  The limits see only connections that have come far enough: whatever \<open>max_connections\<close> and
  \<open>max_handshakes\<close> are (not zero), any number of connections can be served at the same time.
\<close>

lemma admission_limits_overshoot:
  assumes "\<not> requested sd" and "sr_max_connections rt \<noteq> Some 0" and "sr_max_handshakes rt \<noteq> Some 0"
  shows "\<exists>ls w. serve_run (server_turn os rt base) server_other ls (sd, LoopTop, server_world_new) (sd, LoopTop, w) \<and>
    sw_conns w = replicate n StServing \<and> st_active (sw_stats w) = of_nat n"
proof -
  have "gates_open rt stats_default"
    using assms(2,3) by (auto simp: gates_open_def stats_default_def word_gt_0 split: option.splits)
  then obtain ls w where w: "serve_run (server_turn os rt base) server_other ls
      (sd, LoopTop, server_world_new) (sd, LoopTop, w)" "sw_conns w = replicate n StAccepted" "sw_stats w = stats_default"
    using accept_burst [OF assms(1)] by blast
  have start: "sw_conns w = replicate 0 StServing @ replicate n StAccepted" using w(2) by simp
  then obtain ms w' where "serve_run (server_turn os rt base) server_other ms (sd, LoopTop, w) (sd, LoopTop, w')"
      "sw_conns w' = replicate n StServing" "st_active (sw_stats w') = of_nat n"
    using burst_is_served [OF start, of "server_turn os rt base" sd LoopTop] w(3) by (auto simp: stats_default_def)
  with serve_run_append [OF w(1)] show ?thesis by blast
qed

section \<open>The client in its loops\<close>

interpretation cli: accept_loop "client_turn os limit i" "client_other limit i" cw_started
  for os limit i
proof unfold_locales
  fix req ev w p w'
  assume "client_turn os limit i req ev (LoopSelect, w) = (p, w')"
  then show "p \<noteq> LoopSelect \<and> cw_started w' + loop_credit p \<le> Suc (cw_started w)"
    by (auto simp: client_arm_def accept_error_def split: accept_event.splits if_splits)
qed (auto simp: client_other_def)

text \<open>A loop stands past the limit check exactly when the shared state says so.\<close>

definition client_ok :: "nat \<Rightarrow> loop_phase \<Rightarrow> client_world \<Rightarrow> bool" where
  "client_ok i p w \<longleftrightarrow> i < length (in_loops (cw_in w)) \<and>
     (in_loops (cw_in w) ! i = AcceptPassed \<longleftrightarrow> p = LoopAdmit)"

lemma inbound_step_length: "inbound_step limit s s' \<Longrightarrow> length (in_loops s') = length (in_loops s)"
  by (induction rule: inbound_step.induct) simp_all

lemma waiting_or_passed: "a \<noteq> AcceptPassed \<longleftrightarrow> a = AcceptWaiting"
  by (cases a) simp_all

lemma client_turn_refines:
  assumes "client_turn os limit i req ev (p, w) = (p', w')" and "client_ok i p w"
  shows "client_ok i p' w' \<and> (inbound_step limit)\<^sup>*\<^sup>* (cw_in w) (cw_in w')"
proof (cases p)
  case LoopSelect
  then have "in_loops (cw_in w) ! i = AcceptWaiting" "i < length (in_loops (cw_in w))"
    using assms(2) by (simp_all add: client_ok_def waiting_or_passed)
  then show ?thesis
    using assms LoopSelect inbound_step.pass [of i "cw_in w" limit]
    by (auto simp: client_arm_def client_ok_def accept_error_def split: accept_event.splits if_splits)
next
  case LoopAdmit
  then show ?thesis
    using assms inbound_step.admit [of i "cw_in w" limit] by (auto simp: client_ok_def inbound_admit_def)
qed (use assms in \<open>auto simp: client_ok_def split: if_splits\<close>)

text \<open>
  Every execution of an accept loop, with the signal handler and everything else around it, is an
  execution of the admission with its interleavings.
\<close>

lemma client_run_refines:
  assumes "serve_run (client_turn os limit i) (client_other limit i) ls (sd, p, w) (sd', p', w')" and "client_ok i p w"
  shows "(inbound_step limit)\<^sup>*\<^sup>* (cw_in w) (cw_in w')"
proof -
  let ?Q = "\<lambda>p v. client_ok i p v \<and> (inbound_step limit)\<^sup>*\<^sup>* (cw_in w) (cw_in v)"
  have "?Q p' w'"
    using assms(1)
  proof (rule serve_run_invariant [where Q = ?Q])
    fix req ev p v p' v'
    assume "client_turn os limit i req ev (p, v) = (p', v')" and "?Q p v"
    then show "?Q p' v'" using client_turn_refines by (meson rtranclp_trans)
  next
    fix p v v'
    assume "client_other limit i v v'" and "?Q p v"
    then show "?Q p v'"
      using inbound_step_length by (auto simp: client_other_def client_ok_def intro: rtranclp.rtrancl_into_rtrancl)
  qed (use assms(2) in simp)
  then show ?thesis by simp
qed

text \<open>After a request a loop of the client admits at most one more connection and ends within three turns.\<close>

lemma client_loop_stops:
  assumes "serve_run (client_turn os limit i) (client_other limit i) ls (sd, p, w) (sd', p', w')" and "requested sd"
  shows "cw_started w' \<le> Suc (cw_started w) \<and> (3 \<le> length (filter is_turn ls) \<longrightarrow> (\<exists>r. p' = LoopEnded r))"
  by (rule cli.stops_after_request [OF assms])

section \<open>Starting and ending\<close>

lemma first_error_none: "first_error xs = None \<longleftrightarrow> list_all (\<lambda>x. x = None) xs"
  by (induction xs rule: first_error.induct) simp_all

text \<open>
  The \<open>expect\<close> in \<open>serve\<close> of the client holds: a started client has bond parameters whenever it has a second
  listener.  Without a failing step it serves one pool per listener, each of tunnels that take streams.
\<close>

lemma launched_client_never_panics:
  assumes "start_client bind cfg = Inr (addr, bond_addr, rt)"
  shows "fst (client_serve su bu ok addr bond_addr rt sd) \<noteq> Inl ServePanic"
  using start_clientD [OF assms]
  by (auto simp: client_serve_def bond_inbound_def Let_def split: option.splits)

lemma max_one_nonzero: "max x 1 \<noteq> (0 :: 'a::len word)"
  by (auto simp: max_def word_le_nat_alt)

lemma started_client_streams:
  assumes "start_client bind cfg = Inr (addr, bond_addr, rt)"
  shows "cr_max_streams rt \<noteq> 0 \<and> (\<forall>b. cr_bond rt = Some b \<longrightarrow> bp_max_streams b \<noteq> 0)"
  using assms
  by (auto simp: start_client_def client_from_config_def max_one_nonzero simp del: max_less_iff_conj
      split: sum.splits option.splits)

lemma launched_client_serves:
  assumes "start_client bind cfg = Inr (addr, bond_addr, rt)" and "setup_error su = None"
    and "first_error [bu_nonblocking bu, bu_convert bu, bu_address bu] = None"
  shows "\<exists>pools. client_serve su bu ok addr bond_addr rt sd = (Inr pools, install ok addr sd) \<and>
    length pools = (if cc_bond cfg = None then 1 else 2) \<and> (\<forall>q \<in> set pools. pp_max_streams q \<noteq> 0)"
proof -
  have "bond_addr = None \<longleftrightarrow> cc_bond cfg = None"
    using assms(1) by (auto simp: start_client_def dest!: client_loadD split: sum.splits option.splits)
  then show ?thesis
    using start_clientD [OF assms(1)] started_client_streams [OF assms(1)] assms(2,3)
    by (auto simp: client_serve_def bond_inbound_def first_error_none Let_def split: option.splits)
qed

text \<open>
  C18.  Whatever connects, fails, advances or transfers while the server runs, its books are right: the two
  gauges are the number of connections that hold a slot and that are in their handshake, every
  connection handed to a session has an id of its own (if the random base is not zero), and no id is zero.
\<close>

theorem server_sessions_accounted:
  assumes "serve_run (server_turn os rt base) server_other ls (sd, LoopTop, server_world_new) (sd', p, w)"
  shows "st_active (sw_stats w) = of_nat (slots (sw_conns w)) \<and>
    st_handshaking (sw_stats w) = of_nat (in_handshake (sw_conns w)) \<and>
    length (sw_sids w) = length (sw_conns w) \<and> 0 \<notin> set (sw_sids w) \<and>
    (base \<noteq> 0 \<and> length (sw_sids w) \<le> 2 ^ 64 \<longrightarrow> distinct (sw_sids w))"
proof -
  have "server_world_ok base w" by (rule server_run_ok [OF assms server_world_ok_new])
  moreover have "length (issued_ids base n) = n" for n by (simp add: issued_ids_def)
  ultimately show ?thesis
    using issued_ids_distinct [of base "length (sw_conns w)"] issued_ids_nonzero
    by (simp add: server_world_ok_def counters_ok_def)
qed

definition open_runtime :: server_runtime where
  "open_runtime =
     \<lparr>sr_key = default_key, sr_connect_timeout = 10, sr_handshake_timeout = 15, sr_max_connections = Some 1,
      sr_max_handshakes = Some 1, sr_max_streams_per_conn = None, sr_allow_bond = True\<rparr>"

theorem server_sessions_accounted_witness:
  "\<exists>ls w. serve_run (server_turn OsUnix open_runtime 7) server_other ls (shutdown_new, LoopTop, server_world_new)
      (shutdown_new, LoopTop, w) \<and> sw_conns w = replicate 3 StServing \<and> length (sw_sids w) = 3 \<and>
    distinct (sw_sids w) \<and> st_active (sw_stats w) = 3"
proof -
  have "\<not> requested shutdown_new" "sr_max_connections open_runtime \<noteq> Some 0" "sr_max_handshakes open_runtime \<noteq> Some 0"
    by (simp_all add: requested_def shutdown_new_def open_runtime_def)
  then obtain ls w where w: "serve_run (server_turn OsUnix open_runtime 7) server_other ls
      (shutdown_new, LoopTop, server_world_new) (shutdown_new, LoopTop, w)" "sw_conns w = replicate 3 StServing"
    "st_active (sw_stats w) = of_nat 3"
    using admission_limits_overshoot [of shutdown_new open_runtime OsUnix 7 3] by blast
  show ?thesis using server_sessions_accounted [OF w(1)] w by (intro exI [of _ ls] exI [of _ w]) simp
qed

text \<open>
  C19.  Shutdown is orderly and bounded: once the signal handler has set the flag, the server starts at most
  one more session, whatever happens; after three turns its loop has ended, and the drain that follows,
  with its passes at least 100 milliseconds apart, returns after at most 101 passes, with success only
  if it saw no active session and with a timeout only at its deadline.
\<close>

theorem server_shuts_down:
  assumes "serve_run (server_turn os rt base) server_other ls (snd (on_signal sd), p, w) (sd', p', w')"
  shows "length (sw_sids w') + sw_bonds w' \<le> Suc (length (sw_sids w) + sw_bonds w) \<and>
    (3 \<le> length (filter is_turn ls) \<and> 101 \<le> length obs \<and>
      (\<forall>i < length obs. now + 100 * i \<le> snd (obs ! i)) \<longrightarrow>
     (\<exists>r. serve_tail p' now obs = Some r \<and>
       (case r of
          AllDrained \<Rightarrow> \<exists>t. (0, t) \<in> set obs
        | DrainTimedOut a \<Rightarrow> a \<noteq> 0 \<and> (\<exists>t. (a, t) \<in> set obs \<and> now + DRAIN_TIMEOUT \<le> t))))"
proof -
  have "requested (snd (on_signal sd))" by (simp add: requested_def on_signal_def)
  note stop = srv.stops_after_request [OF assms this]
  have "serve_tail p' now obs = drain_sessions (now + DRAIN_TIMEOUT) obs" if "3 \<le> length (filter is_turn ls)"
    using stop that by (auto simp: serve_tail_def)
  then show ?thesis using stop drain_ends [of obs now] by auto
qed

theorem server_shuts_down_witness:
  "\<exists>ls sd' p' w' r. serve_run (server_turn OsUnix open_runtime 7) server_other ls
      (snd (on_signal shutdown_new), LoopSelect, server_world_new) (sd', p', w') \<and>
    length (sw_sids w') = 1 \<and> serve_tail p' 0 (map (\<lambda>i. (1, 100 * i)) [0..<101]) = Some r"
proof -
  let ?sd = "snd (on_signal shutdown_new)" and ?w = "admitted 7 server_world_new"
  let ?t = "TurnStep (Inbound Accepted)" and ?turn = "server_turn OsUnix open_runtime 7"
  let ?obs = "map (\<lambda>i. (1 :: u64, 100 * i)) [0..<101]"
  have req: "requested ?sd" by (simp add: requested_def on_signal_def)
  have "gates_open open_runtime (sw_stats server_world_new)"
    by (simp add: gates_open_def open_runtime_def server_world_new_def stats_default_def)
  then have a: "serve_step ?turn server_other ?t (?sd, LoopSelect, server_world_new) (?sd, LoopTop, ?w)"
    by (intro serve_step.turn) (simp add: accept_arm_open)
  have b: "serve_step ?turn server_other ?t (?sd, LoopTop, ?w) (?sd, LoopEnded EndShutdown, ?w)"
    using req by (intro serve_step.turn) simp
  have c: "serve_step ?turn server_other ?t (?sd, LoopEnded EndShutdown, ?w) (?sd, LoopEnded EndShutdown, ?w)"
    by (intro serve_step.turn) simp
  have run: "serve_run ?turn server_other [?t, ?t, ?t] (?sd, LoopSelect, server_world_new)
      (?sd, LoopEnded EndShutdown, ?w)"
    by (rule serve_run.step [OF a serve_run.step [OF b serve_run_single [OF c]]])
  have "length (sw_sids ?w) = 1" by (simp add: admitted_def server_world_new_def)
  moreover obtain r where "serve_tail (LoopEnded EndShutdown) 0 ?obs = Some r"
    using server_shuts_down [OF run, of ?obs 0] by (auto simp del: upt_rec_numeral)
  ultimately show ?thesis using run by blast
qed

end
