(* ===== verification/Split_Halves.thy ===== *)
theory Split_Halves
  imports Core_Properties
begin

text \<open>
  The halves of a connection for two threads (\<open>Transmission::split_with\<close>, \<open>TransmissionTx\<close> and
  \<open>TransmissionRx\<close> in \<open>core/src/transmission.rs\<close>), and that splitting changes nothing: every interleaving
  of writes and reads on the halves gives the results, states and bytes of the unsplit connection.
\<close>

section \<open>The halves\<close>

record 'r transmission_tx =
  ttx_io :: transport
  ttx_core :: "'r tx_core"

record transmission_rx =
  trx_io :: transport
  trx_core :: rx_core

definition split_with :: "'r transmission \<Rightarrow> transport \<Rightarrow> 'r transmission_tx \<times> transmission_rx" where
  "split_with t rx_io = (\<lparr>ttx_io = t_io t, ttx_core = t_tx t\<rparr>, \<lparr>trx_io = rx_io, trx_core = t_rx t\<rparr>)"

definition half_write ::
  "'r env_ops \<Rightarrow> 'r transmission_tx \<Rightarrow> bytes \<Rightarrow> unit core_result \<times> 'r transmission_tx" where
  "half_write E h plaintext =
     (let (r, tx, io) = tx_write E (ttx_core h) (ttx_io h) plaintext in (r, h\<lparr>ttx_core := tx, ttx_io := io\<rparr>))"

definition write_tagged ::
  "'r env_ops \<Rightarrow> 'r transmission_tx \<Rightarrow> u8 \<Rightarrow> bytes \<Rightarrow> unit core_result \<times> 'r transmission_tx" where
  "write_tagged E h tag payload =
     (case encrypt_into_tagged E (ttx_core h) [] tag payload of
        (Inl e, tx, out) \<Rightarrow> (Inl e, h\<lparr>ttx_core := tx\<rparr>)
      | (Inr _, tx, out) \<Rightarrow> (let (r, io) = write_all out (ttx_io h) in (r, h\<lparr>ttx_core := tx, ttx_io := io\<rparr>)))"

definition half_read :: "'r env_ops \<Rightarrow> transmission_rx \<Rightarrow> bytes core_result \<times> transmission_rx" where
  "half_read E h =
     (let (r, rx, io) = rx_read_buf E (trx_core h) (trx_io h) in (r, h\<lparr>trx_core := rx, trx_io := io\<rparr>))"

section \<open>Reads and writes touch different sides of a connection\<close>

text \<open>The reading side of one handle and the writing side of another.\<close>

definition sides :: "transport \<Rightarrow> transport \<Rightarrow> transport" where
  "sides i out = i\<lparr>tr_out := tr_out out, tr_out_room := tr_out_room out\<rparr>"

lemma sides_self [simp]: "sides io io = io"
  by (simp add: sides_def)

lemma sides_fields [simp]:
  "tr_in (sides i out) = tr_in i" "tr_in_fail (sides i out) = tr_in_fail i"
  "tr_out (sides i out) = tr_out out" "tr_out_room (sides i out) = tr_out_room out"
  "(sides i out)\<lparr>tr_in := x\<rparr> = sides (i\<lparr>tr_in := x\<rparr>) out"
  by (simp_all add: sides_def)

lemma read_exact_sides: "read_exact n (sides i out) = map_prod id (\<lambda>i'. sides i' out) (read_exact n i)"
  by (simp add: read_exact_def eof_kind_def)

lemma read_upto_sides: "read_upto n (sides i out) = map_prod id (\<lambda>i'. sides i' out) (read_upto n i)"
  by (simp add: read_upto_def split: option.split)

lemma read_frame_into_sides:
  "read_frame_into B fr (sides i out) = map_prod id (map_prod id (\<lambda>i'. sides i' out)) (read_frame_into B fr i)"
  by (simp add: read_frame_into_def read_exact_sides read_upto_sides split: prod.split sum.split)

lemma rx_read_buf_sides:
  "rx_read_buf E rx (sides i out) = map_prod id (map_prod id (\<lambda>i'. sides i' out)) (rx_read_buf E rx i)"
  by (simp add: rx_read_buf_def Let_def read_frame_into_sides read_exact_sides read_upto_sides
      split: prod.split sum.split)

lemma write_all_sides: "write_all bs (sides i out) = map_prod id (sides i) (write_all bs out)"
  by (simp add: write_all_def sides_def split: option.split)

lemma tx_write_sides:
  "tx_write E tx (sides i out) m = map_prod id (map_prod id (sides i)) (tx_write E tx out m)"
  by (simp add: tx_write_def write_all_sides split: prod.split sum.split)

section \<open>Interleavings\<close>

datatype half_op = HalfWrite bytes | HalfRead

datatype half_result = Wrote "unit core_result" | ReadBack "bytes core_result"

fun run_whole :: "'r env_ops \<Rightarrow> half_op list \<Rightarrow> 'r transmission \<Rightarrow> half_result list \<times> 'r transmission" where
  "run_whole E [] t = ([], t)"
| "run_whole E (HalfWrite m # ops) t =
     (let (r, t1) = t_write E t m; (rs, t2) = run_whole E ops t1 in (Wrote r # rs, t2))"
| "run_whole E (HalfRead # ops) t =
     (let (r, t1) = t_read E t; (rs, t2) = run_whole E ops t1 in (ReadBack r # rs, t2))"

fun run_halves ::
  "'r env_ops \<Rightarrow> half_op list \<Rightarrow> 'r transmission_tx \<Rightarrow> transmission_rx \<Rightarrow>
   half_result list \<times> 'r transmission_tx \<times> transmission_rx" where
  "run_halves E [] a b = ([], a, b)"
| "run_halves E (HalfWrite m # ops) a b =
     (let (r, a1) = half_write E a m; (rs, x) = run_halves E ops a1 b in (Wrote r # rs, x))"
| "run_halves E (HalfRead # ops) a b =
     (let (r, b1) = half_read E b; (rs, x) = run_halves E ops a b1 in (ReadBack r # rs, x))"

text \<open>The connection whose two sides and cores are those of the halves.\<close>

definition rejoin :: "'r transmission \<Rightarrow> 'r transmission_tx \<Rightarrow> transmission_rx \<Rightarrow> 'r transmission" where
  "rejoin t a b =
     \<lparr>t_io = sides (trx_io b) (ttx_io a), t_tx = ttx_core a, t_rx = trx_core b,
      t_session_id = t_session_id t, t_pending = t_pending t\<rparr>"

lemma run_halves_whole:
  "run_halves E ops a b = (rs, a', b') \<Longrightarrow> run_whole E ops (rejoin t a b) = (rs, rejoin t a' b')"
proof (induction E ops a b arbitrary: rs a' b' rule: run_halves.induct)
  case (2 E m ops a b)
  obtain r tx io where w: "tx_write E (ttx_core a) (ttx_io a) m = (r, tx, io)" by (cases "tx_write E (ttx_core a) (ttx_io a) m") auto
  obtain rs' where rs: "run_halves E ops (a\<lparr>ttx_core := tx, ttx_io := io\<rparr>) b = (rs', a', b')" "rs = Wrote r # rs'"
    using "2.prems" w by (auto simp: half_write_def split: prod.splits)
  show ?case
    using "2.IH" [OF _ refl rs(1)] w rs(2)
    by (simp add: half_write_def t_write_def tx_write_sides rejoin_def)
next
  case (3 E ops a b)
  obtain r rx io where w: "rx_read_buf E (trx_core b) (trx_io b) = (r, rx, io)" by (cases "rx_read_buf E (trx_core b) (trx_io b)") auto
  obtain rs' where rs: "run_halves E ops a (b\<lparr>trx_core := rx, trx_io := io\<rparr>) = (rs', a', b')" "rs = ReadBack r # rs'"
    using "3.prems" w by (auto simp: half_read_def split: prod.splits)
  show ?case
    using "3.IH" [OF _ refl rs(1)] w rs(2)
    by (simp add: half_read_def t_read_def rx_read_buf_sides rejoin_def)
qed simp

text \<open>
  C9.  Splitting a connection changes nothing: with the second handle on the same connection, every
  interleaving of writes on the sending half and reads on the receiving half returns what the unsplit
  connection returns for the same operations, errors included; the codec states, the bytes written and
  the bytes left to read are the same at the end.
\<close>

theorem split_halves_equivalent:
  assumes "split_with t (t_io t) = (a, b)" and "run_halves E ops a b = (rs, a', b')"
    and "run_whole E ops t = (rs', t')"
  shows "rs = rs' \<and> ttx_core a' = t_tx t' \<and> trx_core b' = t_rx t' \<and>
    tr_out (ttx_io a') = tr_out (t_io t') \<and> tr_in (trx_io b') = tr_in (t_io t')"
proof -
  have "rejoin t a b = t" using assms(1) by (auto simp: split_with_def rejoin_def)
  then show ?thesis using run_halves_whole [OF assms(2), of t] assms(3) by (auto simp: rejoin_def)
qed

theorem split_halves_equivalent_witness:
  "\<exists>rs a' b' t'. run_halves demo_env [HalfWrite [1], HalfRead]
      (fst (split_with (with_rng demo_env fresh_io default_key 0) fresh_io))
      (snd (split_with (with_rng demo_env fresh_io default_key 0) fresh_io)) = (rs, a', b') \<and>
    run_whole demo_env [HalfWrite [1], HalfRead] (with_rng demo_env fresh_io default_key 0) = (rs, t') \<and>
    tr_out (ttx_io a') = tr_out (t_io t')"
proof -
  let ?t = "with_rng demo_env fresh_io default_key 0" and ?ops = "[HalfWrite [1], HalfRead]"
  let ?s = "split_with ?t (t_io ?t)"
  obtain rs a' b' where h: "run_halves demo_env ?ops (fst ?s) (snd ?s) = (rs, a', b')"
    by (cases "run_halves demo_env ?ops (fst ?s) (snd ?s)") auto
  obtain rs' t' where w: "run_whole demo_env ?ops ?t = (rs', t')" by (cases "run_whole demo_env ?ops ?t") auto
  have "t_io ?t = fresh_io" by (simp add: with_rng_def)
  then show ?thesis
    using split_halves_equivalent [OF prod.collapse [symmetric] h w] h w by auto
qed

text \<open>A tagged write is the write of the tag in front of the payload.\<close>

lemma write_tagged_write: "write_tagged E h tag payload = half_write E h (tag # payload)"
  by (simp add: write_tagged_def half_write_def tx_write_def encrypt_into_tagged_def encrypt_into_def
      encrypt_impl_def Let_def split: prod.split sum.split)

end
