(* ===== verification/Spec2Isabelle.thy ===== *)
theory Spec2Isabelle
  imports Proxy_Stream Open_Stream Serve Split_Halves
begin

text \<open>
  A verification development for nextppp, an obfuscating proxy in Rust (\<open>src/crates\<close>).

  \<^bold>\<open>The program.\<close>  A client accepts SOCKS5 connections from local applications and carries each as a
  stream of a multiplexed tunnel to a server, which connects to the target.  A tunnel is one session of
  the core library: after a handshake every message is encrypted by two session ciphers, scrambled by a
  chain of cheap transforms and framed, in binary or in printable base94 text.  A pool keeps tunnels
  open; optionally several sessions (links) are bonded into one tunnel by a third-party aggregator.

  \<^bold>\<open>Theories and sources.\<close>

  \<^item> \<open>NP_Prelude\<close>: bytes, words, lists, the collections \<open>np_consts\<close>, \<open>frame_simps\<close> and \<open>len_simps\<close>.
    \<open>Core_Base\<close>: \<open>core/src/lib.rs\<close>, \<open>error.rs\<close>, \<open>config.rs\<close>, and the byte transport.
  \<^item> \<open>Simd\<close>, \<open>Ssea\<close>, \<open>Checksum\<close>, \<open>Cipher\<close>: \<open>core/src/crypto\<close> and \<open>core/src/frame/checksum.rs\<close>.  The
    vector and scalar bodies agree, the reciprocal modulus is exact, shuffle and delta are inverted, the
    batched cipher modes equal their serial references, encryption and decryption stay in step.
  \<^item> \<open>Binary_Frame\<close>, \<open>Base94_Frame\<close>, \<open>Base94_Reference\<close>: \<open>core/src/frame\<close>.  The base94 crate is a parameter
    with named laws; the reference coder shows that the laws can hold.
  \<^item> \<open>Handshake\<close>, \<open>Transmission\<close>, \<open>Channel\<close>, \<open>Handshake_Run\<close>: \<open>core/src/handshake.rs\<close> and
    \<open>transmission.rs\<close>.  \<open>chan_sync\<close> relates a sending and a receiving core that are in step; every
    operation keeps it, and the run of both handshake sides over a network establishes it.
  \<^item> \<open>Split_Halves\<close>: the halves of a connection for two threads; every interleaving equals the unsplit one.
  \<^item> \<open>Stream_Decoder\<close>, \<open>Session\<close>: \<open>core/src/session.rs\<close> and the reassembly loop of \<open>FrameReader\<close>.  The
    locale \<open>stream_decoder\<close> is the contract of an incremental decoder; both wire formats interpret it.
  \<^item> \<open>Mux\<close>, \<open>Tunnel\<close>, \<open>Stream_Pump\<close>: \<open>common/src/mux.rs\<close> and \<open>tunnel.rs\<close>: frames of streams, the batching
    writer, the frame reader, and the two directions of a proxied stream under every schedule.
  \<^item> \<open>Core_Properties\<close>: the properties of the core and of one tunnel, on a concrete environment for examples.
  \<^item> \<open>Link\<close>, \<open>Bond\<close>: \<open>common/src/link.rs\<close>, \<open>client/src/bond.rs\<close>, \<open>server/src/bond.rs\<close>.
  \<^item> \<open>Hash_Map\<close>, \<open>Proxy_Addr\<close>, \<open>Dns\<close>, \<open>Pump\<close>: hash maps as association lists with the locale
    \<open>capped_table\<close>, \<open>common/src/addr.rs\<close>, \<open>dns.rs\<close>, \<open>pump.rs\<close>.
  \<^item> \<open>Server\<close>, \<open>Proxy_Stream\<close>: \<open>server/src/lib.rs\<close>: admission and counters, stream registry, demultiplexer and
    stream tasks as operations of one connection, with delivery in order per stream.
  \<^item> \<open>Pool\<close>, \<open>Open_Stream\<close>, \<open>Socks5\<close>, \<open>Client_Runtime\<close>: \<open>client/src/pool.rs\<close>, \<open>socks5.rs\<close>, \<open>lib.rs\<close> and
    \<open>common/src/shutdown.rs\<close>.
  \<^item> \<open>App_Config\<close>, \<open>Launch\<close>, \<open>Listen\<close>: \<open>common/src/config.rs\<close>, \<open>nextppp/src/main.rs\<close> and \<open>common/src/listen.rs\<close>: a
    configuration becomes a listener with the options of its build target and a runtime.
  \<^item> \<open>Serve\<close>: \<open>serve\<close> and the accept loops of both roles beside the signal handler of \<open>common/src/shutdown.rs\<close>
    and all other tasks.  The locale \<open>accept_loop\<close> is what an orderly shutdown needs of a loop; both loops
    interpret it.  \<open>Log_Format\<close>: the numbers in log lines, \<open>common/src/fmt.rs\<close>.
  \<^item> this theory: the properties that span the components.

  \<^bold>\<open>How code becomes definitions.\<close>  A struct is a record with a prefix per type, an enum a datatype; a
  machine integer is a word of its width that wraps, as in the release build.  A fallible function
  returns \<open>core_error + 'a\<close>; one that changes state returns the state it leaves behind, also when it
  fails.  Blocking I/O is a \<open>transport\<close> that lists what can be read and what was written; an asynchronous
  carrier is the list of what successive reads give.  Tasks on shared state are operations whose
  interleavings are arbitrary lists (\<open>server_run\<close>, \<open>tunnel_run\<close>, \<open>pump_stream\<close>) or step relations with
  reachability (\<open>conn_step\<close>, \<open>pool_step\<close>, \<open>inbound_step\<close>, \<open>serve_step\<close>); a step is one access to the shared
  state, or several that no other task tells apart.

  \<^bold>\<open>Parameters.\<close>  \<open>env_ops\<close> bundles what the core takes from other crates: block ciphers, ChaCha20 and HKDF
  (no law is needed, a stream cipher is inverted by the same keystream), the base94 coder
  (\<open>base94_ok\<close>: decoding inverts encoding, printable output, bounded length) and the random generator
  (\<open>rng_ok\<close>: results within bounds).  \<open>getaddrinfo\<close>, socket calls and the answers of the aggregator are
  arguments; the only law about the aggregator is that it joins what it split.

  \<^bold>\<open>Bounds and termination.\<close>  There is no fuel: every loop is structural or has a measure (bytes left,
  reads left, attempts left, retries left).  Where the code waits for the outside, the model consumes the
  list of what the outside gives, and the properties say how much of it is enough.

  \<^bold>\<open>What is shown.\<close>  End to end: tunnels, proxied streams and bonded tunnels deliver what was sent, for
  every batching, chunking and schedule.  Below: round trips of every format, equivalence of every
  optimised routine with a reference, invariants of every table and counter, bounded resources, the
  errors of every refusal.  Some properties record behaviour that a comment or the purpose of the code
  contradicts: packets in counter mode that share keystream, a slot that a failed set-up never gives
  back, streams that survive their tunnel, a pool that exceeds its size, a dedicated dial beside an idle
  tunnel, a cut tunnel that looks closed.

  \<^bold>\<open>Not modelled.\<close>  The asynchronous runtime and the delivery of signals (third-party crates; their effect,
  turns in any order and a handler that may run at any time, is in the model), what the kernel does with
  socket options, JSON parsing and the command line (third-party crates), the text of log lines (no state
  depends on it), and the cryptographic strength of the primitives (outside the logic of the program).
\<close>

section \<open>Properties that span the components\<close>

text \<open>
  C1.  End to end: two endpoints with agreeing keys shake hands, and every multiplexed frame the
  client then queues reaches the server's frame reader, in order and intact, for every batching by
  the writer and every chunking by the network.
\<close>

theorem tunnel_end_to_end:
  assumes "env_ok E" and "key_agree True kc ks" and "max_nop_packets kc = max_nop_packets ks"
    and "validate kc = Inr ()" and "validate ks = Inr ()" and "sid \<noteq> 0"
    and "run_handshake E kc ks rc rs MuxTunnel sid allow_bond = (r1, r2, r3, c, s)"
    and "list_all (\<lambda>(k, stream, p). length p \<le> PPP_BUFFER_SIZE - 6) (concat reqs)"
    and "run_writer E (TxSession (t_tx c)) fresh_io (map (map to_out_frame) reqs) = (wire, sock)"
    and "concat cs = tr_out sock" and "[] \<notin> set cs"
  shows "r1 = Inr () \<and> r2 = Inr MuxTunnel \<and> r3 = Inr sid \<and>
    (\<exists>msgs rd. next_seq (reader_step E) (length (concat reqs))
        (RxSession (ss_rx (fst (into_session s)))) [] (map Chunk cs) = (msgs, rd, [], []) \<and>
      map parse_frame msgs = map Inr (concat reqs))"
proof -
  have "key_agree False kc ks" using assms(2) by (simp add: key_agree_def)
  then have hs: "r1 = Inr ()" "r2 = Inr MuxTunnel" "r3 = Inr sid" "chan_sync (t_tx c) (t_rx s)"
    using run_handshake_result [OF assms(1) _ assms(3-6), where role = MuxTunnel and
        allow_bond = allow_bond and rc = rc and rs = rs] key_agree_flag_canary [OF assms(2)] assms(7)
    by (auto simp: effective_role_def)
  show ?thesis
    using hs tunnel_frames_arrive [OF assms(1) hs(4) _ _ assms(8-11)]
    by (simp add: into_session_def)
qed

theorem tunnel_end_to_end_witness:
  "\<exists>c s msgs rd. run_handshake demo_env default_key default_key 0 1 MuxTunnel 7 False =
      (Inr (), Inr MuxTunnel, Inr 7, c, s) \<and>
    next_seq (reader_step demo_env) 1 (RxSession (ss_rx (fst (into_session s)))) []
      (map (\<lambda>b. Chunk [b]) (tr_out (snd (run_writer demo_env (TxSession (t_tx c)) fresh_io
         [[to_out_frame (KOpen, 1, [9])]])))) = (msgs, rd, [], []) \<and>
    map parse_frame msgs = [Inr (KOpen, 1, [9])]"
proof -
  obtain r1 r2 r3 c s where run:
    "run_handshake demo_env default_key default_key 0 1 MuxTunnel 7 False = (r1, r2, r3, c, s)"
    by (metis prod.exhaust)
  let ?x = "run_writer demo_env (TxSession (t_tx c)) fresh_io [[to_out_frame (KOpen, 1, [9])]]"
  let ?cs = "map (\<lambda>b. [b]) (tr_out (snd ?x))"
  have "concat ?cs = tr_out (snd ?x)" "[] \<notin> set ?cs" by auto
  moreover have "key_agree True default_key default_key" by (simp add: key_agree_def)
  ultimately show ?thesis
    using tunnel_end_to_end [OF demo_env_ok _ refl default_key_valid default_key_valid _ run,
        of "[[(KOpen, 1, [9])]]" "fst ?x" "snd ?x" ?cs] run
    by (auto simp: np_consts comp_def simp del: next_seq.simps)
qed

text \<open>
  C37.  A carrier that ends inside a frame is reported by the frame reader exactly as one that ends
  between frames: no error, the end of the tunnel.
\<close>

theorem truncated_frame_reads_as_end:
  assumes "env_ok E" and "chan_sync tx rx" and "sendable m"
    and "encrypt_into E tx [] m = (r, tx', wire)" and "0 < i" and "i < length wire"
  shows "\<exists>rd buf. next_loop (reader_step E) (RxSession (ss_rx (from_cores tx0 rx sid))) []
      [Chunk (take i wire)] = (Inr None, rd, buf, [])"
proof -
  obtain rx' where w: "wire_for E rx wire m rx'"
    using encrypt_into_ok [OF assms(1-3), of "[]"] assms(4) by auto
  have "wire_for E rx ([] @ wire) m rx'" "wire \<noteq> []" using w assms(6) by auto
  moreover have "reader_session_rep E (RxSession (ss_rx (from_cores tx0 rx sid))) [] rx []"
    using session_rep_new by (auto simp: reader_session_rep_def)
  ultimately obtain s1 b1 where s1: "reader_session_rep E s1 b1 rx []"
    "next_loop (reader_step E) (RxSession (ss_rx (from_cores tx0 rx sid))) [] [Chunk (take i wire)] =
     next_loop (reader_step E) s1 (b1 @ take i wire) []"
    using rd_sess.next_partial [of E "RxSession (ss_rx (from_cores tx0 rx sid))" "[]" rx "[]" wire m
        rx' "[Chunk (take i wire)]"] assms(5,6) by auto
  have "wire_for E rx (take i wire @ drop i wire) m rx'" "drop i wire \<noteq> []"
    using w assms(6) by auto
  then show ?thesis
    using s1(2) rd_sess.truncated_is_end [OF rd_sess.feed [OF s1(1), of "take i wire"], of "drop i wire"]
    by auto
qed

theorem truncated_frame_reads_as_end_witness:
  "\<exists>rd buf. next_loop (reader_step demo_env)
      (RxSession (ss_rx (from_cores (tx_new demo_env default_key 0) (rx_new demo_env default_key) 1))) []
      [Chunk (take 1 (snd (snd (encrypt_into demo_env (tx_new demo_env default_key 0) [] [1, 2, 3]))))] =
    (Inr None, rd, buf, [])"
proof -
  let ?tx = "tx_new demo_env default_key 0" and ?rx = "rx_new demo_env default_key"
  let ?x = "encrypt_into demo_env ?tx [] [1, 2, 3]"
  have m: "sendable [1, 2, 3]" by (simp add: sendable_def np_consts)
  obtain wire tx' rx' where "?x = (Inr (), tx', wire)" "wire_for demo_env ?rx wire [1, 2, 3] rx'"
    using encrypt_into_ok [OF demo_env_ok demo_sync m, of 0 "[]"] by auto
  then have "1 < length (snd (snd ?x))"
    by (auto simp: wire_for_def base94_mode_def rx_new_def frame_for_def rx_header_len_def np_consts
        split: if_splits)
  then show ?thesis
    using truncated_frame_reads_as_end [OF demo_env_ok demo_sync m, of 0 "fst ?x" "fst (snd ?x)"
        "snd (snd ?x)" 1 ?tx 1] by simp
qed

text \<open>
  C2.  A proxied stream end to end: the pump at the sending end turns what the local socket delivers
  into frames; the tunnel carries them among the frames of other streams; the server's demultiplexer
  routes them to the stream's channel while stream tasks come and go; the pump at the receiving end
  writes them to the target.  Under every schedule, batching and chunking the target receives a prefix
  of the bytes the sending socket delivered.
\<close>

theorem proxied_stream_end_to_end:
  assumes "env_ok E" and "chan_sync tx rx"
    and "list_all (\<lambda>(k, stream, p). length p \<le> PPP_BUFFER_SIZE - 6) (concat reqs)"
    and "run_writer E (TxSession tx) fresh_io (map (map to_out_frame) reqs) = (wire, sock)"
    and "concat cs = tr_out sock" and "[] \<notin> set cs" and "concat reqs = pre @ post"
    and "ch_sent (ps_ch (pump_stream sid turns
      (pump_init reads evs \<lparr>ch_sent = [], ch_left = left\<rparr> wr))) = map to_out_frame (of_stream sid post)"
  shows "\<exists>msgs rd. next_seq (reader_step E) (length (concat reqs))
        (RxSession (ss_rx (from_cores tx0 rx id0))) [] (map Chunk cs) = (msgs, rd, [], []) \<and>
    (\<forall>rt ops0 ops out st n turns' reads' ch' wr' c0.
      c0 = server_run rt ops0 (conn_new out st) \<and> demux_msgs ops0 = take (length pre) msgs \<and>
      demux_msgs ops = drop (length pre) msgs \<and> hm_get (sv_registry c0) sid = Some n \<and> sv_open c0 \<and>
      delivered_to n c0 = [] \<longrightarrow>
      (\<exists>w. tr_out (ps_wr (pump_stream sid turns'
          (pump_init reads' (delivered_to n (server_run rt ops c0)) ch' wr'))) = tr_out wr' @ w \<and>
        prefix w (reads_bytes reads)))"
proof -
  obtain msgs rd where msgs: "next_seq (reader_step E) (length (concat reqs))
      (RxSession (ss_rx (from_cores tx0 rx id0))) [] (map Chunk cs) = (msgs, rd, [], [])"
    "map parse_frame msgs = map Inr (concat reqs)"
    using tunnel_frames_arrive [OF assms(1,2) _ _ assms(3-6), of tx0 id0] by (auto simp: fresh_io_def)
  have post: "map parse_frame (drop (length pre) msgs) = map Inr post"
    using msgs(2) assms(7) by (metis append_eq_conv_conj drop_map)
  have sent: "prefix (data_bytes (of_stream sid post)) (reads_bytes reads)"
    using pump_up_prefix [of sid turns reads evs "\<lparr>ch_sent = [], ch_left = left\<rparr>" wr
        "of_stream sid post"] assms(8) by simp
  have ok: "registry_ok (server_run rt ops0 (conn_new out st))" for rt ops0 out st
    using registry_run [of "conn_new out st" rt ops0] by (simp add: registry_ok_def conn_new_def)
  have "\<exists>w. tr_out (ps_wr (pump_stream sid turns'
        (pump_init reads' (delivered_to n (server_run rt ops c0)) ch' wr'))) = tr_out wr' @ w \<and>
      prefix w (reads_bytes reads)"
    if h: "c0 = server_run rt ops0 (conn_new out st)" "demux_msgs ops = drop (length pre) msgs"
      "hm_get (sv_registry c0) sid = Some n" "sv_open c0" "delivered_to n c0 = []"
    for rt ops0 ops out st n turns' reads' ch' wr' c0
  proof -
    obtain w where "tr_out (ps_wr (pump_stream sid turns'
        (pump_init reads' (delivered_to n (server_run rt ops c0)) ch' wr'))) = tr_out wr' @ w"
      "prefix w (data_bytes (of_stream sid post))"
      using receiver_prefix [of c0 sid n ops post turns' reads' rt ch' wr'] ok h post by auto
    with sent show ?thesis using prefix_order.trans by blast
  qed
  with msgs(1) show ?thesis by blast
qed

theorem proxied_stream_end_to_end_witness:
  "\<exists>msgs rd w. next_seq (reader_step demo_env) 2
      (RxSession (ss_rx (from_cores (tx_new demo_env default_key 0) (rx_new demo_env default_key) 1))) []
      (map (\<lambda>b. Chunk [b]) (tr_out (snd (run_writer demo_env (TxSession (tx_new demo_env default_key 0)) fresh_io
         [[to_out_frame (KOpen, 1, addr_encode demo_addr), to_out_frame (KData, 1, [5])]])))) =
      (msgs, rd, [], []) \<and>
    tr_out (ps_wr (pump_stream 1 [TurnDown False []]
      (pump_init [] (delivered_to 0 (server_run demo_runtime [OpDemux (DemuxFrame (msgs ! 1) SendOk False)]
          (server_run demo_runtime [OpDemux (DemuxFrame (msgs ! 0) SendOk False)]
            (conn_new \<lparr>ch_sent = [], ch_left = None\<rparr> stats_default))))
        \<lparr>ch_sent = [], ch_left = None\<rparr> fresh_io))) = w \<and>
    prefix w [5] \<and> w \<noteq> []"
proof -
  let ?reqs = "[[(KOpen, 1, addr_encode demo_addr), (KData, 1, [5])]] :: mux_frame list list"
  let ?tx = "tx_new demo_env default_key 0" and ?ch = "\<lparr>ch_sent = [], ch_left = None\<rparr> :: out_chan"
  let ?x = "run_writer demo_env (TxSession ?tx) fresh_io (map (map to_out_frame) ?reqs)"
  let ?cs = "map (\<lambda>b. [b]) (tr_out (snd ?x))"
  let ?next = "next_seq (reader_step demo_env) (length (concat ?reqs))
    (RxSession (ss_rx (from_cores ?tx (rx_new demo_env default_key) 1))) [] (map Chunk ?cs)"
  have fits: "list_all (\<lambda>(k, stream, p). length p \<le> PPP_BUFFER_SIZE - 6) (concat ?reqs)"
    by (simp add: np_consts demo_addr_def addr_encode_def addr_encode_into_def encode_host_def)
  have cs: "concat ?cs = tr_out (snd ?x)" "[] \<notin> set ?cs" by auto
  have split: "concat ?reqs = [(KOpen, 1, addr_encode demo_addr)] @ [(KData, 1, [5])]" by simp
  have pump: "ch_sent (ps_ch (pump_stream 1 [TurnUp False] (pump_init [LRead [5]] [] ?ch fresh_io))) =
      map to_out_frame (of_stream 1 [(KData, 1, [5])])"
    by (simp add: pump_stream_def pump_init_def pump_up_def chan_send_def of_stream_def to_out_frame_simps)
  obtain msgs rd where msgs: "?next = (msgs, rd, [], [])" "map parse_frame msgs = map Inr (concat ?reqs)"
    using tunnel_frames_arrive [OF demo_env_ok demo_sync _ _ fits prod.collapse [symmetric] cs, of ?tx 1] by auto
  then obtain m0 m1 where m: "msgs = [m0, m1]" "parse_frame m0 = Inr (KOpen, 1, addr_encode demo_addr)"
    "parse_frame m1 = Inr (KData, 1, [5])"
    by (auto simp: map_eq_Cons_conv)
  let ?opening = "[OpDemux (DemuxFrame m0 SendOk False)]" and ?ops = "[OpDemux (DemuxFrame m1 SendOk False)]"
  let ?c0 = "server_run demo_runtime ?opening (conn_new ?ch stats_default)"
  have "?c0 = server_run demo_runtime [demo_open] (conn_new ?ch stats_default)"
    using m(2) by (simp add: demo_open_def run_demux_step_def parse_to_out_frame conn_new_def)
  then have c0: "?c0 = (conn_new ?ch stats_default)\<lparr>sv_registry := [(1, 0)],
      sv_tasks := [\<lparr>tk_stream = 1, tk_addr = demo_addr, tk_phase = TaskConnecting\<rparr>]\<rparr>"
    by (simp only: demo_open_step)
  have reg: "hm_get (sv_registry ?c0) 1 = Some 0" "sv_open ?c0" "delivered_to 0 ?c0 = []"
    unfolding c0 by (simp_all add: hm_get_def conn_new_def delivered_to_def)
  have got: "delivered_to 0 (server_run demo_runtime ?ops ?c0) = [EvData [5]]"
    unfolding c0 using m(3) by (simp add: run_demux_step_def route_def conn_new_def hm_get_def delivered_to_def)
  let ?out = "tr_out (ps_wr (pump_stream 1 [TurnDown False []]
    (pump_init [] (delivered_to 0 (server_run demo_runtime ?ops ?c0)) ?ch fresh_io)))"
  let ?pre = "[(KOpen, 1, addr_encode demo_addr)] :: mux_frame list"
  from proxied_stream_end_to_end [OF demo_env_ok demo_sync fits prod.collapse [symmetric] cs split pump, of ?tx 1]
  obtain msgs' rd' where e2e: "?next = (msgs', rd', [], [])"
    and target: "\<forall>rt ops0 ops out st n turns' reads' ch' wr' c0.
      c0 = server_run rt ops0 (conn_new out st) \<and> demux_msgs ops0 = take (length ?pre) msgs' \<and>
      demux_msgs ops = drop (length ?pre) msgs' \<and> hm_get (sv_registry c0) 1 = Some n \<and> sv_open c0 \<and>
      delivered_to n c0 = [] \<longrightarrow>
      (\<exists>w. tr_out (ps_wr (pump_stream 1 turns'
          (pump_init reads' (delivered_to n (server_run rt ops c0)) ch' wr'))) = tr_out wr' @ w \<and>
        prefix w (reads_bytes [LRead [5]]))"
    by (elim exE conjE)
  have "msgs' = [m0, m1]" using e2e msgs(1) m(1) by simp
  then have seen: "demux_msgs ?opening = take (length ?pre) msgs'" "demux_msgs ?ops = drop (length ?pre) msgs'"
    by simp_all
  have "\<exists>w. ?out = tr_out fresh_io @ w \<and> prefix w (reads_bytes [LRead [5]])"
    by (rule target [rule_format]) (rule conjI, rule refl, intro conjI seen reg)
  moreover have "?out \<noteq> []"
    unfolding got by (simp add: pump_stream_def pump_init_def pump_down_def write_all_def)
  ultimately show ?thesis using msgs(1) m(1) by (auto simp: comp_def numeral_2_eq_2 simp del: next_seq.simps)
qed

end
